(* ===== verification/Kuzu_Prelude.thy ===== *)
theory Kuzu_Prelude
  imports Main "HOL-Library.Word"
begin

text \<open>
  Shared vocabulary of the development: the exceptions of \<^verbatim>\<open>src/src/include/common/exception\<close>
  as an error datatype, the result monad in which fallible operations are written, the fixed-width
  integer types of \<^verbatim>\<open>src/src/include/common/types/types.h\<close>, and the facts about lists, loops over
  index ranges and folds that every component uses.

  Conventions. A C++ exception is a value \<open>Inl e\<close>; a null dereference, which C++ leaves undefined,
  is \<open>Inl NullPointer\<close>, a use of an object that has been destroyed is \<open>Inl DanglingPointer\<close>, the
  exception of \<^verbatim>\<open>at\<close> on a standard container without the key is \<open>Inl OutOfRange\<close>, an exception
  \<^verbatim>\<open>std::overflow_error\<close> is \<open>Inl (StdOverflowError _)\<close>, an integer division by zero that the code does not check for, which C++
  leaves undefined, is \<open>Inl UndefinedBehaviour\<close>, and a loop that does not return is \<open>Inl Diverges\<close>. \<^verbatim>\<open>KU_ASSERT\<close> is a no-op in release builds and is not a branch of the
  model; \<^verbatim>\<open>KU_UNREACHABLE\<close> throws and is \<open>Inl InternalException\<close>. Locks are not modelled: every
  operation is one atomic step.
\<close>

subsection \<open>Errors and the result monad\<close>

datatype kuzu_error =
    RuntimeException string
  | CatalogException string
  | TransactionManagerException string
  | BufferManagerException string
  | ConversionException string
  | OverflowException string
  | StorageException string
  | IOException string
  | CopyException string
  | InternalException
  | NullPointer
  | DanglingPointer
  | OutOfRange
  | StdOverflowError string
  | UndefinedBehaviour
  | Diverges

type_synonym 'a result = "kuzu_error + 'a"

definition rbind :: "'a result \<Rightarrow> ('a \<Rightarrow> 'b result) \<Rightarrow> 'b result" where
  "rbind m f = (case m of Inl e \<Rightarrow> Inl e | Inr a \<Rightarrow> f a)"

lemma rbind_simps [simp]:
  "rbind (Inl e) f = Inl e"
  "rbind (Inr a) f = f a"
  by (simp_all add: rbind_def)

lemma rbind_eq_Inr: "rbind m f = Inr b \<longleftrightarrow> (\<exists>a. m = Inr a \<and> f a = Inr b)"
  by (cases m) auto

lemma rbind_Inr_right [simp]: "rbind m Inr = m"
  by (cases m) auto

lemma rbind_assoc: "rbind (rbind m f) g = rbind m (\<lambda>x. rbind (f x) g)"
  by (cases m) auto

lemma rbindE [elim]:
  assumes "rbind m f = Inr b"
  obtains a where "m = Inr a" "f a = Inr b"
  using assms by (auto simp: rbind_eq_Inr)

lemma rbind_cong [fundef_cong]:
  "m = m' \<Longrightarrow> (\<And>a. m' = Inr a \<Longrightarrow> f a = f' a) \<Longrightarrow> rbind m f = rbind m' f'"
  by (cases m') auto

text \<open>A loop written as a partial function, run inside a fallible operation.\<close>

definition returned :: "'a option \<Rightarrow> 'a result" where
  "returned m = (case m of None \<Rightarrow> Inl Diverges | Some a \<Rightarrow> Inr a)"

lemma returned_simps [simp]: "returned None = Inl Diverges" "returned (Some a) = Inr a"
  by (simp_all add: returned_def)

text \<open>A loop over a list whose body may throw.\<close>

fun foldM :: "('a \<Rightarrow> 's \<Rightarrow> 's result) \<Rightarrow> 'a list \<Rightarrow> 's \<Rightarrow> 's result" where
  "foldM f [] s = Inr s"
| "foldM f (x # xs) s = rbind (f x s) (foldM f xs)"

lemma foldM_append: "foldM f (xs @ ys) s = rbind (foldM f xs s) (foldM f ys)"
proof (induction xs arbitrary: s)
  case (Cons x xs)
  show ?case by (cases "f x s") (simp_all add: Cons)
qed simp

lemma foldM_invariant:
  assumes step: "\<And>x s s'. x \<in> set xs \<Longrightarrow> I s \<Longrightarrow> f x s = Inr s' \<Longrightarrow> I s'"
    and init: "I s" and run: "foldM f xs s = Inr s'"
  shows "I s'"
  using step init run
proof (induction xs arbitrary: s)
  case (Cons x xs)
  from Cons.prems(3) obtain t where t: "f x s = Inr t" and rest: "foldM f xs t = Inr s'"
    by auto
  from Cons.prems(1,2) t have "I t" by auto
  with Cons.prems(1) rest show ?case by (auto intro: Cons.IH [of t])
qed simp

subsection \<open>Integer types\<close>

text \<open>Transaction identifiers and timestamps share one 64-bit type; row, page and vector indices are
  natural numbers, since no operation modelled here lets them reach the width of their C++ type.\<close>

type_synonym transaction_t = "64 word"
type_synonym row_idx_t = nat
type_synonym idx_t = nat
type_synonym oid_t = nat
type_synonym byte = "8 word"

definition DEFAULT_VECTOR_CAPACITY :: nat where
  "DEFAULT_VECTOR_CAPACITY = 2 ^ 11"

definition INVALID_TRANSACTION :: transaction_t where
  "INVALID_TRANSACTION = - 1"

lemma DEFAULT_VECTOR_CAPACITY_pos [simp]: "0 < DEFAULT_VECTOR_CAPACITY"
  by (simp add: DEFAULT_VECTOR_CAPACITY_def)

lemma DEFAULT_VECTOR_CAPACITY_neq0 [simp]: "DEFAULT_VECTOR_CAPACITY \<noteq> 0"
  by (simp add: DEFAULT_VECTOR_CAPACITY_def)

lemma INVALID_TRANSACTION_max: "t \<le> INVALID_TRANSACTION"
  by (simp add: INVALID_TRANSACTION_def)

lemma INVALID_TRANSACTION_le_iff [simp]: "INVALID_TRANSACTION \<le> t \<longleftrightarrow> t = INVALID_TRANSACTION"
  using INVALID_TRANSACTION_max [of t] by auto

subsection \<open>Filling an index range\<close>

text \<open>The loop \<^verbatim>\<open>for (i = s; i < s + n; i++) xs[i] = v\<close>. A store outside the list, undefined in C++,
  leaves the list unchanged here; every use in the development is shown to stay within it.\<close>

fun fill_range :: "'a list \<Rightarrow> nat \<Rightarrow> nat \<Rightarrow> 'a \<Rightarrow> 'a list" where
  "fill_range xs s 0 v = xs"
| "fill_range xs s (Suc n) v = fill_range (xs[s := v]) (Suc s) n v"

lemma length_fill_range [simp]: "length (fill_range xs s n v) = length xs"
  by (induction n arbitrary: xs s) auto

lemma nth_fill_range:
  "i < length xs \<Longrightarrow> fill_range xs s n v ! i = (if s \<le> i \<and> i < s + n then v else xs ! i)"
  by (induction n arbitrary: xs s) (auto simp: nth_list_update)

lemma list_ex_fill_range:
  "list_ex (\<lambda>x. x \<noteq> w) (fill_range a s n w) \<longleftrightarrow>
     (\<exists>i < length a. \<not> (s \<le> i \<and> i < s + n) \<and> a ! i \<noteq> w)"
proof -
  have "fill_range a s n w ! i \<noteq> w \<longleftrightarrow> \<not> (s \<le> i \<and> i < s + n) \<and> a ! i \<noteq> w"
    if "i < length a" for i
    using that by (simp add: nth_fill_range)
  then show ?thesis by (auto simp: list_ex_length)
qed

subsection \<open>Writing a list at an index\<close>

text \<open>The loop \<^verbatim>\<open>for (v : vs) getMutableBuffer()[k++] = v\<close>.\<close>

fun write_at :: "'a list \<Rightarrow> nat \<Rightarrow> 'a list \<Rightarrow> 'a list" where
  "write_at xs k [] = xs"
| "write_at xs k (v # vs) = write_at (xs[k := v]) (Suc k) vs"

lemma length_write_at [simp]: "length (write_at xs k vs) = length xs"
  by (induction xs k vs rule: write_at.induct) auto

lemma take_write_at:
  "k + length vs \<le> length xs \<Longrightarrow> take (k + length vs) (write_at xs k vs) = take k xs @ vs"
proof (induction xs k vs rule: write_at.induct)
  case (2 xs k v vs)
  then have "take (Suc k + length vs) (write_at (xs[k := v]) (Suc k) vs)
      = take (Suc k) (xs[k := v]) @ vs" by simp
  moreover have "take (Suc k) (xs[k := v]) = take k xs @ [v]"
    using "2.prems" by (simp add: take_Suc_conv_app_nth)
  ultimately show ?case by simp
qed simp

lemma nth_write_at:
  "i < length xs \<Longrightarrow> write_at xs k vs ! i = (if k \<le> i \<and> i < k + length vs then vs ! (i - k) else xs ! i)"
proof (induction xs k vs rule: write_at.induct)
  case (2 xs k v vs)
  then show ?case by (cases "i = k") (auto simp: nth_Cons')
qed auto

subsection \<open>Lists\<close>

text \<open>\<^verbatim>\<open>vector::resize(n)\<close> for a vector of pointers that only ever grows.\<close>

definition resize :: "nat \<Rightarrow> 'a option list \<Rightarrow> 'a option list" where
  "resize n xs = take n xs @ replicate (n - length xs) None"

lemma length_resize [simp]: "length (resize n xs) = n"
  by (simp add: resize_def min_def)

lemma nth_resize: "i < n \<Longrightarrow> resize n xs ! i = (if i < length xs then xs ! i else None)"
  by (auto simp: resize_def nth_append min_def)

subsection \<open>Division into vectors\<close>

text \<open>\<^verbatim>\<open>StorageUtils::getQuotientRemainder\<close>.\<close>

definition getQuotientRemainder :: "nat \<Rightarrow> nat \<Rightarrow> nat \<times> nat" where
  "getQuotientRemainder i divisor = (i div divisor, i mod divisor)"

end
