(* ===== verification/Sel_Vector.thy ===== *)
theory Sel_Vector
  imports Kuzu_Prelude
begin

text \<open>
  Selection vectors (\<^verbatim>\<open>src/src/include/common/data_chunk/sel_vector.h\<close>). A selection vector names the
  selected positions of a data chunk. Its \<^verbatim>\<open>selectedPositions\<close> pointer refers either to the constant
  array \<^verbatim>\<open>INCREMENTAL_SELECTED_POS\<close> (0, 1, 2, \<dots>), and the vector is then called unfiltered, or to
  the buffer it owns. The pointer is modelled by which of the two arrays it refers to.
\<close>

datatype sel_pointer = IncrementalSelectedPos | SelectedPositionsBuffer

record SelectionVector =
  selectedSize :: nat
  sv_capacity :: nat
  selectedPositionsBuffer :: "nat list"
  selectedPositions :: sel_pointer

definition INCREMENTAL_SELECTED_POS :: "nat list" where
  "INCREMENTAL_SELECTED_POS = [0..<DEFAULT_VECTOR_CAPACITY]"

text \<open>The constructor: the buffer is value-initialised to zeros.\<close>

definition new_SelectionVector :: "nat \<Rightarrow> SelectionVector" where
  "new_SelectionVector cap =
     \<lparr>selectedSize = 0, sv_capacity = cap, selectedPositionsBuffer = replicate cap 0,
      selectedPositions = IncrementalSelectedPos\<rparr>"

definition isUnfiltered :: "SelectionVector \<Rightarrow> bool" where
  "isUnfiltered sv \<longleftrightarrow> selectedPositions sv = IncrementalSelectedPos"

definition setToUnfiltered :: "nat \<Rightarrow> SelectionVector \<Rightarrow> SelectionVector" where
  "setToUnfiltered n sv =
     sv\<lparr>selectedPositions := IncrementalSelectedPos, selectedSize := n\<rparr>"

definition setToFiltered :: "nat \<Rightarrow> SelectionVector \<Rightarrow> SelectionVector" where
  "setToFiltered n sv =
     sv\<lparr>selectedPositions := SelectedPositionsBuffer, selectedSize := n\<rparr>"

definition setSelSize :: "nat \<Rightarrow> SelectionVector \<Rightarrow> SelectionVector" where
  "setSelSize n sv = sv\<lparr>selectedSize := n\<rparr>"

definition incrementSelSize :: "nat \<Rightarrow> SelectionVector \<Rightarrow> SelectionVector" where
  "incrementSelSize increment sv = sv\<lparr>selectedSize := selectedSize sv + increment\<rparr>"

definition getSelectedPositions :: "SelectionVector \<Rightarrow> nat list" where
  "getSelectedPositions sv =
     take (selectedSize sv)
       (if isUnfiltered sv then INCREMENTAL_SELECTED_POS else selectedPositionsBuffer sv)"

text \<open>\<^verbatim>\<open>forEach\<close>: the positions the callback is called with, in order. An unfiltered vector counts from
  its first position instead of reading the array.\<close>

definition forEach :: "SelectionVector \<Rightarrow> nat list" where
  "forEach sv =
     (if isUnfiltered sv
      then (let start = INCREMENTAL_SELECTED_POS ! 0 in [start..<start + selectedSize sv])
      else map (\<lambda>i. selectedPositionsBuffer sv ! i) [0..<selectedSize sv])"

text \<open>A selection vector is well formed when its buffer has the capacity and the selected size does
  not exceed it; the capacity never exceeds a vector's.\<close>

definition sv_wf :: "SelectionVector \<Rightarrow> bool" where
  "sv_wf sv \<longleftrightarrow> length (selectedPositionsBuffer sv) = sv_capacity sv \<and>
     selectedSize sv \<le> sv_capacity sv \<and> sv_capacity sv \<le> DEFAULT_VECTOR_CAPACITY"

lemma sv_wf_new: "cap \<le> DEFAULT_VECTOR_CAPACITY \<Longrightarrow> sv_wf (new_SelectionVector cap)"
  by (simp add: sv_wf_def new_SelectionVector_def)

lemma INCREMENTAL_SELECTED_POS_take [simp]:
  "n \<le> DEFAULT_VECTOR_CAPACITY \<Longrightarrow> take n INCREMENTAL_SELECTED_POS = [0..<n]"
  by (simp add: INCREMENTAL_SELECTED_POS_def take_upt)

lemma getSelectedPositions_unfiltered:
  "sv_wf sv \<Longrightarrow> isUnfiltered sv \<Longrightarrow> getSelectedPositions sv = [0..<selectedSize sv]"
  by (simp add: getSelectedPositions_def sv_wf_def)

lemma getSelectedPositions_filtered:
  "\<not> isUnfiltered sv \<Longrightarrow>
   getSelectedPositions sv = take (selectedSize sv) (selectedPositionsBuffer sv)"
  by (simp add: getSelectedPositions_def)

text \<open>The two loops of \<^verbatim>\<open>forEach\<close> visit what \<^verbatim>\<open>getSelectedPositions\<close> returns.\<close>

lemma forEach_getSelectedPositions: "sv_wf sv \<Longrightarrow> forEach sv = getSelectedPositions sv"
  by (auto simp: forEach_def getSelectedPositions_unfiltered getSelectedPositions_filtered sv_wf_def
      INCREMENTAL_SELECTED_POS_def Let_def intro!: nth_equalityI)

end
