(* ===== verification/Vector_Version_Info.thy ===== *)
theory Vector_Version_Info
  imports Sel_Vector
begin

text \<open>
  Row versions of a chunked node group (\<^verbatim>\<open>src/src/storage/store/version_info.cpp\<close>): one
  \<^verbatim>\<open>VectorVersionInfo\<close> per 2048 rows records which transaction inserted and which deleted each row,
  either row by row in an array or, when one transaction inserted them all, by one shared version.
  The abstraction is a stamp per row; every operation is related to its effect on the stamps.
\<close>

subsection \<open>One vector\<close>

datatype InsertionStatus = NO_INSERTED | INS_CHECK_VERSION | ALWAYS_INSERTED
datatype DeletionStatus = NO_DELETED | DEL_CHECK_VERSION

record VectorVersionInfo =
  insertedVersions :: "transaction_t list option"
  deletedVersions :: "transaction_t list option"
  sameInsertionVersion :: transaction_t
  sameDeletionVersion :: transaction_t
  insertionStatus :: InsertionStatus
  deletionStatus :: DeletionStatus

definition new_VectorVersionInfo :: VectorVersionInfo where
  "new_VectorVersionInfo =
     \<lparr>insertedVersions = None, deletedVersions = None,
      sameInsertionVersion = INVALID_TRANSACTION, sameDeletionVersion = INVALID_TRANSACTION,
      insertionStatus = NO_INSERTED, deletionStatus = NO_DELETED\<rparr>"

definition isSameInsertionVersion :: "VectorVersionInfo \<Rightarrow> bool" where
  "isSameInsertionVersion v \<longleftrightarrow> sameInsertionVersion v \<noteq> INVALID_TRANSACTION"

definition isSameDeletionVersion :: "VectorVersionInfo \<Rightarrow> bool" where
  "isSameDeletionVersion v \<longleftrightarrow> sameDeletionVersion v \<noteq> INVALID_TRANSACTION"

definition initInsertionVersionArray :: "VectorVersionInfo \<Rightarrow> VectorVersionInfo" where
  "initInsertionVersionArray v =
     v\<lparr>insertedVersions := Some (replicate DEFAULT_VECTOR_CAPACITY INVALID_TRANSACTION)\<rparr>"

definition initDeletionVersionArray :: "VectorVersionInfo \<Rightarrow> VectorVersionInfo" where
  "initDeletionVersionArray v =
     v\<lparr>deletedVersions := Some (replicate DEFAULT_VECTOR_CAPACITY INVALID_TRANSACTION)\<rparr>"

definition VectorVersionInfo_append ::
  "transaction_t \<Rightarrow> row_idx_t \<Rightarrow> row_idx_t \<Rightarrow> VectorVersionInfo \<Rightarrow> VectorVersionInfo" where
  "VectorVersionInfo_append transactionID startRow numRows v0 =
     (let v = v0\<lparr>insertionStatus := INS_CHECK_VERSION\<rparr> in
      if transactionID = sameInsertionVersion v then v
      else if \<not> isSameInsertionVersion v \<and> insertedVersions v = None then
        v\<lparr>sameInsertionVersion := transactionID\<rparr>
      else
        let v1 = (if insertedVersions v = None then
                    let w = initInsertionVersionArray v in
                    w\<lparr>insertedVersions :=
                        map_option (\<lambda>a. fill_range a 0 startRow (sameInsertionVersion w))
                          (insertedVersions w),
                      sameInsertionVersion := INVALID_TRANSACTION\<rparr>
                  else v)
        in v1\<lparr>insertedVersions :=
                map_option (\<lambda>a. fill_range a startRow numRows transactionID)
                  (insertedVersions v1)\<rparr>)"

text \<open>\<^verbatim>\<open>delete_\<close> returns whether the row was newly deleted, or throws on a write-write conflict.\<close>

definition WW_CONFLICT_DELETE :: string where
  "WW_CONFLICT_DELETE =
     ''Write-write conflict: deleting a row that is already deleted by another transaction.''"

definition VectorVersionInfo_delete ::
  "transaction_t \<Rightarrow> row_idx_t \<Rightarrow> VectorVersionInfo \<Rightarrow> (bool \<times> VectorVersionInfo) result" where
  "VectorVersionInfo_delete transactionID rowIdx v0 =
     (let v = v0\<lparr>deletionStatus := DEL_CHECK_VERSION\<rparr> in
      if transactionID = sameDeletionVersion v then Inr (False, v)
      else if isSameDeletionVersion v then Inl (RuntimeException WW_CONFLICT_DELETE)
      else
        let v1 = (if deletedVersions v = None then initDeletionVersionArray v else v) in
        case deletedVersions v1 of
          None \<Rightarrow> Inl NullPointer
        | Some a \<Rightarrow>
            if a ! rowIdx = transactionID then Inr (False, v1)
            else if a ! rowIdx \<noteq> INVALID_TRANSACTION then
              Inl (RuntimeException WW_CONFLICT_DELETE)
            else Inr (True, v1\<lparr>deletedVersions := Some (a[rowIdx := transactionID])\<rparr>))"

definition setInsertCommitTS ::
  "transaction_t \<Rightarrow> row_idx_t \<Rightarrow> row_idx_t \<Rightarrow> VectorVersionInfo \<Rightarrow> VectorVersionInfo result" where
  "setInsertCommitTS commitTS startRow numRows v =
     (if isSameInsertionVersion v then Inr (v\<lparr>sameInsertionVersion := commitTS\<rparr>)
      else case insertedVersions v of
        None \<Rightarrow> Inl NullPointer
      | Some a \<Rightarrow> Inr (v\<lparr>insertedVersions := Some (fill_range a startRow numRows commitTS)\<rparr>))"

definition setDeleteCommitTS ::
  "transaction_t \<Rightarrow> row_idx_t \<Rightarrow> row_idx_t \<Rightarrow> VectorVersionInfo \<Rightarrow> VectorVersionInfo result" where
  "setDeleteCommitTS commitTS startRow numRows v =
     (if isSameDeletionVersion v then Inr (v\<lparr>sameDeletionVersion := commitTS\<rparr>)
      else case deletedVersions v of
        None \<Rightarrow> Inl NullPointer
      | Some a \<Rightarrow> Inr (v\<lparr>deletedVersions := Some (fill_range a startRow numRows commitTS)\<rparr>))"

definition VectorVersionInfo_isDeleted ::
  "transaction_t \<Rightarrow> transaction_t \<Rightarrow> row_idx_t \<Rightarrow> VectorVersionInfo \<Rightarrow> bool result" where
  "VectorVersionInfo_isDeleted startTS transactionID rowIdx v =
     (case deletionStatus v of
        NO_DELETED \<Rightarrow> Inr False
      | DEL_CHECK_VERSION \<Rightarrow>
          rbind (if isSameDeletionVersion v then Inr (sameDeletionVersion v)
                 else case deletedVersions v of None \<Rightarrow> Inl NullPointer | Some a \<Rightarrow> Inr (a ! rowIdx))
            (\<lambda>deletion. Inr (deletion = transactionID \<or> deletion \<le> startTS)))"

definition VectorVersionInfo_isInserted ::
  "transaction_t \<Rightarrow> transaction_t \<Rightarrow> row_idx_t \<Rightarrow> VectorVersionInfo \<Rightarrow> bool result" where
  "VectorVersionInfo_isInserted startTS transactionID rowIdx v =
     (case insertionStatus v of
        ALWAYS_INSERTED \<Rightarrow> Inr True
      | NO_INSERTED \<Rightarrow> Inr False
      | INS_CHECK_VERSION \<Rightarrow>
          rbind (if isSameInsertionVersion v then Inr (sameInsertionVersion v)
                 else case insertedVersions v of None \<Rightarrow> Inl NullPointer | Some a \<Rightarrow> Inr (a ! rowIdx))
            (\<lambda>insertion. Inr (insertion = transactionID \<or> insertion \<le> startTS)))"

definition VectorVersionInfo_getNumDeletions ::
  "transaction_t \<Rightarrow> transaction_t \<Rightarrow> row_idx_t \<Rightarrow> nat \<Rightarrow> VectorVersionInfo \<Rightarrow> nat result" where
  "VectorVersionInfo_getNumDeletions startTS transactionID startRow numRows v =
     (if deletionStatus v = NO_DELETED then Inr 0
      else foldM (\<lambda>i n. rbind (VectorVersionInfo_isDeleted startTS transactionID (startRow + i) v)
                          (\<lambda>d. Inr (n + (if d then 1 else 0))))
             [0..<numRows] 0)"

definition rollbackInsertions ::
  "row_idx_t \<Rightarrow> row_idx_t \<Rightarrow> VectorVersionInfo \<Rightarrow> VectorVersionInfo" where
  "rollbackInsertions startRowInVector numRows v =
     (let v1 =
        (if isSameInsertionVersion v then v\<lparr>sameInsertionVersion := INVALID_TRANSACTION\<rparr>
         else case insertedVersions v of
           None \<Rightarrow> v
         | Some a \<Rightarrow>
             let a' = fill_range a startRowInVector numRows INVALID_TRANSACTION;
                 hasAnyInsertions = list_ex (\<lambda>version. version \<noteq> INVALID_TRANSACTION) a'
             in v\<lparr>insertedVersions := (if hasAnyInsertions then Some a' else None)\<rparr>)
      in if insertedVersions v1 = None
         then v1\<lparr>insertionStatus := NO_INSERTED, deletionStatus := NO_DELETED\<rparr>
         else v1)"

definition rollbackDeletions ::
  "row_idx_t \<Rightarrow> row_idx_t \<Rightarrow> VectorVersionInfo \<Rightarrow> VectorVersionInfo" where
  "rollbackDeletions startRowInVector numRows v =
     (let v1 =
        (if isSameDeletionVersion v then v\<lparr>sameDeletionVersion := INVALID_TRANSACTION\<rparr>
         else case deletedVersions v of
           None \<Rightarrow> v
         | Some a \<Rightarrow>
             let a' = fill_range a startRowInVector numRows INVALID_TRANSACTION;
                 hasAnyDeletions = list_ex (\<lambda>version. version \<noteq> INVALID_TRANSACTION) a'
             in v\<lparr>deletedVersions := (if hasAnyDeletions then Some a' else None)\<rparr>)
      in if deletedVersions v1 = None then v1\<lparr>deletionStatus := NO_DELETED\<rparr> else v1)"

text \<open>\<^verbatim>\<open>hasDeletions(transaction)\<close> reads the array whenever there is no shared version, whatever the
  deletion status is.\<close>

definition VectorVersionInfo_hasDeletions ::
  "transaction_t \<Rightarrow> transaction_t \<Rightarrow> VectorVersionInfo \<Rightarrow> bool result" where
  "VectorVersionInfo_hasDeletions startTS transactionID v =
     (if isSameDeletionVersion v
      then Inr (sameDeletionVersion v \<le> startTS \<or> sameDeletionVersion v = transactionID)
      else case deletedVersions v of
        None \<Rightarrow> Inl NullPointer
      | Some a \<Rightarrow>
          rbind (foldM (\<lambda>i n. rbind (VectorVersionInfo_isDeleted startTS transactionID i v)
                              (\<lambda>d. Inr (n + (if d then 1 else (0::nat)))))
                   [0..<length a] 0)
            (\<lambda>numDeletions. Inr (numDeletions > 0)))"

definition getSelVectorForScan ::
  "transaction_t \<Rightarrow> transaction_t \<Rightarrow> row_idx_t \<Rightarrow> row_idx_t \<Rightarrow> nat \<Rightarrow> VectorVersionInfo \<Rightarrow>
   SelectionVector \<Rightarrow> SelectionVector result" where
  "getSelVectorForScan startTS transactionID startRow numRows startOutputPos v selVector =
     (let numSelected = selectedSize selVector in
      if deletionStatus v = NO_DELETED \<and> insertionStatus v = ALWAYS_INSERTED then
        (if isUnfiltered selVector
         then Inr (setSelSize (selectedSize selVector + numRows) selVector)
         else Inr (setToFiltered (numSelected + numRows)
                (selVector\<lparr>selectedPositionsBuffer :=
                   write_at (selectedPositionsBuffer selVector) numSelected
                     (map (\<lambda>i. startOutputPos + i) [0..<numRows])\<rparr>)))
      else if insertionStatus v \<noteq> NO_INSERTED then
        rbind (foldM (\<lambda>i (buf, n).
                 rbind (VectorVersionInfo_isInserted startTS transactionID (startRow + i) v) (\<lambda>ins.
                   if ins then
                     rbind (VectorVersionInfo_isDeleted startTS transactionID (startRow + i) v)
                       (\<lambda>del. if \<not> del then Inr (buf[n := startOutputPos + i], Suc n)
                              else Inr (buf, n))
                   else Inr (buf, n)))
               [0..<numRows] (selectedPositionsBuffer selVector, numSelected))
          (\<lambda>(buf, n). Inr (setToFiltered n (selVector\<lparr>selectedPositionsBuffer := buf\<rparr>)))
      else Inr selVector)"

subsection \<open>Abstraction: one insertion and one deletion version per row\<close>

text \<open>
  The version that inserted a row (0, older than every snapshot, when the row was checkpointed;
  invalid when there is none) and the version that deleted it (invalid when there is none). A
  transaction sees a version if it is its own identifier or not newer than its snapshot.
\<close>

definition ins_ver :: "VectorVersionInfo \<Rightarrow> row_idx_t \<Rightarrow> transaction_t" where
  "ins_ver v i =
     (case insertionStatus v of
        ALWAYS_INSERTED \<Rightarrow> 0
      | NO_INSERTED \<Rightarrow> INVALID_TRANSACTION
      | INS_CHECK_VERSION \<Rightarrow>
          if isSameInsertionVersion v then sameInsertionVersion v
          else case insertedVersions v of None \<Rightarrow> INVALID_TRANSACTION | Some a \<Rightarrow> a ! i)"

definition del_ver :: "VectorVersionInfo \<Rightarrow> row_idx_t \<Rightarrow> transaction_t" where
  "del_ver v i =
     (case deletionStatus v of
        NO_DELETED \<Rightarrow> INVALID_TRANSACTION
      | DEL_CHECK_VERSION \<Rightarrow>
          if isSameDeletionVersion v then sameDeletionVersion v
          else case deletedVersions v of None \<Rightarrow> INVALID_TRANSACTION | Some a \<Rightarrow> a ! i)"

definition sees :: "transaction_t \<Rightarrow> transaction_t \<Rightarrow> transaction_t \<Rightarrow> bool" where
  "sees startTS transactionID version \<longleftrightarrow> version = transactionID \<or> version \<le> startTS"

definition valid_reader :: "transaction_t \<Rightarrow> transaction_t \<Rightarrow> bool" where
  "valid_reader startTS transactionID \<longleftrightarrow>
     startTS \<noteq> INVALID_TRANSACTION \<and> transactionID \<noteq> INVALID_TRANSACTION"

lemma sees_INVALID [simp]:
  "valid_reader ts i \<Longrightarrow> \<not> sees ts i INVALID_TRANSACTION"
  by (auto simp: sees_def valid_reader_def)

lemma sees_0 [simp]: "sees ts i 0"
  by (simp add: sees_def)

text \<open>The deletion array itself, whatever the deletion status is.\<close>

definition raw_del :: "VectorVersionInfo \<Rightarrow> row_idx_t \<Rightarrow> transaction_t" where
  "raw_del v i = (case deletedVersions v of None \<Rightarrow> INVALID_TRANSACTION | Some a \<Rightarrow> a ! i)"

text \<open>The representation invariant of a vector. A vector is clean when an unset deletion status means
  that the array holds no deletion; in the middle of a rollback it may not be.\<close>

definition vvi_wf :: "VectorVersionInfo \<Rightarrow> bool" where
  "vvi_wf v \<longleftrightarrow>
     (\<forall>a. insertedVersions v = Some a \<longrightarrow> length a = DEFAULT_VECTOR_CAPACITY) \<and>
     (\<forall>a. deletedVersions v = Some a \<longrightarrow> length a = DEFAULT_VECTOR_CAPACITY) \<and>
     (insertionStatus v = INS_CHECK_VERSION \<longleftrightarrow>
        isSameInsertionVersion v \<or> insertedVersions v \<noteq> None) \<and>
     \<not> (isSameInsertionVersion v \<and> insertedVersions v \<noteq> None) \<and>
     \<not> isSameDeletionVersion v \<and>
     (deletionStatus v = DEL_CHECK_VERSION \<longrightarrow> deletedVersions v \<noteq> None)"

definition vvi_clean :: "VectorVersionInfo \<Rightarrow> bool" where
  "vvi_clean v \<longleftrightarrow> (deletionStatus v = NO_DELETED \<longrightarrow>
     (\<forall>i < DEFAULT_VECTOR_CAPACITY. raw_del v i = INVALID_TRANSACTION))"

lemmas same_defs = isSameInsertionVersion_def isSameDeletionVersion_def
lemmas ins_defs = same_defs initInsertionVersionArray_def ins_ver_def
lemmas del_defs = same_defs initDeletionVersionArray_def del_ver_def
lemmas vvi_defs = ins_defs del_defs

lemma vvi_wf_new [simp]: "vvi_wf new_VectorVersionInfo" "vvi_clean new_VectorVersionInfo"
  by (simp_all add: vvi_wf_def vvi_clean_def new_VectorVersionInfo_def raw_del_def same_defs)

lemma ver_new [simp]:
  "ins_ver new_VectorVersionInfo i = INVALID_TRANSACTION"
  "del_ver new_VectorVersionInfo i = INVALID_TRANSACTION"
  "raw_del new_VectorVersionInfo i = INVALID_TRANSACTION"
  by (simp_all add: new_VectorVersionInfo_def vvi_defs raw_del_def)

lemma del_ver_raw:
  "vvi_wf v \<Longrightarrow>
   del_ver v i = (if deletionStatus v = DEL_CHECK_VERSION then raw_del v i else INVALID_TRANSACTION)"
  by (cases "deletionStatus v") (auto simp: vvi_wf_def del_ver_def raw_del_def)

lemma del_ver_clean:
  "vvi_wf v \<Longrightarrow> vvi_clean v \<Longrightarrow> i < DEFAULT_VECTOR_CAPACITY \<Longrightarrow> del_ver v i = raw_del v i"
  by (cases "deletionStatus v") (auto simp: del_ver_raw vvi_clean_def)

text \<open>Insertion versions do not depend on the deletion fields, nor the converse.\<close>

lemma ins_ver_frame [simp]:
  "ins_ver (v\<lparr>deletedVersions := a\<rparr>) = ins_ver v"
  "ins_ver (v\<lparr>sameDeletionVersion := t\<rparr>) = ins_ver v"
  "ins_ver (v\<lparr>deletionStatus := st\<rparr>) = ins_ver v"
  by (rule ext, cases "insertionStatus v", simp_all add: ins_ver_def isSameInsertionVersion_def)+

lemma del_ver_frame [simp]:
  "del_ver (v\<lparr>insertedVersions := a\<rparr>) = del_ver v"
  "del_ver (v\<lparr>sameInsertionVersion := t\<rparr>) = del_ver v"
  "del_ver (v\<lparr>insertionStatus := st'\<rparr>) = del_ver v"
  by (rule ext, cases "deletionStatus v", simp_all add: del_ver_def isSameDeletionVersion_def)+

text \<open>The two visibility tests compute visibility of the abstract versions.\<close>

lemma isInserted_sees:
  assumes "vvi_wf v" "valid_reader ts i"
  shows "VectorVersionInfo_isInserted ts i r v = Inr (sees ts i (ins_ver v r))"
  using assms
  by (cases "insertionStatus v"; cases "insertedVersions v")
     (auto simp: VectorVersionInfo_isInserted_def ins_ver_def vvi_wf_def sees_def
        valid_reader_def)

lemma isDeleted_sees:
  assumes "vvi_wf v" "valid_reader ts i"
  shows "VectorVersionInfo_isDeleted ts i r v = Inr (sees ts i (del_ver v r))"
  using assms
  by (cases "deletionStatus v"; cases "deletedVersions v")
     (auto simp: VectorVersionInfo_isDeleted_def del_ver_def vvi_wf_def sees_def
        valid_reader_def)

subsection \<open>Effect of the operations on the versions\<close>

text \<open>Appending rows at the end of the rows a vector has: existing rows keep their version, the new
  rows get the appending transaction's.\<close>

lemma append_vvi_frame [simp]:
  "raw_del (VectorVersionInfo_append tx s n v) = raw_del v"
  "del_ver (VectorVersionInfo_append tx s n v) = del_ver v"
  "insertionStatus (VectorVersionInfo_append tx s n v) = INS_CHECK_VERSION"
  "deletionStatus (VectorVersionInfo_append tx s n v) = deletionStatus v"
  "deletedVersions (VectorVersionInfo_append tx s n v) = deletedVersions v"
  "sameDeletionVersion (VectorVersionInfo_append tx s n v) = sameDeletionVersion v"
  by (simp_all add: VectorVersionInfo_append_def initInsertionVersionArray_def Let_def
      raw_del_def fun_eq_iff)

lemma append_vvi_wf:
  assumes "vvi_wf v" "tx \<noteq> INVALID_TRANSACTION"
  shows "vvi_wf (VectorVersionInfo_append tx s n v)"
proof -
  let ?v = "VectorVersionInfo_append tx s n v"
  have "\<forall>a. insertedVersions ?v = Some a \<longrightarrow> length a = DEFAULT_VECTOR_CAPACITY"
    using assms(1)
    by (auto simp: vvi_wf_def VectorVersionInfo_append_def initInsertionVersionArray_def Let_def)
  moreover have "isSameInsertionVersion ?v \<longleftrightarrow> insertedVersions ?v = None"
    using assms
    by (auto simp: vvi_wf_def VectorVersionInfo_append_def initInsertionVersionArray_def
        isSameInsertionVersion_def Let_def)
  ultimately show ?thesis
    using assms(1) by (auto simp: vvi_wf_def isSameDeletionVersion_def)
qed

lemma append_vvi:
  assumes "vvi_wf v" "tx \<noteq> INVALID_TRANSACTION" "s + n \<le> DEFAULT_VECTOR_CAPACITY"
    and tail: "s = 0 \<or> insertionStatus v = INS_CHECK_VERSION"
  shows append_vvi_old: "i < s \<Longrightarrow> ins_ver (VectorVersionInfo_append tx s n v) i = ins_ver v i"
    and append_vvi_new:
      "s \<le> i \<Longrightarrow> i < s + n \<Longrightarrow> ins_ver (VectorVersionInfo_append tx s n v) i = tx"
  using assms
  by (auto simp: VectorVersionInfo_append_def vvi_wf_def ins_defs Let_def nth_fill_range
      split: option.splits)

text \<open>A vector shares one version after an append only if every row of it has that version.\<close>

lemma append_vvi_shared:
  assumes "vvi_wf v" "tx \<noteq> INVALID_TRANSACTION"
    and "isSameInsertionVersion (VectorVersionInfo_append tx s n v)"
  shows "ins_ver (VectorVersionInfo_append tx s n v) i = tx"
  using assms
  by (auto simp: VectorVersionInfo_append_def vvi_wf_def ins_defs Let_def split: if_splits)

text \<open>Committing an insertion: the rows of the range get the commit timestamp; if the vector has a
  shared version, so does every row of it.\<close>

lemma setInsertCommitTS_vvi:
  assumes "vvi_wf v" "insertionStatus v = INS_CHECK_VERSION" "c \<noteq> INVALID_TRANSACTION"
  shows "\<exists>v'. setInsertCommitTS c s n v = Inr v' \<and> vvi_wf v' \<and>
    (\<forall>i < DEFAULT_VECTOR_CAPACITY. ins_ver v' i =
       (if isSameInsertionVersion v \<or> (s \<le> i \<and> i < s + n) then c else ins_ver v i)) \<and>
    raw_del v' = raw_del v \<and> insertionStatus v' = INS_CHECK_VERSION \<and>
    deletionStatus v' = deletionStatus v \<and>
    isSameInsertionVersion v' = isSameInsertionVersion v"
  using assms
  by (cases "isSameInsertionVersion v"; cases "insertedVersions v")
     (simp_all add: setInsertCommitTS_def vvi_wf_def ins_defs nth_fill_range raw_del_def fun_eq_iff)

lemma setDeleteCommitTS_vvi:
  assumes "vvi_wf v" "deletionStatus v = DEL_CHECK_VERSION"
  shows "\<exists>v'. setDeleteCommitTS c s n v = Inr v' \<and> vvi_wf v' \<and>
    (\<forall>i < DEFAULT_VECTOR_CAPACITY.
       raw_del v' i = (if s \<le> i \<and> i < s + n then c else raw_del v i)) \<and>
    ins_ver v' = ins_ver v \<and> deletionStatus v' = DEL_CHECK_VERSION \<and>
    insertionStatus v' = insertionStatus v \<and>
    isSameInsertionVersion v' = isSameInsertionVersion v"
  using assms
  by (cases "deletedVersions v")
     (simp_all add: setDeleteCommitTS_def vvi_wf_def same_defs raw_del_def nth_fill_range)

text \<open>Rolling deletions back clears the range of the array; the deletion status is unset when the
  array holds no deletion any more.\<close>

lemma rollbackDeletions_vvi:
  assumes wf: "vvi_wf v"
  shows "vvi_wf (rollbackDeletions s n v) \<and>
    (\<forall>i < DEFAULT_VECTOR_CAPACITY. raw_del (rollbackDeletions s n v) i =
        (if s \<le> i \<and> i < s + n then INVALID_TRANSACTION else raw_del v i)) \<and>
    ins_ver (rollbackDeletions s n v) = ins_ver v \<and>
    insertionStatus (rollbackDeletions s n v) = insertionStatus v \<and>
    isSameInsertionVersion (rollbackDeletions s n v) = isSameInsertionVersion v \<and>
    ((\<exists>i < DEFAULT_VECTOR_CAPACITY. raw_del (rollbackDeletions s n v) i \<noteq> INVALID_TRANSACTION) \<longrightarrow>
      deletionStatus (rollbackDeletions s n v) = deletionStatus v)"
proof (cases "deletedVersions v")
  case None
  with wf have "deletionStatus v = NO_DELETED" "\<not> isSameDeletionVersion v"
    by (cases "deletionStatus v"; auto simp: vvi_wf_def)+
  with None have "rollbackDeletions s n v = v" by (simp add: rollbackDeletions_def)
  with wf None show ?thesis by (simp add: raw_del_def)
next
  case (Some a)
  with wf have len: "length a = DEFAULT_VECTOR_CAPACITY" and same: "\<not> isSameDeletionVersion v"
    by (auto simp: vvi_wf_def)
  let ?a = "fill_range a s n INVALID_TRANSACTION"
  let ?any = "\<exists>i < length a. \<not> (s \<le> i \<and> i < s + n) \<and> a ! i \<noteq> INVALID_TRANSACTION"
  show ?thesis
  proof (cases ?any)
    case True
    with Some same have rb: "rollbackDeletions s n v = v\<lparr>deletedVersions := Some ?a\<rparr>"
      by (simp add: rollbackDeletions_def list_ex_fill_range)
    from wf Some len show ?thesis
      unfolding rb by (simp add: vvi_wf_def same_defs raw_del_def nth_fill_range)
  next
    case False
    with Some same have rb: "rollbackDeletions s n v =
        v\<lparr>deletedVersions := None, deletionStatus := NO_DELETED\<rparr>"
      by (auto simp: rollbackDeletions_def list_ex_fill_range)
    have "raw_del v i = INVALID_TRANSACTION"
      if "i < DEFAULT_VECTOR_CAPACITY" "\<not> (s \<le> i \<and> i < s + n)" for i
      using False that len Some by (auto simp: raw_del_def)
    with wf show ?thesis
      unfolding rb by (simp add: vvi_wf_def same_defs raw_del_def)
  qed
qed

text \<open>Rolling insertions back clears the range, or the whole vector when it has a shared version.
  When no insertion is left, the deletion status is unset as well.\<close>

definition insertions_vanish :: "row_idx_t \<Rightarrow> row_idx_t \<Rightarrow> VectorVersionInfo \<Rightarrow> bool" where
  "insertions_vanish s n v \<longleftrightarrow> isSameInsertionVersion v \<or>
     (\<forall>i < DEFAULT_VECTOR_CAPACITY. s \<le> i \<and> i < s + n \<or> ins_ver v i = INVALID_TRANSACTION)"

lemma rollbackInsertions_vvi:
  assumes wf: "vvi_wf v" and chk: "insertionStatus v \<noteq> ALWAYS_INSERTED"
  shows "vvi_wf (rollbackInsertions s n v) \<and>
    (\<forall>i < DEFAULT_VECTOR_CAPACITY. ins_ver (rollbackInsertions s n v) i =
       (if isSameInsertionVersion v \<or> (s \<le> i \<and> i < s + n) then INVALID_TRANSACTION
        else ins_ver v i)) \<and>
    raw_del (rollbackInsertions s n v) = raw_del v \<and>
    (\<not> insertions_vanish s n v \<longrightarrow>
       deletionStatus (rollbackInsertions s n v) = deletionStatus v \<and>
       insertionStatus (rollbackInsertions s n v) = insertionStatus v) \<and>
    insertionStatus (rollbackInsertions s n v) \<noteq> ALWAYS_INSERTED \<and>
    \<not> isSameInsertionVersion (rollbackInsertions s n v)"
proof (cases "insertedVersions v")
  case None
  have "rollbackInsertions s n v = v\<lparr>sameInsertionVersion := INVALID_TRANSACTION,
      insertionStatus := NO_INSERTED, deletionStatus := NO_DELETED\<rparr>"
    using None by (auto simp: rollbackInsertions_def isSameInsertionVersion_def)
  moreover have "ins_ver v i = INVALID_TRANSACTION" if "\<not> isSameInsertionVersion v" for i
    using wf chk None that
    by (cases "insertionStatus v") (auto simp: vvi_wf_def ins_ver_def)
  ultimately show ?thesis
    using wf None
    by (auto simp: vvi_wf_def same_defs ins_ver_def raw_del_def fun_eq_iff insertions_vanish_def)
next
  case (Some a)
  with wf have len: "length a = DEFAULT_VECTOR_CAPACITY" and same: "\<not> isSameInsertionVersion v"
    and st: "insertionStatus v = INS_CHECK_VERSION"
    by (auto simp: vvi_wf_def)
  let ?a = "fill_range a s n INVALID_TRANSACTION"
  have ver: "ins_ver v i = a ! i" for i using st same Some by (simp add: ins_ver_def)
  have van: "insertions_vanish s n v \<longleftrightarrow> \<not> list_ex (\<lambda>x. x \<noteq> INVALID_TRANSACTION) ?a"
    using len same unfolding list_ex_fill_range by (auto simp: insertions_vanish_def ver)
  show ?thesis
  proof (cases "insertions_vanish s n v")
    case True
    with Some same van have rb: "rollbackInsertions s n v =
        v\<lparr>insertedVersions := None, insertionStatus := NO_INSERTED, deletionStatus := NO_DELETED\<rparr>"
      by (simp add: rollbackInsertions_def)
    have "ins_ver v i = INVALID_TRANSACTION"
      if "i < DEFAULT_VECTOR_CAPACITY" "\<not> (s \<le> i \<and> i < s + n)" for i
      using True same that by (auto simp: insertions_vanish_def)
    then show ?thesis
      using wf same True
      by (auto simp: rb vvi_wf_def same_defs ins_ver_def raw_del_def fun_eq_iff)
  next
    case False
    with Some same van have rb: "rollbackInsertions s n v = v\<lparr>insertedVersions := Some ?a\<rparr>"
      by (simp add: rollbackInsertions_def)
    show ?thesis
      using wf same False len st Some ver
      by (auto simp: rb vvi_wf_def same_defs ins_ver_def nth_fill_range raw_del_def fun_eq_iff)
  qed
qed

text \<open>Deleting a row: a fresh deletion is recorded, a repeated one is ignored, another transaction's
  is a write-write conflict.\<close>

lemma delete_vvi_fresh:
  assumes "vvi_wf v" "vvi_clean v" "r < DEFAULT_VECTOR_CAPACITY" "tx \<noteq> INVALID_TRANSACTION"
    and "del_ver v r = INVALID_TRANSACTION"
  shows "\<exists>v'. VectorVersionInfo_delete tx r v = Inr (True, v') \<and> vvi_wf v' \<and> vvi_clean v' \<and>
    (\<forall>i < DEFAULT_VECTOR_CAPACITY. raw_del v' i = (if i = r then tx else raw_del v i)) \<and>
    ins_ver v' = ins_ver v \<and> insertionStatus v' = insertionStatus v \<and>
    deletionStatus v' = DEL_CHECK_VERSION \<and>
    isSameInsertionVersion v' = isSameInsertionVersion v"
proof -
  have raw: "raw_del v r = INVALID_TRANSACTION" using assms del_ver_clean [of v r] by simp
  have same: "\<not> isSameDeletionVersion v" using assms(1) by (simp add: vvi_wf_def)
  show ?thesis
  proof (cases "deletedVersions v")
    case None
    with assms same show ?thesis
      by (auto simp: VectorVersionInfo_delete_def vvi_wf_def vvi_clean_def same_defs
          initDeletionVersionArray_def raw_del_def nth_list_update)
  next
    case (Some a)
    with assms same raw show ?thesis
      by (auto simp: VectorVersionInfo_delete_def vvi_wf_def vvi_clean_def same_defs
          raw_del_def nth_list_update)
  qed
qed

lemma delete_vvi_again:
  assumes "vvi_wf v" "tx \<noteq> INVALID_TRANSACTION" "del_ver v r = tx"
  shows "VectorVersionInfo_delete tx r v = Inr (False, v)"
  using assms
  by (cases "deletedVersions v"; cases "deletionStatus v")
     (auto simp: VectorVersionInfo_delete_def vvi_wf_def del_defs)

lemma delete_vvi_conflict:
  assumes "vvi_wf v" "del_ver v r \<noteq> tx" "del_ver v r \<noteq> INVALID_TRANSACTION"
    "tx \<noteq> INVALID_TRANSACTION"
  shows "VectorVersionInfo_delete tx r v = Inl (RuntimeException WW_CONFLICT_DELETE)"
  using assms
  by (cases "deletedVersions v"; cases "deletionStatus v")
     (auto simp: VectorVersionInfo_delete_def vvi_wf_def del_defs)

end
