(* ===== verification/Transaction.thy ===== *)
theory Transaction
  imports Kuzu_Prelude
begin

text \<open>
  Transactions and their undo buffers (\<^verbatim>\<open>src/src/include/transaction/transaction.h\<close>,
  \<^verbatim>\<open>src/src/transaction/transaction.cpp\<close>, \<^verbatim>\<open>src/src/include/storage/undo_buffer.h\<close> and the first part of
  \<^verbatim>\<open>src/src/storage/undo_buffer.cpp\<close>). An undo buffer is a list of memory buffers; a record is
  written behind the last one that fits, else into a new buffer. Commit reads the records in the
  order they were written, rollback in the opposite order. Pointers stored in records (to chunked
  node groups, catalog sets and entries, update infos) are addresses, natural numbers.
\<close>

subsection \<open>Undo records\<close>

record SequenceRollbackData =
  rd_usageCount :: nat
  rd_currVal :: int

datatype UndoRecord =
    CatalogEntryRecord (catalogSetAddr: nat) (catalogEntryAddr: nat)
  | SequenceEntryRecord nat SequenceRollbackData
  | VectorUpdateRecord nat idx_t nat
  | InsertInfoRecord nat row_idx_t row_idx_t
  | DeleteInfoRecord nat row_idx_t row_idx_t

text \<open>Sizes in bytes on a 64-bit target: the header is a 16-bit type and a 32-bit size.\<close>

definition UNDO_RECORD_HEADER_SIZE :: nat where
  "UNDO_RECORD_HEADER_SIZE = 8"

fun recordSize :: "UndoRecord \<Rightarrow> nat" where
  "recordSize (CatalogEntryRecord _ _) = 16"
| "recordSize (SequenceEntryRecord _ _) = 24"
| "recordSize (VectorUpdateRecord _ _ _) = 24"
| "recordSize (InsertInfoRecord _ _ _) = 24"
| "recordSize (DeleteInfoRecord _ _ _) = 24"

record UndoMemoryBuffer =
  umb_size :: nat
  currentPosition :: nat
  umb_records :: "UndoRecord list"

type_synonym UndoBuffer = "UndoMemoryBuffer list"

definition UNDO_MEMORY_BUFFER_SIZE :: nat where
  "UNDO_MEMORY_BUFFER_SIZE = 2 ^ 12"

definition new_UndoMemoryBuffer :: "nat \<Rightarrow> UndoMemoryBuffer" where
  "new_UndoMemoryBuffer n = \<lparr>umb_size = n, currentPosition = 0, umb_records = []\<rparr>"

definition canFit :: "nat \<Rightarrow> UndoMemoryBuffer \<Rightarrow> bool" where
  "canFit n b \<longleftrightarrow> currentPosition b + n \<le> umb_size b"

text \<open>The doubling loop that finds a capacity for a new buffer. It is only called with a positive
  capacity; from capacity 0 the C++ loop would not end.\<close>

function growCapacity :: "nat \<Rightarrow> nat \<Rightarrow> nat" where
  "growCapacity n capacity =
     (if n > capacity \<and> capacity > 0 then growCapacity n (capacity * 2) else capacity)"
  by pat_completeness auto
termination
  by (relation "measure (\<lambda>(n, capacity). n - capacity)") auto

declare growCapacity.simps [simp del]

lemma growCapacity_ge: "0 < c \<Longrightarrow> n \<le> growCapacity n c"
proof (induction n c rule: growCapacity.induct)
  case (1 n c)
  then show ?case by (subst growCapacity.simps) auto
qed

text \<open>\<^verbatim>\<open>createUndoRecord\<close> followed by writing the header and the record at the returned address.\<close>

definition createUndoRecord :: "UndoRecord \<Rightarrow> UndoBuffer \<Rightarrow> UndoBuffer" where
  "createUndoRecord rec memoryBuffers =
     (let n = UNDO_RECORD_HEADER_SIZE + recordSize rec;
          bufs = (if memoryBuffers = [] \<or> \<not> canFit n (last memoryBuffers)
                  then memoryBuffers @ [new_UndoMemoryBuffer (growCapacity n UNDO_MEMORY_BUFFER_SIZE)]
                  else memoryBuffers);
          b = last bufs
      in butlast bufs @
           [b\<lparr>currentPosition := currentPosition b + n, umb_records := umb_records b @ [rec]\<rparr>])"

definition createCatalogEntry :: "nat \<Rightarrow> nat \<Rightarrow> UndoBuffer \<Rightarrow> UndoBuffer" where
  "createCatalogEntry catalogSet catalogEntry =
     createUndoRecord (CatalogEntryRecord catalogSet catalogEntry)"

definition createSequenceChange :: "nat \<Rightarrow> SequenceRollbackData \<Rightarrow> UndoBuffer \<Rightarrow> UndoBuffer" where
  "createSequenceChange sequenceEntry data =
     createUndoRecord (SequenceEntryRecord sequenceEntry data)"

definition createInsertInfo :: "nat \<Rightarrow> row_idx_t \<Rightarrow> row_idx_t \<Rightarrow> UndoBuffer \<Rightarrow> UndoBuffer" where
  "createInsertInfo chunkedNodeGroup startRow numRows =
     createUndoRecord (InsertInfoRecord chunkedNodeGroup startRow numRows)"

definition createDeleteInfo :: "nat \<Rightarrow> row_idx_t \<Rightarrow> row_idx_t \<Rightarrow> UndoBuffer \<Rightarrow> UndoBuffer" where
  "createDeleteInfo chunkedNodeGroup startRow numRows =
     createUndoRecord (DeleteInfoRecord chunkedNodeGroup startRow numRows)"

definition createVectorUpdateInfo :: "nat \<Rightarrow> idx_t \<Rightarrow> nat \<Rightarrow> UndoBuffer \<Rightarrow> UndoBuffer" where
  "createVectorUpdateInfo updateInfo vectorIdx vectorUpdateInfo =
     createUndoRecord (VectorUpdateRecord updateInfo vectorIdx vectorUpdateInfo)"

definition getMemUsage :: "UndoBuffer \<Rightarrow> nat" where
  "getMemUsage memoryBuffers = sum_list (map umb_size memoryBuffers)"

text \<open>\<^verbatim>\<open>UndoBufferIterator\<close>. \<^verbatim>\<open>iterate\<close> walks every buffer from its start; \<^verbatim>\<open>reverseIterate\<close> takes the
  buffers from the last to the first, collects the entries of each and calls back from the last.
  The callback is a state transformer that may throw.\<close>

definition iterate :: "(UndoRecord \<Rightarrow> 's \<Rightarrow> 's result) \<Rightarrow> UndoBuffer \<Rightarrow> 's \<Rightarrow> 's result" where
  "iterate callback memoryBuffers = foldM (\<lambda>buf. foldM callback (umb_records buf)) memoryBuffers"

definition reverseIterate :: "(UndoRecord \<Rightarrow> 's \<Rightarrow> 's result) \<Rightarrow> UndoBuffer \<Rightarrow> 's \<Rightarrow> 's result" where
  "reverseIterate callback memoryBuffers =
     foldM (\<lambda>buf. let entries = umb_records buf in foldM callback (rev entries)) (rev memoryBuffers)"

text \<open>The records of a buffer in writing order.\<close>

definition undoRecords :: "UndoBuffer \<Rightarrow> UndoRecord list" where
  "undoRecords memoryBuffers = concat (map umb_records memoryBuffers)"

lemma undoRecords_Nil [simp]: "undoRecords [] = []"
  by (simp add: undoRecords_def)

lemma undoRecords_createUndoRecord [simp]:
  "undoRecords (createUndoRecord rec ub) = undoRecords ub @ [rec]"
proof (cases "ub = [] \<or> \<not> canFit (UNDO_RECORD_HEADER_SIZE + recordSize rec) (last ub)")
  case True
  then show ?thesis
    by (simp add: createUndoRecord_def undoRecords_def new_UndoMemoryBuffer_def Let_def)
next
  case False
  then have "undoRecords ub = concat (map umb_records (butlast ub)) @ umb_records (last ub)"
    by (cases ub rule: rev_cases) (simp_all add: undoRecords_def)
  with False show ?thesis by (simp add: createUndoRecord_def undoRecords_def Let_def)
qed

lemmas undoRecords_create [simp] =
  undoRecords_createUndoRecord [of "CatalogEntryRecord a b" for a b, folded createCatalogEntry_def]
  undoRecords_createUndoRecord [of "InsertInfoRecord a b c" for a b c, folded createInsertInfo_def]
  undoRecords_createUndoRecord [of "DeleteInfoRecord a b c" for a b c, folded createDeleteInfo_def]
  undoRecords_createUndoRecord [of "VectorUpdateRecord a b c" for a b c,
    folded createVectorUpdateInfo_def]
  undoRecords_createUndoRecord [of "SequenceEntryRecord a b" for a b,
    folded createSequenceChange_def]

lemma iterate_undoRecords: "iterate cb ub s = foldM cb (undoRecords ub) s"
proof (induction ub arbitrary: s)
  case Nil
  then show ?case by (simp add: iterate_def)
next
  case (Cons b ub)
  show ?case
    by (cases "foldM cb (umb_records b) s")
       (simp_all add: iterate_def undoRecords_def foldM_append Cons [unfolded iterate_def undoRecords_def])
qed

lemma reverseIterate_undoRecords: "reverseIterate cb ub s = foldM cb (rev (undoRecords ub)) s"
proof (induction ub arbitrary: s rule: rev_induct)
  case Nil
  then show ?case by (simp add: reverseIterate_def)
next
  case (snoc b ub)
  show ?case
    by (cases "foldM cb (rev (umb_records b)) s")
       (simp_all add: reverseIterate_def undoRecords_def foldM_append
          snoc [unfolded reverseIterate_def undoRecords_def Let_def])
qed

text \<open>Every record lies within its buffer: positions never pass the size of the buffer, and a buffer's
  position is the total size of the records written to it.\<close>

definition undo_wf :: "UndoBuffer \<Rightarrow> bool" where
  "undo_wf ub \<longleftrightarrow> (\<forall>b \<in> set ub. currentPosition b \<le> umb_size b \<and>
     currentPosition b = sum_list (map (\<lambda>r. UNDO_RECORD_HEADER_SIZE + recordSize r) (umb_records b)))"

lemma undo_wf_createUndoRecord: "undo_wf ub \<Longrightarrow> undo_wf (createUndoRecord rec ub)"
proof -
  assume wf: "undo_wf ub"
  let ?n = "UNDO_RECORD_HEADER_SIZE + recordSize rec"
  show ?thesis
  proof (cases "ub = [] \<or> \<not> canFit ?n (last ub)")
    case True
    have "?n \<le> growCapacity ?n UNDO_MEMORY_BUFFER_SIZE"
      by (rule growCapacity_ge) (simp add: UNDO_MEMORY_BUFFER_SIZE_def)
    with True wf show ?thesis
      by (auto simp: createUndoRecord_def undo_wf_def new_UndoMemoryBuffer_def Let_def)
  next
    case False
    with wf show ?thesis
      by (auto simp: createUndoRecord_def undo_wf_def canFit_def Let_def dest: in_set_butlastD)
  qed
qed

subsection \<open>Transactions\<close>

datatype TransactionType = READ_ONLY | WRITE | CHECKPOINT | DUMMY | RECOVERY

text \<open>The client context contributes the database path; what the transaction asks of it is whether
  the path is in memory. Local storage is a component of its own and only its memory estimate is
  read here.\<close>

record Transaction =
  tx_type :: TransactionType
  tx_ID :: transaction_t
  tx_startTS :: transaction_t
  tx_commitTS :: transaction_t
  undoBuffer :: UndoBuffer
  forceCheckpoint :: bool
  isInMemory :: bool
  localStorageMemUsage :: nat

definition DUMMY_TRANSACTION_ID :: transaction_t where "DUMMY_TRANSACTION_ID = 0"
definition DUMMY_START_TIMESTAMP :: transaction_t where "DUMMY_START_TIMESTAMP = 0"
definition START_TRANSACTION_ID :: transaction_t where "START_TRANSACTION_ID = 2 ^ 63"

definition new_Transaction ::
  "TransactionType \<Rightarrow> transaction_t \<Rightarrow> transaction_t \<Rightarrow> bool \<Rightarrow> Transaction" where
  "new_Transaction transactionType transactionID startTS inMemory =
     \<lparr>tx_type = transactionType, tx_ID = transactionID, tx_startTS = startTS,
      tx_commitTS = INVALID_TRANSACTION, undoBuffer = [], forceCheckpoint = False,
      isInMemory = inMemory, localStorageMemUsage = 0\<rparr>"

definition DUMMY_TRANSACTION :: Transaction where
  "DUMMY_TRANSACTION = new_Transaction DUMMY DUMMY_TRANSACTION_ID DUMMY_START_TIMESTAMP False"

definition DUMMY_CHECKPOINT_TRANSACTION :: Transaction where
  "DUMMY_CHECKPOINT_TRANSACTION =
     new_Transaction CHECKPOINT DUMMY_TRANSACTION_ID (START_TRANSACTION_ID - 1) False"

definition isReadOnly :: "Transaction \<Rightarrow> bool" where
  "isReadOnly t \<longleftrightarrow> tx_type t = READ_ONLY"

definition isWriteTransaction :: "Transaction \<Rightarrow> bool" where
  "isWriteTransaction t \<longleftrightarrow> tx_type t = WRITE"

definition isRecovery :: "Transaction \<Rightarrow> bool" where
  "isRecovery t \<longleftrightarrow> tx_type t = RECOVERY"

definition shouldAppendToUndoBuffer :: "Transaction \<Rightarrow> bool" where
  "shouldAppendToUndoBuffer t \<longleftrightarrow> tx_ID t > DUMMY_TRANSACTION_ID \<and> \<not> isReadOnly t"

definition shouldLogToWAL :: "Transaction \<Rightarrow> bool" where
  "shouldLogToWAL t \<longleftrightarrow> \<not> isRecovery t \<and> \<not> isInMemory t"

definition shouldForceCheckpoint :: "Transaction \<Rightarrow> bool" where
  "shouldForceCheckpoint t \<longleftrightarrow> \<not> isInMemory t \<and> forceCheckpoint t"

definition getEstimatedMemUsage :: "Transaction \<Rightarrow> nat" where
  "getEstimatedMemUsage t = localStorageMemUsage t + getMemUsage (undoBuffer t)"

definition pushInsertInfo :: "nat \<Rightarrow> row_idx_t \<Rightarrow> row_idx_t \<Rightarrow> Transaction \<Rightarrow> Transaction" where
  "pushInsertInfo chunkedNodeGroup startRow numRows t =
     t\<lparr>undoBuffer := createInsertInfo chunkedNodeGroup startRow numRows (undoBuffer t)\<rparr>"

definition pushDeleteInfo :: "nat \<Rightarrow> row_idx_t \<Rightarrow> row_idx_t \<Rightarrow> Transaction \<Rightarrow> Transaction" where
  "pushDeleteInfo chunkedNodeGroup startRow numRows t =
     t\<lparr>undoBuffer := createDeleteInfo chunkedNodeGroup startRow numRows (undoBuffer t)\<rparr>"

definition pushVectorUpdateInfo :: "nat \<Rightarrow> idx_t \<Rightarrow> nat \<Rightarrow> Transaction \<Rightarrow> Transaction" where
  "pushVectorUpdateInfo updateInfo vectorIdx vectorUpdateInfo t =
     t\<lparr>undoBuffer := createVectorUpdateInfo updateInfo vectorIdx vectorUpdateInfo (undoBuffer t)\<rparr>"

lemma push_frame [simp]:
  "tx_ID (pushInsertInfo a s n t) = tx_ID t" "tx_ID (pushDeleteInfo a s n t) = tx_ID t"
  "tx_type (pushInsertInfo a s n t) = tx_type t" "tx_type (pushDeleteInfo a s n t) = tx_type t"
  "tx_startTS (pushInsertInfo a s n t) = tx_startTS t"
  "tx_startTS (pushDeleteInfo a s n t) = tx_startTS t"
  by (simp_all add: pushInsertInfo_def pushDeleteInfo_def)

lemma push_records [simp]:
  "undoRecords (undoBuffer (pushInsertInfo a s n t)) =
     undoRecords (undoBuffer t) @ [InsertInfoRecord a s n]"
  "undoRecords (undoBuffer (pushDeleteInfo a s n t)) =
     undoRecords (undoBuffer t) @ [DeleteInfoRecord a s n]"
  by (simp_all add: pushInsertInfo_def pushDeleteInfo_def)

end
