(* ===== verification/Version_Info.thy ===== *)
theory Version_Info
  imports Vector_Version_Info Transaction
begin

text \<open>
  \<^verbatim>\<open>VersionInfo\<close> (\<^verbatim>\<open>src/src/storage/store/version_info.cpp\<close>, second half): the version information
  of a chunked node group, a growable vector of pointers to \<^verbatim>\<open>VectorVersionInfo\<close>. Operations on a
  row range cut it into one range per vector; the locale \<open>vector_range_op\<close> lifts the contract of a
  per-vector operation to the whole range.
\<close>

type_synonym VersionInfo = "VectorVersionInfo option list"

definition getVectorVersionInfo :: "idx_t \<Rightarrow> VersionInfo \<Rightarrow> VectorVersionInfo option" where
  "getVectorVersionInfo vectorIdx vectorsInfo =
     (if vectorIdx \<ge> length vectorsInfo then None else vectorsInfo ! vectorIdx)"

text \<open>\<^verbatim>\<open>getOrCreateVersionInfo\<close> returns a reference: here the vector it refers to and the grown list, in
  which the entry exists.\<close>

definition getOrCreateVersionInfo ::
  "idx_t \<Rightarrow> VersionInfo \<Rightarrow> VectorVersionInfo \<times> VersionInfo" where
  "getOrCreateVersionInfo vectorIdx vectorsInfo =
     (let vs = (if length vectorsInfo \<le> vectorIdx then resize (vectorIdx + 1) vectorsInfo
                else vectorsInfo)
      in case vs ! vectorIdx of
           None \<Rightarrow> (new_VectorVersionInfo, vs[vectorIdx := Some new_VectorVersionInfo])
         | Some v \<Rightarrow> (v, vs))"

text \<open>The loop shared by the operations on a row range: the vectors it touches, with the first row
  and the number of rows in each.\<close>

definition vector_ranges :: "row_idx_t \<Rightarrow> row_idx_t \<Rightarrow> (idx_t \<times> row_idx_t \<times> row_idx_t) list" where
  "vector_ranges startRow numRows =
     (let (startVectorIdx, startRowIdxInVector) =
            getQuotientRemainder startRow DEFAULT_VECTOR_CAPACITY;
          (endVectorIdx, endRowIdxInVector) =
            getQuotientRemainder (startRow + numRows - 1) DEFAULT_VECTOR_CAPACITY
      in map (\<lambda>vectorIdx.
           let startRowIdx = (if vectorIdx = startVectorIdx then startRowIdxInVector else 0);
               endRowIdx = (if vectorIdx = endVectorIdx then endRowIdxInVector
                            else DEFAULT_VECTOR_CAPACITY - 1)
           in (vectorIdx, startRowIdx, endRowIdx - startRowIdx + 1))
         [startVectorIdx..<endVectorIdx + 1])"

text \<open>One iteration: fetch the vector, apply the per-vector operation, store it back.\<close>

definition on_vector ::
  "(row_idx_t \<Rightarrow> row_idx_t \<Rightarrow> VectorVersionInfo \<Rightarrow> VectorVersionInfo result) \<Rightarrow>
   idx_t \<times> row_idx_t \<times> row_idx_t \<Rightarrow> VersionInfo \<Rightarrow> VersionInfo result" where
  "on_vector f = (\<lambda>(vectorIdx, startRowIdx, numRowsInVector) vectorsInfo.
     (let (v, vs) = getOrCreateVersionInfo vectorIdx vectorsInfo
      in rbind (f startRowIdx numRowsInVector v) (\<lambda>v'. Inr (vs[vectorIdx := Some v']))))"

definition VersionInfo_append ::
  "nat \<Rightarrow> row_idx_t \<Rightarrow> row_idx_t \<Rightarrow> Transaction \<times> VersionInfo \<Rightarrow> (Transaction \<times> VersionInfo) result"
where
  "VersionInfo_append chunkedNodeGroup startRow numRows = (\<lambda>(transaction, vectorsInfo).
     if numRows = 0 then Inr (transaction, vectorsInfo)
     else
       rbind (foldM (on_vector (\<lambda>s n v. Inr (VectorVersionInfo_append (tx_ID transaction) s n v)))
                (vector_ranges startRow numRows) vectorsInfo)
         (\<lambda>vs. if shouldAppendToUndoBuffer transaction
               then Inr (pushInsertInfo chunkedNodeGroup startRow numRows transaction, vs)
               else Inr (transaction, vs)))"

text \<open>\<^verbatim>\<open>delete_\<close>: a vector that is created here holds checkpointed rows only. The undo record is pushed
  only for a row that was not deleted before.\<close>

definition VersionInfo_delete ::
  "nat \<Rightarrow> row_idx_t \<Rightarrow> Transaction \<times> VersionInfo \<Rightarrow> (bool \<times> Transaction \<times> VersionInfo) result"
where
  "VersionInfo_delete chunkedNodeGroup rowIdx = (\<lambda>(transaction, vectorsInfo).
     let (vectorIdx, rowIdxInVector) = getQuotientRemainder rowIdx DEFAULT_VECTOR_CAPACITY;
         (v0, vs) = getOrCreateVersionInfo vectorIdx vectorsInfo;
         v = (if insertionStatus v0 = NO_INSERTED then v0\<lparr>insertionStatus := ALWAYS_INSERTED\<rparr> else v0)
     in rbind (VectorVersionInfo_delete (tx_ID transaction) rowIdxInVector v)
          (\<lambda>(deleted, v').
             let vs' = vs[vectorIdx := Some v'] in
             if deleted \<and> shouldAppendToUndoBuffer transaction
             then Inr (deleted, pushDeleteInfo chunkedNodeGroup rowIdx 1 transaction, vs')
             else Inr (deleted, transaction, vs')))"

definition VersionInfo_commitInsert ::
  "row_idx_t \<Rightarrow> row_idx_t \<Rightarrow> transaction_t \<Rightarrow> VersionInfo \<Rightarrow> VersionInfo result" where
  "VersionInfo_commitInsert startRow numRows commitTS vectorsInfo =
     (if numRows = 0 then Inr vectorsInfo
      else foldM (on_vector (setInsertCommitTS commitTS)) (vector_ranges startRow numRows)
             vectorsInfo)"

definition VersionInfo_rollbackInsert ::
  "row_idx_t \<Rightarrow> row_idx_t \<Rightarrow> VersionInfo \<Rightarrow> VersionInfo result" where
  "VersionInfo_rollbackInsert startRow numRows vectorsInfo =
     (if numRows = 0 then Inr vectorsInfo
      else foldM (on_vector (\<lambda>s n v. Inr (rollbackInsertions s n v)))
             (vector_ranges startRow numRows) vectorsInfo)"

definition VersionInfo_commitDelete ::
  "row_idx_t \<Rightarrow> row_idx_t \<Rightarrow> transaction_t \<Rightarrow> VersionInfo \<Rightarrow> VersionInfo result" where
  "VersionInfo_commitDelete startRow numRows commitTS vectorsInfo =
     (if numRows = 0 then Inr vectorsInfo
      else foldM (on_vector (setDeleteCommitTS commitTS)) (vector_ranges startRow numRows)
             vectorsInfo)"

definition VersionInfo_rollbackDelete ::
  "row_idx_t \<Rightarrow> row_idx_t \<Rightarrow> VersionInfo \<Rightarrow> VersionInfo result" where
  "VersionInfo_rollbackDelete startRow numRows vectorsInfo =
     (if numRows = 0 then Inr vectorsInfo
      else foldM (on_vector (\<lambda>s n v. Inr (rollbackDeletions s n v)))
             (vector_ranges startRow numRows) vectorsInfo)"

definition VersionInfo_isDeleted ::
  "transaction_t \<Rightarrow> transaction_t \<Rightarrow> row_idx_t \<Rightarrow> VersionInfo \<Rightarrow> bool result" where
  "VersionInfo_isDeleted startTS transactionID rowInChunk vectorsInfo =
     (let (vectorIdx, rowInVector) = getQuotientRemainder rowInChunk DEFAULT_VECTOR_CAPACITY
      in case getVectorVersionInfo vectorIdx vectorsInfo of
           Some v \<Rightarrow> VectorVersionInfo_isDeleted startTS transactionID rowInVector v
         | None \<Rightarrow> Inr False)"

definition VersionInfo_isInserted ::
  "transaction_t \<Rightarrow> transaction_t \<Rightarrow> row_idx_t \<Rightarrow> VersionInfo \<Rightarrow> bool result" where
  "VersionInfo_isInserted startTS transactionID rowInChunk vectorsInfo =
     (let (vectorIdx, rowInVector) = getQuotientRemainder rowInChunk DEFAULT_VECTOR_CAPACITY
      in case getVectorVersionInfo vectorIdx vectorsInfo of
           Some v \<Rightarrow> VectorVersionInfo_isInserted startTS transactionID rowInVector v
         | None \<Rightarrow> Inr True)"

definition clearVectorInfo :: "idx_t \<Rightarrow> VersionInfo \<Rightarrow> VersionInfo" where
  "clearVectorInfo vectorIdx vectorsInfo = vectorsInfo[vectorIdx := None]"

definition VersionInfo_hasAnyDeletions :: "VersionInfo \<Rightarrow> bool" where
  "VersionInfo_hasAnyDeletions vectorsInfo =
     list_ex (\<lambda>vi. case vi of None \<Rightarrow> False | Some v \<Rightarrow> deletionStatus v = DEL_CHECK_VERSION)
       vectorsInfo"

definition VersionInfo_hasInsertions :: "VersionInfo \<Rightarrow> bool" where
  "VersionInfo_hasInsertions vectorsInfo =
     list_ex (\<lambda>vi. case vi of None \<Rightarrow> False | Some v \<Rightarrow> insertionStatus v = INS_CHECK_VERSION)
       vectorsInfo"

text \<open>\<^verbatim>\<open>hasDeletions(transaction)\<close> stops at the first vector with a visible deletion.\<close>

fun VersionInfo_hasDeletions :: "transaction_t \<Rightarrow> transaction_t \<Rightarrow> VersionInfo \<Rightarrow> bool result" where
  "VersionInfo_hasDeletions startTS transactionID [] = Inr False"
| "VersionInfo_hasDeletions startTS transactionID (None # vs) =
     VersionInfo_hasDeletions startTS transactionID vs"
| "VersionInfo_hasDeletions startTS transactionID (Some v # vs) =
     rbind (VectorVersionInfo_hasDeletions startTS transactionID v)
       (\<lambda>d. if d then Inr True else VersionInfo_hasDeletions startTS transactionID vs)"

definition VersionInfo_getNumDeletions ::
  "transaction_t \<Rightarrow> transaction_t \<Rightarrow> row_idx_t \<Rightarrow> nat \<Rightarrow> VersionInfo \<Rightarrow> nat result" where
  "VersionInfo_getNumDeletions startTS transactionID startRow numRows vectorsInfo =
     (if numRows = 0 then Inr 0
      else
        let (startVector, startRowInVector) =
              getQuotientRemainder startRow DEFAULT_VECTOR_CAPACITY;
            (endVectorIdx, endRowInVector) =
              getQuotientRemainder (startRow + numRows - 1) DEFAULT_VECTOR_CAPACITY
        in foldM (\<lambda>vectorIdx numDeletions.
             let rowInVector = (if vectorIdx = startVector then startRowInVector else 0);
                 numRowsInVector = (if vectorIdx = endVectorIdx
                                    then endRowInVector - rowInVector + 1
                                    else DEFAULT_VECTOR_CAPACITY - rowInVector)
             in case getVectorVersionInfo vectorIdx vectorsInfo of
                  None \<Rightarrow> Inr numDeletions
                | Some v \<Rightarrow>
                    rbind (VectorVersionInfo_getNumDeletions startTS transactionID rowInVector
                             numRowsInVector v)
                      (\<lambda>d. Inr (numDeletions + d)))
             [startVector..<endVectorIdx + 1] 0)"

text \<open>\<^verbatim>\<open>getSelVectorToScan\<close>: the loop carries the output position of the next vector's rows.\<close>

definition getSelVectorToScan ::
  "transaction_t \<Rightarrow> transaction_t \<Rightarrow> row_idx_t \<Rightarrow> row_idx_t \<Rightarrow> VersionInfo \<Rightarrow>
   SelectionVector \<Rightarrow> SelectionVector result" where
  "getSelVectorToScan startTS transactionID startRow numRows vectorsInfo selVector =
     (if numRows = 0 then Inr selVector
      else rbind (foldM (\<lambda>(vectorIdx, startRowIdx, numRowsInVector) (sv, outputPos).
               rbind (case getVectorVersionInfo vectorIdx vectorsInfo of
                        None \<Rightarrow>
                          let numSelected = selectedSize sv in
                          if isUnfiltered sv then Inr (setSelSize (numSelected + numRowsInVector) sv)
                          else Inr (setToFiltered (numSelected + numRowsInVector)
                                 (sv\<lparr>selectedPositionsBuffer :=
                                    write_at (selectedPositionsBuffer sv) numSelected
                                      (map (\<lambda>i. outputPos + i) [0..<numRowsInVector])\<rparr>))
                      | Some v \<Rightarrow> getSelVectorForScan startTS transactionID startRowIdx
                                   numRowsInVector outputPos v sv)
                 (\<lambda>sv'. Inr (sv', outputPos + numRowsInVector)))
             (vector_ranges startRow numRows) (setToUnfiltered 0 selVector, 0))
           (\<lambda>(sv, _). Inr sv))"

subsection \<open>Row ranges\<close>

text \<open>Comparing rows is comparing their vectors first, then their positions.\<close>

lemma row_le_iff:
  assumes "i < (C::nat)" "j < C"
  shows "k * C + i \<le> q * C + j \<longleftrightarrow> k < q \<or> (k = q \<and> i \<le> j)"
proof -
  consider "k < q" | "k = q" | "q < k" by linarith
  then show ?thesis
  proof cases
    case 1
    then have "(k + 1) * C \<le> q * C" by (intro mult_le_mono1) simp
    with assms 1 show ?thesis by simp
  next
    case 3
    then have "(q + 1) * C \<le> k * C" by (intro mult_le_mono1) simp
    with assms 3 show ?thesis by simp
  qed simp
qed

lemma vector_ranges_distinct: "distinct (map fst (vector_ranges s n))"
  by (simp add: vector_ranges_def getQuotientRemainder_def Let_def comp_def)

lemma vector_ranges_mem:
  assumes "(k, a, m) \<in> set (vector_ranges s n)" "0 < n"
  shows "0 < m" "a + m \<le> DEFAULT_VECTOR_CAPACITY"
    and "i < DEFAULT_VECTOR_CAPACITY \<Longrightarrow>
      (a \<le> i \<and> i < a + m) \<longleftrightarrow> (s \<le> k * DEFAULT_VECTOR_CAPACITY + i \<and>
         k * DEFAULT_VECTOR_CAPACITY + i < s + n)"
    and "i < DEFAULT_VECTOR_CAPACITY \<Longrightarrow> a \<le> i \<longleftrightarrow> s \<le> k * DEFAULT_VECTOR_CAPACITY + i"
    and "a \<noteq> 0 \<Longrightarrow> k = s div DEFAULT_VECTOR_CAPACITY \<and> a = s mod DEFAULT_VECTOR_CAPACITY"
proof -
  let ?C = DEFAULT_VECTOR_CAPACITY
  let ?e = "s + n - 1"
  have mod: "s mod ?C < ?C" "?e mod ?C < ?C" by simp_all
  from assms(1) have k: "s div ?C \<le> k" "k \<le> ?e div ?C"
    and a: "a = (if k = s div ?C then s mod ?C else 0)"
    and m: "m = (if k = ?e div ?C then ?e mod ?C else ?C - 1) - a + 1"
    by (auto simp: vector_ranges_def getQuotientRemainder_def Let_def)
  have se: "s \<le> ?e" using assms(2) by simp
  have lo: "s \<le> k * ?C + i \<longleftrightarrow> a \<le> i" if "i < ?C" for i
    using row_le_iff [OF mod(1) that, of "s div ?C" k] k(1) a by auto
  have hi: "k * ?C + i < s + n \<longleftrightarrow> i \<le> (if k = ?e div ?C then ?e mod ?C else ?C - 1)"
    if "i < ?C" for i
  proof -
    have "k * ?C + i < s + n \<longleftrightarrow> k * ?C + i \<le> ?e" using assms(2) by auto
    then show ?thesis using row_le_iff [OF that mod(2), of k "?e div ?C"] k(2) that by auto
  qed
  have aC: "a < ?C" using mod(1) by (auto simp: a)
  have le: "a \<le> (if k = ?e div ?C then ?e mod ?C else ?C - 1)"
  proof (cases "k = s div ?C \<and> k = ?e div ?C")
    case True
    with row_le_iff [OF mod, of k k] se show ?thesis by (auto simp: a)
  next
    case False
    have "a \<le> ?C - 1" using aC by linarith
    with False show ?thesis by (cases "k = ?e div ?C") (auto simp: a)
  qed
  show "0 < m" using m by simp
  have "(if k = ?e div ?C then ?e mod ?C else ?C - 1) < ?C" by simp
  with le m show "a + m \<le> ?C" by linarith
  show "(a \<le> i \<and> i < a + m) \<longleftrightarrow> (s \<le> k * ?C + i \<and> k * ?C + i < s + n)" if "i < ?C"
  proof -
    have "i < a + m \<longleftrightarrow> i \<le> (if k = ?e div ?C then ?e mod ?C else ?C - 1)"
      using le m by linarith
    with lo [OF that] hi [OF that] show ?thesis by simp
  qed
  show "a \<le> i \<longleftrightarrow> s \<le> k * ?C + i" if "i < ?C" using lo [OF that] by simp
  show "a \<noteq> 0 \<Longrightarrow> k = s div ?C \<and> a = s mod ?C" by (auto simp: a split: if_splits)
qed

lemma vector_ranges_cover:
  assumes "0 < n" "s \<le> r" "r < s + n"
  shows "\<exists>a m. (r div DEFAULT_VECTOR_CAPACITY, a, m) \<in> set (vector_ranges s n) \<and>
    a \<le> r mod DEFAULT_VECTOR_CAPACITY \<and> r mod DEFAULT_VECTOR_CAPACITY < a + m"
proof -
  let ?C = DEFAULT_VECTOR_CAPACITY
  have "s div ?C \<le> r div ?C" "r div ?C \<le> (s + n - 1) div ?C"
    using assms by (auto intro: div_le_mono)
  then have "r div ?C \<in> fst ` set (vector_ranges s n)"
    by (force simp: vector_ranges_def getQuotientRemainder_def Let_def image_iff)
  then obtain a m where am: "(r div ?C, a, m) \<in> set (vector_ranges s n)" by auto
  have "r div ?C * ?C + r mod ?C = r" by (rule div_mult_mod_eq)
  with vector_ranges_mem(3) [OF am assms(1), of "r mod ?C"] assms am show ?thesis by auto
qed

subsection \<open>Lifting a per-vector operation to a row range\<close>

definition vec_or_new :: "idx_t \<Rightarrow> VersionInfo \<Rightarrow> VectorVersionInfo" where
  "vec_or_new k vs = (case getVectorVersionInfo k vs of None \<Rightarrow> new_VectorVersionInfo | Some v \<Rightarrow> v)"

lemma getOrCreate_lookup:
  assumes "getOrCreateVersionInfo k vs = (v, vs')"
  shows "v = vec_or_new k vs" "k < length vs'"
    "getVectorVersionInfo j (vs'[k := Some w]) = (if j = k then Some w else getVectorVersionInfo j vs)"
  using assms
  by (auto simp: getOrCreateVersionInfo_def vec_or_new_def getVectorVersionInfo_def Let_def
      nth_resize nth_list_update split: if_splits option.splits)

lemma on_vector_Inr:
  assumes "f s n (vec_or_new k vs) = Inr v'"
  shows "\<exists>vs'. on_vector f (k, s, n) vs = Inr vs' \<and>
    (\<forall>j. getVectorVersionInfo j vs' = (if j = k then Some v' else getVectorVersionInfo j vs))"
proof -
  obtain v ws where c: "getOrCreateVersionInfo k vs = (v, ws)" by force
  from getOrCreate_lookup(1) [OF c] assms
  have "on_vector f (k, s, n) vs = Inr (ws[k := Some v'])"
    by (simp add: on_vector_def c)
  with getOrCreate_lookup(3) [OF c] show ?thesis by blast
qed

text \<open>
  The contract of an operation on a row range of one vector: under its precondition it does not throw
  and establishes its postcondition. Every operation that takes a row range promises this to
  \<^verbatim>\<open>VersionInfo\<close>, whose loop then establishes the postcondition in each vector it touches.
\<close>

locale vector_range_op =
  fixes op :: "row_idx_t \<Rightarrow> row_idx_t \<Rightarrow> VectorVersionInfo \<Rightarrow> VectorVersionInfo result"
    and pre :: "row_idx_t \<Rightarrow> row_idx_t \<Rightarrow> VectorVersionInfo \<Rightarrow> bool"
    and post :: "row_idx_t \<Rightarrow> row_idx_t \<Rightarrow> VectorVersionInfo \<Rightarrow> VectorVersionInfo \<Rightarrow> bool"
  assumes op_contract: "pre s n v \<Longrightarrow> 0 < n \<Longrightarrow> s + n \<le> DEFAULT_VECTOR_CAPACITY \<Longrightarrow>
    \<exists>v'. op s n v = Inr v' \<and> post s n v v'"
begin

lemma foldM_vectors:
  assumes "distinct (map fst rs)"
    and "\<And>k s n. (k, s, n) \<in> set rs \<Longrightarrow> 0 < n \<and> s + n \<le> DEFAULT_VECTOR_CAPACITY"
    and "\<And>k s n. (k, s, n) \<in> set rs \<Longrightarrow> pre s n (vec_or_new k vs)"
  shows "\<exists>vs'. foldM (on_vector op) rs vs = Inr vs' \<and>
    (\<forall>k s n. (k, s, n) \<in> set rs \<longrightarrow>
       (\<exists>v'. getVectorVersionInfo k vs' = Some v' \<and> post s n (vec_or_new k vs) v')) \<and>
    (\<forall>k. k \<notin> fst ` set rs \<longrightarrow> getVectorVersionInfo k vs' = getVectorVersionInfo k vs)"
  using assms
proof (induction rs arbitrary: vs)
  case Nil
  then show ?case by simp
next
  case (Cons x rs)
  obtain k s n where x: "x = (k, s, n)" by (cases x)
  have sn: "0 < n" "s + n \<le> DEFAULT_VECTOR_CAPACITY" "pre s n (vec_or_new k vs)"
    using Cons.prems(2,3) [of k s n] by (simp_all add: x)
  from op_contract [OF sn(3,1,2)] obtain v'
    where v': "op s n (vec_or_new k vs) = Inr v'" and p: "post s n (vec_or_new k vs) v'" by blast
  from on_vector_Inr [of op s n k vs, OF v'] obtain vs1
    where vs1: "on_vector op x vs = Inr vs1"
      and look: "\<And>j. getVectorVersionInfo j vs1 =
        (if j = k then Some v' else getVectorVersionInfo j vs)" by (auto simp: x)
  have notk: "j \<noteq> k" if "(j, a, m) \<in> set rs" for j a m
    using Cons.prems(1) that by (force simp: x)
  then have same: "vec_or_new j vs1 = vec_or_new j vs" if "(j, a, m) \<in> set rs" for j a m
    using that look [of j] by (auto simp: vec_or_new_def)
  have "\<exists>vs'. foldM (on_vector op) rs vs1 = Inr vs' \<and>
    (\<forall>k s n. (k, s, n) \<in> set rs \<longrightarrow>
       (\<exists>v'. getVectorVersionInfo k vs' = Some v' \<and> post s n (vec_or_new k vs1) v')) \<and>
    (\<forall>k. k \<notin> fst ` set rs \<longrightarrow> getVectorVersionInfo k vs' = getVectorVersionInfo k vs1)"
  proof (rule Cons.IH)
    show "pre s n (vec_or_new k vs1)" if "(k, s, n) \<in> set rs" for k s n
      using Cons.prems(3) [of k s n] same [OF that] that by simp
  qed (use Cons.prems in auto)
  then obtain vs2 where vs2: "foldM (on_vector op) rs vs1 = Inr vs2"
    and in_rs: "\<And>j a m. (j, a, m) \<in> set rs \<Longrightarrow>
       \<exists>v'. getVectorVersionInfo j vs2 = Some v' \<and> post a m (vec_or_new j vs) v'"
    and out: "\<And>j. j \<notin> fst ` set rs \<Longrightarrow> getVectorVersionInfo j vs2 = getVectorVersionInfo j vs1"
    using same by fastforce
  have "k \<notin> fst ` set rs" using Cons.prems(1) by (auto simp: x)
  then have "getVectorVersionInfo k vs2 = Some v'" using out look by simp
  with p vs1 vs2 in_rs out look show ?case by (fastforce simp: x)
qed

text \<open>For a row range: the vector of a row either is untouched, and then the row is not in the range,
  or it meets the postcondition for the positions of the range it holds.\<close>

lemma range_op:
  assumes "0 < n"
    and "\<forall>k a m. (k, a, m) \<in> set (vector_ranges s n) \<longrightarrow> pre a m (vec_or_new k vs)"
  shows "\<exists>vs'. foldM (on_vector op) (vector_ranges s n) vs = Inr vs' \<and>
    (\<forall>k. (\<exists>a m v'. (k, a, m) \<in> set (vector_ranges s n) \<and> getVectorVersionInfo k vs' = Some v' \<and>
             post a m (vec_or_new k vs) v') \<or>
          k \<notin> fst ` set (vector_ranges s n) \<and> getVectorVersionInfo k vs' = getVectorVersionInfo k vs)"
proof -
  have "\<exists>vs'. foldM (on_vector op) (vector_ranges s n) vs = Inr vs' \<and>
    (\<forall>k a m. (k, a, m) \<in> set (vector_ranges s n) \<longrightarrow>
       (\<exists>v'. getVectorVersionInfo k vs' = Some v' \<and> post a m (vec_or_new k vs) v')) \<and>
    (\<forall>k. k \<notin> fst ` set (vector_ranges s n) \<longrightarrow>
       getVectorVersionInfo k vs' = getVectorVersionInfo k vs)"
  proof (rule foldM_vectors)
    show "distinct (map fst (vector_ranges s n))" by (rule vector_ranges_distinct)
    show "0 < m \<and> a + m \<le> DEFAULT_VECTOR_CAPACITY" if "(k, a, m) \<in> set (vector_ranges s n)" for k a m
      using vector_ranges_mem(1,2) [OF that assms(1)] by simp
    show "pre a m (vec_or_new k vs)" if "(k, a, m) \<in> set (vector_ranges s n)" for k a m
      using that assms(2) by blast
  qed
  then obtain vs' where run: "foldM (on_vector op) (vector_ranges s n) vs = Inr vs'"
    and ins: "\<And>k a m. (k, a, m) \<in> set (vector_ranges s n) \<Longrightarrow>
       \<exists>v'. getVectorVersionInfo k vs' = Some v' \<and> post a m (vec_or_new k vs) v'"
    and out: "\<And>k. k \<notin> fst ` set (vector_ranges s n) \<Longrightarrow>
       getVectorVersionInfo k vs' = getVectorVersionInfo k vs" by blast
  show ?thesis
  proof (intro exI conjI allI, rule run)
    fix k
    show "(\<exists>a m v'. (k, a, m) \<in> set (vector_ranges s n) \<and> getVectorVersionInfo k vs' = Some v' \<and>
             post a m (vec_or_new k vs) v') \<or>
          k \<notin> fst ` set (vector_ranges s n) \<and> getVectorVersionInfo k vs' = getVectorVersionInfo k vs"
    proof (cases "k \<in> fst ` set (vector_ranges s n)")
      case True
      then obtain a m where "(k, a, m) \<in> set (vector_ranges s n)" by auto
      with ins show ?thesis by blast
    next
      case False
      with out show ?thesis by blast
    qed
  qed
qed

end

subsection \<open>Versions of the rows of a chunk\<close>

definition row_ins :: "VersionInfo \<Rightarrow> row_idx_t \<Rightarrow> transaction_t" where
  "row_ins vs r = (case getVectorVersionInfo (r div DEFAULT_VECTOR_CAPACITY) vs of
     None \<Rightarrow> 0 | Some v \<Rightarrow> ins_ver v (r mod DEFAULT_VECTOR_CAPACITY))"

definition row_del :: "VersionInfo \<Rightarrow> row_idx_t \<Rightarrow> transaction_t" where
  "row_del vs r = (case getVectorVersionInfo (r div DEFAULT_VECTOR_CAPACITY) vs of
     None \<Rightarrow> INVALID_TRANSACTION | Some v \<Rightarrow> del_ver v (r mod DEFAULT_VECTOR_CAPACITY))"

definition row_raw :: "VersionInfo \<Rightarrow> row_idx_t \<Rightarrow> transaction_t" where
  "row_raw vs r = (case getVectorVersionInfo (r div DEFAULT_VECTOR_CAPACITY) vs of
     None \<Rightarrow> INVALID_TRANSACTION | Some v \<Rightarrow> raw_del v (r mod DEFAULT_VECTOR_CAPACITY))"

definition row_status :: "VersionInfo \<Rightarrow> row_idx_t \<Rightarrow> InsertionStatus" where
  "row_status vs r = (case getVectorVersionInfo (r div DEFAULT_VECTOR_CAPACITY) vs of
     None \<Rightarrow> ALWAYS_INSERTED | Some v \<Rightarrow> insertionStatus v)"

definition vi_wf :: "VersionInfo \<Rightarrow> bool" where
  "vi_wf vs \<longleftrightarrow> (\<forall>k v. getVectorVersionInfo k vs = Some v \<longrightarrow> vvi_wf v)"

definition vi_clean :: "VersionInfo \<Rightarrow> bool" where
  "vi_clean vs \<longleftrightarrow> (\<forall>k v. getVectorVersionInfo k vs = Some v \<longrightarrow> vvi_clean v)"

lemmas row_defs = row_ins_def row_del_def row_raw_def row_status_def

lemma vi_wf_Nil [simp]: "vi_wf []" "vi_clean []"
  by (simp_all add: vi_wf_def vi_clean_def getVectorVersionInfo_def)

lemma row_Nil [simp]: "row_ins [] r = 0" "row_del [] r = INVALID_TRANSACTION"
  "row_raw [] r = INVALID_TRANSACTION"
  by (simp_all add: row_defs getVectorVersionInfo_def)

lemma vec_or_new_wf: "vi_wf vs \<Longrightarrow> vvi_wf (vec_or_new k vs)"
  by (auto simp: vec_or_new_def vi_wf_def split: option.splits)

lemma vec_or_new_clean: "vi_clean vs \<Longrightarrow> vvi_clean (vec_or_new k vs)"
  by (auto simp: vec_or_new_def vi_clean_def split: option.splits)

lemma row_del_clean: "vi_wf vs \<Longrightarrow> vi_clean vs \<Longrightarrow> row_del vs r = row_raw vs r"
  by (auto simp: row_defs vi_wf_def vi_clean_def intro: del_ver_clean split: option.splits)

lemma VersionInfo_isInserted_sees:
  "vi_wf vs \<Longrightarrow> valid_reader ts i \<Longrightarrow> VersionInfo_isInserted ts i r vs = Inr (sees ts i (row_ins vs r))"
  by (auto simp: VersionInfo_isInserted_def getQuotientRemainder_def row_ins_def vi_wf_def
      isInserted_sees split: option.splits)

lemma VersionInfo_isDeleted_sees:
  "vi_wf vs \<Longrightarrow> valid_reader ts i \<Longrightarrow> VersionInfo_isDeleted ts i r vs = Inr (sees ts i (row_del vs r))"
  by (auto simp: VersionInfo_isDeleted_def getQuotientRemainder_def row_del_def vi_wf_def
      isDeleted_sees split: option.splits)

text \<open>The per-vector operations meet their contract.\<close>

interpretation append_op: vector_range_op
  "\<lambda>s n v. Inr (VectorVersionInfo_append tx s n v)"
  "\<lambda>s n v. tx \<noteq> INVALID_TRANSACTION \<and> vvi_wf v \<and> (s = 0 \<or> insertionStatus v = INS_CHECK_VERSION)"
  "\<lambda>s n v v'. v' = VectorVersionInfo_append tx s n v \<and> vvi_wf v'" for tx
  by unfold_locales (auto intro: append_vvi_wf)

text \<open>The other four stamp the rows of the range, in the insertion or in the deletion versions.\<close>

definition ins_stamped ::
  "transaction_t \<Rightarrow> row_idx_t \<Rightarrow> row_idx_t \<Rightarrow> VectorVersionInfo \<Rightarrow> VectorVersionInfo \<Rightarrow> bool" where
  "ins_stamped x s n v v' \<longleftrightarrow> vvi_wf v' \<and> raw_del v' = raw_del v \<and>
    (\<forall>i < DEFAULT_VECTOR_CAPACITY. ins_ver v' i =
       (if isSameInsertionVersion v \<or> (s \<le> i \<and> i < s + n) then x else ins_ver v i))"

definition del_stamped ::
  "transaction_t \<Rightarrow> row_idx_t \<Rightarrow> row_idx_t \<Rightarrow> VectorVersionInfo \<Rightarrow> VectorVersionInfo \<Rightarrow> bool" where
  "del_stamped x s n v v' \<longleftrightarrow> vvi_wf v' \<and> ins_ver v' = ins_ver v \<and>
    insertionStatus v' = insertionStatus v \<and>
    (\<forall>i < DEFAULT_VECTOR_CAPACITY.
       raw_del v' i = (if s \<le> i \<and> i < s + n then x else raw_del v i))"

interpretation commit_insert_op: vector_range_op
  "setInsertCommitTS c"
  "\<lambda>s n v. c \<noteq> INVALID_TRANSACTION \<and> vvi_wf v \<and> insertionStatus v = INS_CHECK_VERSION"
  "\<lambda>s n v v'. ins_stamped c s n v v' \<and> insertionStatus v' = INS_CHECK_VERSION \<and>
    deletionStatus v' = deletionStatus v" for c
  unfolding ins_stamped_def
  by unfold_locales (use setInsertCommitTS_vvi in blast)

interpretation commit_delete_op: vector_range_op
  "setDeleteCommitTS c"
  "\<lambda>s n v. vvi_wf v \<and> deletionStatus v = DEL_CHECK_VERSION"
  "\<lambda>s n v v'. del_stamped c s n v v' \<and> deletionStatus v' = DEL_CHECK_VERSION" for c
  unfolding del_stamped_def
  by unfold_locales (use setDeleteCommitTS_vvi in blast)

interpretation rollback_insert_op: vector_range_op
  "\<lambda>s n v. Inr (rollbackInsertions s n v)"
  "\<lambda>s n v. vvi_wf v \<and> insertionStatus v \<noteq> ALWAYS_INSERTED"
  "\<lambda>s n v v'. ins_stamped INVALID_TRANSACTION s n v v' \<and> insertionStatus v' \<noteq> ALWAYS_INSERTED \<and>
    (\<not> insertions_vanish s n v \<longrightarrow>
       deletionStatus v' = deletionStatus v \<and> insertionStatus v' = insertionStatus v)"
  unfolding ins_stamped_def
  by unfold_locales (use rollbackInsertions_vvi in blast)

interpretation rollback_delete_op: vector_range_op
  "\<lambda>s n v. Inr (rollbackDeletions s n v)"
  "\<lambda>s n v. vvi_wf v"
  "\<lambda>s n v v'. del_stamped INVALID_TRANSACTION s n v v' \<and>
    ((\<exists>i < DEFAULT_VECTOR_CAPACITY. raw_del v' i \<noteq> INVALID_TRANSACTION) \<longrightarrow>
       deletionStatus v' = deletionStatus v)"
  unfolding del_stamped_def
  by unfold_locales (use rollbackDeletions_vvi in blast)

subsection \<open>Effect of the row-range operations on the rows\<close>

text \<open>A vector touched by a range holds exactly the rows of the range that fall into it.\<close>

lemma touched_row:
  assumes "(r div DEFAULT_VECTOR_CAPACITY, a, m) \<in> set (vector_ranges s n)" "0 < n"
  shows "(a \<le> r mod DEFAULT_VECTOR_CAPACITY \<and> r mod DEFAULT_VECTOR_CAPACITY < a + m) \<longleftrightarrow>
      (s \<le> r \<and> r < s + n)"
    and "a \<le> r mod DEFAULT_VECTOR_CAPACITY \<longleftrightarrow> s \<le> r"
proof -
  have r: "r div DEFAULT_VECTOR_CAPACITY * DEFAULT_VECTOR_CAPACITY + r mod DEFAULT_VECTOR_CAPACITY = r"
    by (rule div_mult_mod_eq)
  show "(a \<le> r mod DEFAULT_VECTOR_CAPACITY \<and> r mod DEFAULT_VECTOR_CAPACITY < a + m) \<longleftrightarrow>
      (s \<le> r \<and> r < s + n)"
    using vector_ranges_mem(3) [OF assms, of "r mod DEFAULT_VECTOR_CAPACITY"] unfolding r by simp
  show "a \<le> r mod DEFAULT_VECTOR_CAPACITY \<longleftrightarrow> s \<le> r"
    using vector_ranges_mem(4) [OF assms, of "r mod DEFAULT_VECTOR_CAPACITY"] unfolding r by simp
qed

lemma untouched_row:
  assumes "r div DEFAULT_VECTOR_CAPACITY \<notin> fst ` set (vector_ranges s n)" "0 < n"
  shows "\<not> (s \<le> r \<and> r < s + n)"
  using vector_ranges_cover [OF assms(2), of s r] assms(1) by (force simp: image_iff)

text \<open>A touched vector contains a row of the range.\<close>

lemma touched_witness:
  assumes "(k, a, m) \<in> set (vector_ranges s n)" "0 < n"
  obtains r where "s \<le> r" "r < s + n" "r div DEFAULT_VECTOR_CAPACITY = k"
    "r mod DEFAULT_VECTOR_CAPACITY = a"
proof -
  let ?r = "k * DEFAULT_VECTOR_CAPACITY + a"
  have a: "a < DEFAULT_VECTOR_CAPACITY" using vector_ranges_mem(1,2) [OF assms] by simp
  then have "s \<le> ?r \<and> ?r < s + n"
    using vector_ranges_mem(1) [OF assms] vector_ranges_mem(3) [OF assms a] by simp
  with a show ?thesis by (intro that [of ?r]) simp_all
qed

lemma VersionInfo_append_rows:
  assumes wf: "vi_wf vs" "vi_clean vs" and tx: "tx_ID t \<noteq> INVALID_TRANSACTION" and n: "0 < n"
    and tail: "s mod DEFAULT_VECTOR_CAPACITY = 0 \<or> row_status vs s = INS_CHECK_VERSION"
  shows "\<exists>vs'. VersionInfo_append addr s n (t, vs) =
      Inr (if shouldAppendToUndoBuffer t then pushInsertInfo addr s n t else t, vs') \<and>
    vi_wf vs' \<and> vi_clean vs' \<and>
    (\<forall>r. row_del vs' r = row_del vs r \<and> row_raw vs' r = row_raw vs r \<and>
       (r < s \<longrightarrow> row_ins vs' r = row_ins vs r) \<and>
       (s \<le> r \<and> r < s + n \<longrightarrow> row_ins vs' r = tx_ID t \<and> row_status vs' r = INS_CHECK_VERSION) \<and>
       (row_status vs r = INS_CHECK_VERSION \<longrightarrow> row_status vs' r = INS_CHECK_VERSION))"
proof -
  have pre: "tx_ID t \<noteq> INVALID_TRANSACTION \<and> vvi_wf (vec_or_new k vs) \<and>
      (a = 0 \<or> insertionStatus (vec_or_new k vs) = INS_CHECK_VERSION)"
    if "(k, a, m) \<in> set (vector_ranges s n)" for k a m
  proof (cases "a = 0")
    case False
    with vector_ranges_mem(5) [OF that n] tail
    have "k = s div DEFAULT_VECTOR_CAPACITY" "row_status vs s = INS_CHECK_VERSION" by auto
    then show ?thesis using tx vec_or_new_wf [OF wf(1), of k]
      by (auto simp: row_status_def vec_or_new_def split: option.splits)
  qed (simp add: tx vec_or_new_wf [OF wf(1)])
  obtain vs' where run: "foldM (on_vector (\<lambda>s n v. Inr (VectorVersionInfo_append (tx_ID t) s n v)))
        (vector_ranges s n) vs = Inr vs'"
      and vec: "\<And>k. (\<exists>a m v'. (k, a, m) \<in> set (vector_ranges s n) \<and>
            getVectorVersionInfo k vs' = Some v' \<and>
            v' = VectorVersionInfo_append (tx_ID t) a m (vec_or_new k vs) \<and> vvi_wf v') \<or>
          k \<notin> fst ` set (vector_ranges s n) \<and>
            getVectorVersionInfo k vs' = getVectorVersionInfo k vs"
    using append_op.range_op [where tx = "tx_ID t" and s = s and vs = vs, OF n] pre by blast
  show ?thesis
  proof (intro exI conjI allI impI)
    show "VersionInfo_append addr s n (t, vs) =
        Inr (if shouldAppendToUndoBuffer t then pushInsertInfo addr s n t else t, vs')"
      using n run by (simp add: VersionInfo_append_def)
    show "vi_wf vs'" using vec wf(1) unfolding vi_wf_def by (metis option.inject)
    have "vvi_clean v" if "getVectorVersionInfo k vs' = Some v" for k v
      using vec [of k] that wf(2) vec_or_new_clean [OF wf(2), of k]
      by (auto simp: vi_clean_def vvi_clean_def)
    then show "vi_clean vs'" by (auto simp: vi_clean_def)
    fix r
    let ?k = "r div DEFAULT_VECTOR_CAPACITY" and ?i = "r mod DEFAULT_VECTOR_CAPACITY"
    consider (touched) a m where "(?k, a, m) \<in> set (vector_ranges s n)"
        "getVectorVersionInfo ?k vs' =
           Some (VectorVersionInfo_append (tx_ID t) a m (vec_or_new ?k vs))"
      | (untouched) "\<not> (s \<le> r \<and> r < s + n)"
        "getVectorVersionInfo ?k vs' = getVectorVersionInfo ?k vs"
      using vec [of ?k] untouched_row [OF _ n, of r s] by blast
    note cs = this
    show "row_del vs' r = row_del vs r" "row_raw vs' r = row_raw vs r"
      "row_status vs r = INS_CHECK_VERSION \<Longrightarrow> row_status vs' r = INS_CHECK_VERSION"
      using cs by (cases; auto simp: row_defs vec_or_new_def split: option.splits)+
    show "row_ins vs' r = row_ins vs r" if "r < s"
      using cs
    proof cases
      case (touched a m)
      with touched_row(2) [OF touched(1) n] that have ia: "?i < a" by auto
      then have "a \<noteq> 0" by simp
      with vector_ranges_mem(5) [OF touched(1) n] tail
      have "?k = s div DEFAULT_VECTOR_CAPACITY" "row_status vs s = INS_CHECK_VERSION" by auto
      then obtain v where v: "getVectorVersionInfo ?k vs = Some v"
        by (auto simp: row_status_def split: option.splits)
      with append_vvi_old [OF _ tx _ _ ia] pre [OF touched(1)] vector_ranges_mem(2) [OF touched(1) n]
      show ?thesis by (simp add: row_ins_def touched(2) vec_or_new_def)
    qed (simp add: row_ins_def)
    assume r: "s \<le> r \<and> r < s + n"
    have "row_ins vs' r = tx_ID t \<and> row_status vs' r = INS_CHECK_VERSION"
      using cs
    proof cases
      case (touched a m)
      with touched_row(1) [OF touched(1) n] r have "a \<le> ?i" "?i < a + m" by auto
      with append_vvi_new [OF _ tx _ _ this] pre [OF touched(1)] vector_ranges_mem(2) [OF touched(1) n]
      show ?thesis by (simp add: row_defs touched(2))
    qed (use r in simp)
    then show "row_ins vs' r = tx_ID t" "row_status vs' r = INS_CHECK_VERSION" by blast+
  qed
qed

text \<open>The remaining operations require the touched vectors to exist, so that no vector is created.
  Then the effect on a row is read off the vector of the row and, when that is touched, a row of the
  range in the same vector.\<close>

definition vectors_upd ::
  "(row_idx_t \<Rightarrow> row_idx_t \<Rightarrow> VectorVersionInfo \<Rightarrow> VectorVersionInfo \<Rightarrow> bool) \<Rightarrow>
   row_idx_t \<Rightarrow> row_idx_t \<Rightarrow> VersionInfo \<Rightarrow> VersionInfo \<Rightarrow> bool" where
  "vectors_upd post s n vs vs' \<longleftrightarrow>
    (\<forall>k v'. getVectorVersionInfo k vs' = Some v' \<longrightarrow> getVectorVersionInfo k vs = Some v' \<or>
       (\<exists>a m v. getVectorVersionInfo k vs = Some v \<and> post a m v v')) \<and>
    (\<forall>r. \<not> (s \<le> r \<and> r < s + n) \<and>
        getVectorVersionInfo (r div DEFAULT_VECTOR_CAPACITY) vs' =
        getVectorVersionInfo (r div DEFAULT_VECTOR_CAPACITY) vs \<or>
      (\<exists>a m v v' r'. getVectorVersionInfo (r div DEFAULT_VECTOR_CAPACITY) vs = Some v \<and>
        getVectorVersionInfo (r div DEFAULT_VECTOR_CAPACITY) vs' = Some v' \<and> post a m v v' \<and>
        (a \<le> r mod DEFAULT_VECTOR_CAPACITY \<and> r mod DEFAULT_VECTOR_CAPACITY < a + m \<longleftrightarrow>
           s \<le> r \<and> r < s + n) \<and>
        s \<le> r' \<and> r' < s + n \<and> r' div DEFAULT_VECTOR_CAPACITY = r div DEFAULT_VECTOR_CAPACITY))"

lemma vectors_upd_wf:
  assumes "vectors_upd post s n vs vs'" "vi_wf vs" "\<And>a m v v'. post a m v v' \<Longrightarrow> vvi_wf v'"
  shows "vi_wf vs'"
  using assms unfolding vectors_upd_def vi_wf_def by blast

lemma vectors_upd_row:
  assumes "vectors_upd post s n vs vs'"
  obtains (untouched) "\<not> (s \<le> r \<and> r < s + n)" "row_ins vs' r = row_ins vs r"
      "row_del vs' r = row_del vs r" "row_raw vs' r = row_raw vs r" "row_status vs' r = row_status vs r"
  | (touched) a m v v' r' where "getVectorVersionInfo (r div DEFAULT_VECTOR_CAPACITY) vs = Some v"
      "getVectorVersionInfo (r div DEFAULT_VECTOR_CAPACITY) vs' = Some v'" "post a m v v'"
      "a \<le> r mod DEFAULT_VECTOR_CAPACITY \<and> r mod DEFAULT_VECTOR_CAPACITY < a + m \<longleftrightarrow>
         s \<le> r \<and> r < s + n"
      "s \<le> r'" "r' < s + n" "row_ins vs r' = ins_ver v (r' mod DEFAULT_VECTOR_CAPACITY)"
      "row_status vs r' = insertionStatus v"
proof -
  consider "\<not> (s \<le> r \<and> r < s + n)" "getVectorVersionInfo (r div DEFAULT_VECTOR_CAPACITY) vs' =
        getVectorVersionInfo (r div DEFAULT_VECTOR_CAPACITY) vs"
    | a m v v' r' where "getVectorVersionInfo (r div DEFAULT_VECTOR_CAPACITY) vs = Some v"
      "getVectorVersionInfo (r div DEFAULT_VECTOR_CAPACITY) vs' = Some v'" "post a m v v'"
      "a \<le> r mod DEFAULT_VECTOR_CAPACITY \<and> r mod DEFAULT_VECTOR_CAPACITY < a + m \<longleftrightarrow>
         s \<le> r \<and> r < s + n"
      "s \<le> r'" "r' < s + n" "r' div DEFAULT_VECTOR_CAPACITY = r div DEFAULT_VECTOR_CAPACITY"
    using assms unfolding vectors_upd_def by blast
  then show ?thesis
  proof cases
    case 1
    then show ?thesis by (intro untouched) (simp_all add: row_defs)
  next
    case (2 a m v v' r')
    then show ?thesis by (intro touched [of v v' a m r']) (simp_all add: row_defs)
  qed
qed

context vector_range_op
begin

lemma range_op_rows:
  assumes n: "0 < n"
    and ex: "\<And>r. s \<le> r \<Longrightarrow> r < s + n \<Longrightarrow>
      \<exists>v. getVectorVersionInfo (r div DEFAULT_VECTOR_CAPACITY) vs = Some v \<and> (\<forall>a m. pre a m v)"
  shows "\<exists>vs'. foldM (on_vector op) (vector_ranges s n) vs = Inr vs' \<and> vectors_upd post s n vs vs'"
proof -
  have old: "\<exists>v. getVectorVersionInfo k vs = Some v \<and> vec_or_new k vs = v \<and> pre a m v \<and>
      (\<exists>r. s \<le> r \<and> r < s + n \<and> r div DEFAULT_VECTOR_CAPACITY = k)"
    if "(k, a, m) \<in> set (vector_ranges s n)" for k a m
    using touched_witness [OF that n] ex by (metis option.simps(5) vec_or_new_def)
  obtain vs' where run: "foldM (on_vector op) (vector_ranges s n) vs = Inr vs'"
    and vec: "\<And>k. (\<exists>a m v'. (k, a, m) \<in> set (vector_ranges s n) \<and>
          getVectorVersionInfo k vs' = Some v' \<and> post a m (vec_or_new k vs) v') \<or>
        k \<notin> fst ` set (vector_ranges s n) \<and>
          getVectorVersionInfo k vs' = getVectorVersionInfo k vs"
    using range_op [OF n, of s vs] old by blast
  show ?thesis
    unfolding vectors_upd_def
  proof (intro exI conjI allI impI, rule run)
    fix k v' assume v': "getVectorVersionInfo k vs' = Some v'"
    show "getVectorVersionInfo k vs = Some v' \<or>
       (\<exists>a m v. getVectorVersionInfo k vs = Some v \<and> post a m v v')"
      using vec [of k] old [of k] v' by (metis option.inject)
  next
    fix r
    let ?k = "r div DEFAULT_VECTOR_CAPACITY"
    show "\<not> (s \<le> r \<and> r < s + n) \<and> getVectorVersionInfo ?k vs' = getVectorVersionInfo ?k vs \<or>
      (\<exists>a m v v' r'. getVectorVersionInfo ?k vs = Some v \<and>
        getVectorVersionInfo ?k vs' = Some v' \<and> post a m v v' \<and>
        (a \<le> r mod DEFAULT_VECTOR_CAPACITY \<and> r mod DEFAULT_VECTOR_CAPACITY < a + m \<longleftrightarrow>
           s \<le> r \<and> r < s + n) \<and>
        s \<le> r' \<and> r' < s + n \<and> r' div DEFAULT_VECTOR_CAPACITY = ?k)"
      using vec [of ?k]
    proof (elim disjE exE conjE)
      fix a m v'
      assume mem: "(?k, a, m) \<in> set (vector_ranges s n)"
        and "getVectorVersionInfo ?k vs' = Some v'" "post a m (vec_or_new ?k vs) v'"
      with old [OF mem] touched_row(1) [OF mem n] show ?thesis by blast
    qed (use untouched_row [OF _ n, of r s] in simp)
  qed
qed

end

lemma ins_ver_shared: "vvi_wf v \<Longrightarrow> isSameInsertionVersion v \<Longrightarrow> ins_ver v i = ins_ver v j"
  by (simp add: vvi_wf_def ins_ver_def)

lemma vi_clean_iff: "vi_wf vs \<Longrightarrow> vi_clean vs \<longleftrightarrow> (\<forall>r. row_del vs r = row_raw vs r)"
proof (intro iffI allI)
  fix r assume "vi_wf vs" "vi_clean vs"
  then show "row_del vs r = row_raw vs r" by (rule row_del_clean)
next
  assume wf: "vi_wf vs" and eq: "\<forall>r. row_del vs r = row_raw vs r"
  have "raw_del v i = INVALID_TRANSACTION"
    if "getVectorVersionInfo k vs = Some v" "deletionStatus v = NO_DELETED"
      "i < DEFAULT_VECTOR_CAPACITY" for k v i
  proof -
    have "del_ver v i = raw_del v i"
      using that spec [OF eq, of "k * DEFAULT_VECTOR_CAPACITY + i"] by (simp add: row_defs)
    with that wf show ?thesis by (simp add: vi_wf_def del_ver_raw)
  qed
  then show "vi_clean vs" by (auto simp: vi_clean_def vvi_clean_def)
qed

text \<open>Stamping the insertion versions: a row outside the range can only get the stamp when it shares
  the version of a row in the range.\<close>

lemma vectors_upd_ins:
  assumes upd: "vectors_upd post s n vs vs'" and wf: "vi_wf vs"
    and post: "\<And>a m v v'. post a m v v' \<Longrightarrow> ins_stamped x a m v v'"
  shows "vi_wf vs'" "row_raw vs' r = row_raw vs r" "s \<le> r \<Longrightarrow> r < s + n \<Longrightarrow> row_ins vs' r = x"
    "row_ins vs' r = row_ins vs r \<or> row_ins vs' r = x \<and>
       (\<exists>r'. s \<le> r' \<and> r' < s + n \<and> row_ins vs r' = row_ins vs r)"
proof -
  show "vi_wf vs'" using vectors_upd_wf [OF upd wf] post by (metis ins_stamped_def)
  show "row_raw vs' r = row_raw vs r"
    using upd by (cases rule: vectors_upd_row [where r = r])
      (auto dest!: post simp: ins_stamped_def row_raw_def)
  show "row_ins vs' r = x" if "s \<le> r" "r < s + n"
    using upd by (cases rule: vectors_upd_row [where r = r])
      (use that in \<open>auto dest!: post simp: ins_stamped_def row_ins_def\<close>)
  show "row_ins vs' r = row_ins vs r \<or> row_ins vs' r = x \<and>
       (\<exists>r'. s \<le> r' \<and> r' < s + n \<and> row_ins vs r' = row_ins vs r)"
    using upd
  proof (cases rule: vectors_upd_row [where r = r])
    case (touched a m v v' r')
    have "vvi_wf v" using wf touched(1) by (simp add: vi_wf_def)
    with touched(7) have "isSameInsertionVersion v \<Longrightarrow> row_ins vs r' = row_ins vs r"
      using ins_ver_shared [of v] touched(1) by (simp add: row_ins_def)
    moreover have "row_ins vs' r =
        (if isSameInsertionVersion v \<or> s \<le> r \<and> r < s + n then x else row_ins vs r)"
      using post [OF touched(3)] touched(1,2,4) by (simp add: ins_stamped_def row_ins_def)
    ultimately show ?thesis using touched(5,6) by auto
  qed simp
qed

lemma vectors_upd_del:
  assumes upd: "vectors_upd post s n vs vs'" and wf: "vi_wf vs"
    and post: "\<And>a m v v'. post a m v v' \<Longrightarrow> del_stamped x a m v v'"
  shows "vi_wf vs'" "row_ins vs' r = row_ins vs r" "row_status vs' r = row_status vs r"
    "row_raw vs' r = (if s \<le> r \<and> r < s + n then x else row_raw vs r)"
proof -
  show "vi_wf vs'" using vectors_upd_wf [OF upd wf] post by (metis del_stamped_def)
  show "row_ins vs' r = row_ins vs r" and "row_status vs' r = row_status vs r"
    using upd by (cases rule: vectors_upd_row [where r = r];
      auto dest!: post simp: del_stamped_def row_defs)+
  show "row_raw vs' r = (if s \<le> r \<and> r < s + n then x else row_raw vs r)"
    using upd by (cases rule: vectors_upd_row [where r = r])
      (auto dest!: post simp: del_stamped_def row_raw_def)
qed

lemma VersionInfo_commitInsert_rows:
  assumes wf: "vi_wf vs" and c: "c \<noteq> INVALID_TRANSACTION" and n: "0 < n"
    and st: "\<And>r. s \<le> r \<Longrightarrow> r < s + n \<Longrightarrow> row_status vs r = INS_CHECK_VERSION"
  shows "\<exists>vs'. VersionInfo_commitInsert s n c vs = Inr vs' \<and> vi_wf vs' \<and>
    (\<forall>r. row_raw vs' r = row_raw vs r \<and> row_del vs' r = row_del vs r \<and>
       row_status vs' r = row_status vs r \<and> (s \<le> r \<and> r < s + n \<longrightarrow> row_ins vs' r = c) \<and>
       (row_ins vs' r = row_ins vs r \<or> row_ins vs' r = c \<and>
         (\<exists>r'. s \<le> r' \<and> r' < s + n \<and> row_ins vs r' = row_ins vs r)))"
proof -
  have "\<exists>v. getVectorVersionInfo (r div DEFAULT_VECTOR_CAPACITY) vs = Some v \<and>
      (\<forall>a m. c \<noteq> INVALID_TRANSACTION \<and> vvi_wf v \<and> insertionStatus v = INS_CHECK_VERSION)"
    if "s \<le> r" "r < s + n" for r
    using st [OF that] c wf by (auto simp: vi_wf_def row_status_def split: option.splits)
  from commit_insert_op.range_op_rows [where c = c, OF n this] obtain vs'
    where run: "foldM (on_vector (setInsertCommitTS c)) (vector_ranges s n) vs = Inr vs'"
    and upd: "vectors_upd (\<lambda>s n v v'. ins_stamped c s n v v' \<and>
      insertionStatus v' = INS_CHECK_VERSION \<and> deletionStatus v' = deletionStatus v) s n vs vs'"
    by blast
  note ins = vectors_upd_ins [where x = c, OF upd wf, OF conjunct1]
  have "row_del vs' r = row_del vs r \<and> row_status vs' r = row_status vs r" for r
    using upd
  proof (cases rule: vectors_upd_row [where r = r])
    case (touched a m v v' r')
    with wf ins(1) have "vvi_wf v" "vvi_wf v'" by (auto simp: vi_wf_def)
    with touched st [OF touched(5,6)] show ?thesis by (simp add: row_defs del_ver_raw ins_stamped_def)
  qed simp
  with ins run n show ?thesis by (auto simp: VersionInfo_commitInsert_def)
qed

lemma VersionInfo_commitDelete_rows:
  assumes wf: "vi_wf vs" and n: "0 < n"
    and st: "\<And>r. s \<le> r \<Longrightarrow> r < s + n \<Longrightarrow> row_del vs r \<noteq> INVALID_TRANSACTION"
  shows "\<exists>vs'. VersionInfo_commitDelete s n c vs = Inr vs' \<and> vi_wf vs' \<and>
    (\<forall>r. row_ins vs' r = row_ins vs r \<and> row_status vs' r = row_status vs r \<and>
       row_raw vs' r = (if s \<le> r \<and> r < s + n then c else row_raw vs r) \<and>
       (row_del vs r = row_raw vs r \<longrightarrow> row_del vs' r = row_raw vs' r))"
proof -
  have "\<exists>v. getVectorVersionInfo (r div DEFAULT_VECTOR_CAPACITY) vs = Some v \<and>
      (\<forall>a m. vvi_wf v \<and> deletionStatus v = DEL_CHECK_VERSION)"
    if "s \<le> r" "r < s + n" for r
    using st [OF that] wf by (auto simp: vi_wf_def row_del_def del_ver_raw split: option.splits if_splits)
  from commit_delete_op.range_op_rows [where c = c, OF n this] obtain vs'
    where run: "foldM (on_vector (setDeleteCommitTS c)) (vector_ranges s n) vs = Inr vs'"
    and upd: "vectors_upd (\<lambda>s n v v'. del_stamped c s n v v' \<and>
      deletionStatus v' = DEL_CHECK_VERSION) s n vs vs'"
    by blast
  note del = vectors_upd_del [where x = c, OF upd wf, OF conjunct1]
  have "row_del vs' r = row_raw vs' r" if "row_del vs r = row_raw vs r" for r
    using upd
  proof (cases rule: vectors_upd_row [where r = r])
    case (touched a m v v' r')
    with del(1) show ?thesis by (simp add: vi_wf_def row_defs del_ver_raw)
  qed (simp add: that)
  with del run n show ?thesis by (auto simp: VersionInfo_commitDelete_def)
qed

lemma VersionInfo_rollbackDelete_rows:
  assumes wf: "vi_wf vs" and n: "0 < n"
    and st: "\<And>r. s \<le> r \<Longrightarrow> r < s + n \<Longrightarrow> row_raw vs r \<noteq> INVALID_TRANSACTION"
  shows "\<exists>vs'. VersionInfo_rollbackDelete s n vs = Inr vs' \<and> vi_wf vs' \<and>
    (\<forall>r. row_ins vs' r = row_ins vs r \<and> row_status vs' r = row_status vs r \<and>
       row_raw vs' r = (if s \<le> r \<and> r < s + n then INVALID_TRANSACTION else row_raw vs r) \<and>
       (row_del vs r = row_raw vs r \<longrightarrow> row_del vs' r = row_raw vs' r))"
proof -
  have "\<exists>v. getVectorVersionInfo (r div DEFAULT_VECTOR_CAPACITY) vs = Some v \<and> (\<forall>a m. vvi_wf v)"
    if "s \<le> r" "r < s + n" for r :: nat
    using st [OF that] wf by (auto simp: vi_wf_def row_raw_def split: option.splits)
  from rollback_delete_op.range_op_rows [OF n this] obtain vs'
    where run: "foldM (on_vector (\<lambda>s n v. Inr (rollbackDeletions s n v))) (vector_ranges s n) vs = Inr vs'"
    and upd: "vectors_upd (\<lambda>s n v v'. del_stamped INVALID_TRANSACTION s n v v' \<and>
      ((\<exists>i < DEFAULT_VECTOR_CAPACITY. raw_del v' i \<noteq> INVALID_TRANSACTION) \<longrightarrow>
         deletionStatus v' = deletionStatus v)) s n vs vs'"
    by blast
  note del = vectors_upd_del [where x = INVALID_TRANSACTION, OF upd wf, OF conjunct1]
  have "row_del vs' r = row_raw vs' r" if eq: "row_del vs r = row_raw vs r" for r
    using upd
  proof (cases rule: vectors_upd_row [where r = r])
    case (touched a m v v' r')
    with del(1) wf have wfs: "vvi_wf v" "vvi_wf v'" by (auto simp: vi_wf_def)
    show ?thesis
    proof (cases "row_raw vs' r = INVALID_TRANSACTION")
      case True
      with wfs touched show ?thesis by (simp add: row_defs del_ver_raw)
    next
      case False
      with del(4) [where r = r] have "row_raw vs' r = row_raw vs r" by (simp split: if_splits)
      moreover have "deletionStatus v' = deletionStatus v"
        using False touched by (auto simp: row_defs)
      ultimately show ?thesis using eq wfs touched by (simp add: row_defs del_ver_raw split: if_splits)
    qed
  qed (simp add: that)
  with del run n show ?thesis by (auto simp: VersionInfo_rollbackDelete_def)
qed

text \<open>Rolling an insertion back may unset the deletion status of a vector, but only when none of its
  rows is left, so the deletions of the surviving rows are kept.\<close>

lemma VersionInfo_rollbackInsert_rows:
  assumes wf: "vi_wf vs" and n: "0 < n"
    and st: "\<And>r. s \<le> r \<Longrightarrow> r < s + n \<Longrightarrow> row_status vs r \<noteq> ALWAYS_INSERTED"
  shows "\<exists>vs'. VersionInfo_rollbackInsert s n vs = Inr vs' \<and> vi_wf vs' \<and>
    (\<forall>r. row_raw vs' r = row_raw vs r \<and>
       (row_status vs r \<noteq> ALWAYS_INSERTED \<longrightarrow> row_status vs' r \<noteq> ALWAYS_INSERTED) \<and>
       (s \<le> r \<and> r < s + n \<longrightarrow> row_ins vs' r = INVALID_TRANSACTION) \<and>
       (row_ins vs' r = row_ins vs r \<or> row_ins vs' r = INVALID_TRANSACTION \<and>
         (\<exists>r'. s \<le> r' \<and> r' < s + n \<and> row_ins vs r' = row_ins vs r)) \<and>
       (row_ins vs' r \<noteq> INVALID_TRANSACTION \<longrightarrow>
          row_status vs' r = row_status vs r \<and> row_del vs' r = row_del vs r))"
proof -
  have "\<exists>v. getVectorVersionInfo (r div DEFAULT_VECTOR_CAPACITY) vs = Some v \<and>
      (\<forall>a m. vvi_wf v \<and> insertionStatus v \<noteq> ALWAYS_INSERTED)"
    if "s \<le> r" "r < s + n" for r :: nat
    using st [OF that] wf by (auto simp: vi_wf_def row_status_def split: option.splits)
  from rollback_insert_op.range_op_rows [OF n this] obtain vs'
    where run: "foldM (on_vector (\<lambda>s n v. Inr (rollbackInsertions s n v))) (vector_ranges s n) vs = Inr vs'"
    and upd: "vectors_upd (\<lambda>s n v v'. ins_stamped INVALID_TRANSACTION s n v v' \<and>
      insertionStatus v' \<noteq> ALWAYS_INSERTED \<and> (\<not> insertions_vanish s n v \<longrightarrow>
       deletionStatus v' = deletionStatus v \<and> insertionStatus v' = insertionStatus v)) s n vs vs'"
    by blast
  note ins = vectors_upd_ins [where x = INVALID_TRANSACTION, OF upd wf, OF conjunct1]
  have "(row_status vs r \<noteq> ALWAYS_INSERTED \<longrightarrow> row_status vs' r \<noteq> ALWAYS_INSERTED) \<and>
      (row_ins vs' r \<noteq> INVALID_TRANSACTION \<longrightarrow>
          row_status vs' r = row_status vs r \<and> row_del vs' r = row_del vs r)" for r
    using upd
  proof (cases rule: vectors_upd_row [where r = r])
    case (touched a m v v' r')
    with ins(1) wf have wfs: "vvi_wf v" "vvi_wf v'" by (auto simp: vi_wf_def)
    have "\<not> insertions_vanish a m v" if "row_ins vs' r \<noteq> INVALID_TRANSACTION"
    proof
      assume "insertions_vanish a m v"
      then have "\<forall>i < DEFAULT_VECTOR_CAPACITY. ins_ver v' i = INVALID_TRANSACTION"
        using touched(3) by (auto simp: ins_stamped_def insertions_vanish_def)
      with that touched(2) show False by (simp add: row_ins_def)
    qed
    with wfs touched show ?thesis by (auto simp: row_defs del_ver_raw ins_stamped_def)
  qed simp
  with ins run n show ?thesis by (auto simp: VersionInfo_rollbackInsert_def)
qed

text \<open>Deleting a row: the first deletion is recorded under the transaction, a second one by the same
  transaction is ignored, one of a row deleted by another transaction is a write-write conflict.\<close>

lemma getOrCreate_deletable:
  assumes wf: "vi_wf vs" "vi_clean vs" and live: "row_ins vs r \<noteq> INVALID_TRANSACTION"
  obtains v ws where "getOrCreateVersionInfo (r div DEFAULT_VECTOR_CAPACITY) vs = (v, ws)"
    "\<And>w j. getVectorVersionInfo j (ws[r div DEFAULT_VECTOR_CAPACITY := Some w]) =
       (if j = r div DEFAULT_VECTOR_CAPACITY then Some w else getVectorVersionInfo j vs)"
    "getVectorVersionInfo (r div DEFAULT_VECTOR_CAPACITY) vs = Some v \<and>
       insertionStatus v \<noteq> NO_INSERTED \<and> ws = vs \<and> ws ! (r div DEFAULT_VECTOR_CAPACITY) = Some v \<or>
     getVectorVersionInfo (r div DEFAULT_VECTOR_CAPACITY) vs = None \<and> v = new_VectorVersionInfo"
    "vvi_wf v" "vvi_clean v" "del_ver v (r mod DEFAULT_VECTOR_CAPACITY) = row_del vs r"
proof -
  obtain v ws where c: "getOrCreateVersionInfo (r div DEFAULT_VECTOR_CAPACITY) vs = (v, ws)" by force
  have v: "v = vec_or_new (r div DEFAULT_VECTOR_CAPACITY) vs" by (rule getOrCreate_lookup(1) [OF c])
  show ?thesis
  proof (rule that [OF c getOrCreate_lookup(3) [OF c]])
    show "getVectorVersionInfo (r div DEFAULT_VECTOR_CAPACITY) vs = Some v \<and>
        insertionStatus v \<noteq> NO_INSERTED \<and> ws = vs \<and> ws ! (r div DEFAULT_VECTOR_CAPACITY) = Some v \<or>
      getVectorVersionInfo (r div DEFAULT_VECTOR_CAPACITY) vs = None \<and> v = new_VectorVersionInfo"
    proof (cases "getVectorVersionInfo (r div DEFAULT_VECTOR_CAPACITY) vs")
      case None
      then show ?thesis by (simp add: v vec_or_new_def)
    next
      case (Some w)
      then have at: "r div DEFAULT_VECTOR_CAPACITY < length vs"
        "vs ! (r div DEFAULT_VECTOR_CAPACITY) = Some w"
        by (auto simp: getVectorVersionInfo_def split: if_splits)
      with c have "w = v \<and> ws = vs" by (simp add: getOrCreateVersionInfo_def)
      with Some at live show ?thesis by (auto simp: row_ins_def ins_ver_def)
    qed
    show "vvi_wf v" "vvi_clean v" using v wf by (simp_all add: vec_or_new_wf vec_or_new_clean)
    show "del_ver v (r mod DEFAULT_VECTOR_CAPACITY) = row_del vs r"
      by (auto simp: v vec_or_new_def row_del_def split: option.splits)
  qed
qed

definition always_if_new :: "VectorVersionInfo \<Rightarrow> VectorVersionInfo" where
  "always_if_new v = (if insertionStatus v = NO_INSERTED then v\<lparr>insertionStatus := ALWAYS_INSERTED\<rparr> else v)"

lemma always_if_new [simp]:
  "vvi_wf v \<Longrightarrow> vvi_wf (always_if_new v)" "vvi_clean (always_if_new v) = vvi_clean v"
  "del_ver (always_if_new v) = del_ver v" "raw_del (always_if_new v) = raw_del v"
  "insertionStatus v \<noteq> NO_INSERTED \<Longrightarrow> always_if_new v = v"
  "ins_ver (always_if_new new_VectorVersionInfo) = (\<lambda>i. 0)"
  "insertionStatus (always_if_new new_VectorVersionInfo) = ALWAYS_INSERTED"
  by (auto simp: always_if_new_def vvi_wf_def same_defs vvi_clean_def raw_del_def ins_ver_def
      new_VectorVersionInfo_def fun_eq_iff)

lemma VersionInfo_delete_rows:
  assumes wf: "vi_wf vs" "vi_clean vs" and tx: "tx_ID t \<noteq> INVALID_TRANSACTION"
    and live: "row_ins vs r \<noteq> INVALID_TRANSACTION"
  shows VersionInfo_delete_again:
      "row_del vs r = tx_ID t \<Longrightarrow> VersionInfo_delete addr r (t, vs) = Inr (False, t, vs)"
    and VersionInfo_delete_conflict:
      "row_del vs r \<noteq> tx_ID t \<Longrightarrow> row_del vs r \<noteq> INVALID_TRANSACTION \<Longrightarrow>
       VersionInfo_delete addr r (t, vs) = Inl (RuntimeException WW_CONFLICT_DELETE)"
    and VersionInfo_delete_fresh: "row_del vs r = INVALID_TRANSACTION \<Longrightarrow>
      \<exists>vs'. VersionInfo_delete addr r (t, vs) =
          Inr (True, if shouldAppendToUndoBuffer t then pushDeleteInfo addr r 1 t else t, vs') \<and>
        vi_wf vs' \<and> vi_clean vs' \<and>
        (\<forall>q. row_ins vs' q = row_ins vs q \<and> row_status vs' q = row_status vs q \<and>
           row_raw vs' q = (if q = r then tx_ID t else row_raw vs q))"
proof -
  let ?k = "r div DEFAULT_VECTOR_CAPACITY" and ?i = "r mod DEFAULT_VECTOR_CAPACITY"
  obtain v ws where c: "getOrCreateVersionInfo ?k vs = (v, ws)"
    and look: "\<And>w j. getVectorVersionInfo j (ws[?k := Some w]) =
       (if j = ?k then Some w else getVectorVersionInfo j vs)"
    and old: "getVectorVersionInfo ?k vs = Some v \<and> insertionStatus v \<noteq> NO_INSERTED \<and> ws = vs \<and>
         ws ! ?k = Some v \<or> getVectorVersionInfo ?k vs = None \<and> v = new_VectorVersionInfo"
    and v: "vvi_wf v" "vvi_clean v" "del_ver v ?i = row_del vs r"
    by (rule getOrCreate_deletable [OF wf live]) blast
  have del: "VersionInfo_delete addr r (t, vs) =
      rbind (VectorVersionInfo_delete (tx_ID t) ?i (always_if_new v)) (\<lambda>(deleted, v').
        Inr (deleted, if deleted \<and> shouldAppendToUndoBuffer t then pushDeleteInfo addr r 1 t else t,
          ws[?k := Some v']))"
    by (auto simp: VersionInfo_delete_def getQuotientRemainder_def c always_if_new_def Let_def
        intro!: rbind_cong)
  have same: "ws[?k := Some (always_if_new v)] = vs" if "row_del vs r \<noteq> INVALID_TRANSACTION"
    using old that v(3) by (metis always_if_new(5) list_update_id ver_new(2))
  show "VersionInfo_delete addr r (t, vs) = Inr (False, t, vs)" if "row_del vs r = tx_ID t"
    using delete_vvi_again [of "always_if_new v" "tx_ID t" ?i] v tx that same by (simp add: del)
  show "VersionInfo_delete addr r (t, vs) = Inl (RuntimeException WW_CONFLICT_DELETE)"
    if "row_del vs r \<noteq> tx_ID t" "row_del vs r \<noteq> INVALID_TRANSACTION"
    using delete_vvi_conflict [of "always_if_new v" ?i "tx_ID t"] v tx that by (simp add: del)
  assume "row_del vs r = INVALID_TRANSACTION"
  with delete_vvi_fresh [of "always_if_new v" ?i "tx_ID t"] v tx obtain v'
    where v': "VectorVersionInfo_delete (tx_ID t) ?i (always_if_new v) = Inr (True, v')"
      "vvi_wf v'" "vvi_clean v'" "ins_ver v' = ins_ver (always_if_new v)"
      "insertionStatus v' = insertionStatus (always_if_new v)"
      "\<And>i. i < DEFAULT_VECTOR_CAPACITY \<Longrightarrow> raw_del v' i = (if i = ?i then tx_ID t else raw_del v i)"
    by auto
  let ?vs = "ws[?k := Some v']"
  have "vi_wf ?vs" "vi_clean ?vs" using wf v' by (simp_all add: vi_wf_def vi_clean_def look)
  moreover have "row_ins ?vs q = row_ins vs q \<and> row_status ?vs q = row_status vs q \<and>
      row_raw ?vs q = (if q = r then tx_ID t else row_raw vs q)" for q
  proof (cases "q div DEFAULT_VECTOR_CAPACITY = ?k")
    case True
    then have "q = r \<longleftrightarrow> q mod DEFAULT_VECTOR_CAPACITY = ?i" by (metis div_mult_mod_eq)
    with True old v' show ?thesis by (auto simp: row_defs look)
  qed (auto simp: row_defs look)
  ultimately show "\<exists>vs'. VersionInfo_delete addr r (t, vs) =
          Inr (True, if shouldAppendToUndoBuffer t then pushDeleteInfo addr r 1 t else t, vs') \<and>
        vi_wf vs' \<and> vi_clean vs' \<and>
        (\<forall>q. row_ins vs' q = row_ins vs q \<and> row_status vs' q = row_status vs q \<and>
           row_raw vs' q = (if q = r then tx_ID t else row_raw vs q))"
    by (simp add: del v'(1))
qed

end
