(* ===== verification/Null_Mask.thy ===== *)
theory Null_Mask
  imports Kuzu_Prelude
begin

text \<open>
  Null masks (\<^verbatim>\<open>src/src/include/common/null_mask.h\<close>, \<^verbatim>\<open>src/src/common/null_mask.cpp\<close>): one bit per value,
  packed into 64-bit entries. The operations work on whole entries with masks read from constant
  tables; the lemmas relate each of them to the bits it reads and writes. Positions are natural
  numbers; a byte pointer into the entries reads them in little-endian order.
\<close>

unbundle bit_operations_syntax

definition NULL_BITMASKS_WITH_SINGLE_ONE :: "64 word list" where
  "NULL_BITMASKS_WITH_SINGLE_ONE =
    [0x1, 0x2, 0x4, 0x8, 0x10, 0x20, 0x40, 0x80, 0x100, 0x200, 0x400, 0x800, 0x1000, 0x2000,
     0x4000, 0x8000, 0x10000, 0x20000, 0x40000, 0x80000, 0x100000, 0x200000, 0x400000, 0x800000,
     0x1000000, 0x2000000, 0x4000000, 0x8000000, 0x10000000, 0x20000000, 0x40000000, 0x80000000,
     0x100000000, 0x200000000, 0x400000000, 0x800000000, 0x1000000000, 0x2000000000,
     0x4000000000, 0x8000000000, 0x10000000000, 0x20000000000, 0x40000000000, 0x80000000000,
     0x100000000000, 0x200000000000, 0x400000000000, 0x800000000000, 0x1000000000000,
     0x2000000000000, 0x4000000000000, 0x8000000000000, 0x10000000000000, 0x20000000000000,
     0x40000000000000, 0x80000000000000, 0x100000000000000, 0x200000000000000, 0x400000000000000,
     0x800000000000000, 0x1000000000000000, 0x2000000000000000, 0x4000000000000000,
     0x8000000000000000]"

definition NULL_BITMASKS_WITH_SINGLE_ZERO :: "64 word list" where
  "NULL_BITMASKS_WITH_SINGLE_ZERO =
    [0xfffffffffffffffe, 0xfffffffffffffffd, 0xfffffffffffffffb, 0xfffffffffffffff7,
     0xffffffffffffffef, 0xffffffffffffffdf, 0xffffffffffffffbf, 0xffffffffffffff7f,
     0xfffffffffffffeff, 0xfffffffffffffdff, 0xfffffffffffffbff, 0xfffffffffffff7ff,
     0xffffffffffffefff, 0xffffffffffffdfff, 0xffffffffffffbfff, 0xffffffffffff7fff,
     0xfffffffffffeffff, 0xfffffffffffdffff, 0xfffffffffffbffff, 0xfffffffffff7ffff,
     0xffffffffffefffff, 0xffffffffffdfffff, 0xffffffffffbfffff, 0xffffffffff7fffff,
     0xfffffffffeffffff, 0xfffffffffdffffff, 0xfffffffffbffffff, 0xfffffffff7ffffff,
     0xffffffffefffffff, 0xffffffffdfffffff, 0xffffffffbfffffff, 0xffffffff7fffffff,
     0xfffffffeffffffff, 0xfffffffdffffffff, 0xfffffffbffffffff, 0xfffffff7ffffffff,
     0xffffffefffffffff, 0xffffffdfffffffff, 0xffffffbfffffffff, 0xffffff7fffffffff,
     0xfffffeffffffffff, 0xfffffdffffffffff, 0xfffffbffffffffff, 0xfffff7ffffffffff,
     0xffffefffffffffff, 0xffffdfffffffffff, 0xffffbfffffffffff, 0xffff7fffffffffff,
     0xfffeffffffffffff, 0xfffdffffffffffff, 0xfffbffffffffffff, 0xfff7ffffffffffff,
     0xffefffffffffffff, 0xffdfffffffffffff, 0xffbfffffffffffff, 0xff7fffffffffffff,
     0xfeffffffffffffff, 0xfdffffffffffffff, 0xfbffffffffffffff, 0xf7ffffffffffffff,
     0xefffffffffffffff, 0xdfffffffffffffff, 0xbfffffffffffffff, 0x7fffffffffffffff]"

definition NULL_LOWER_MASKS :: "64 word list" where
  "NULL_LOWER_MASKS =
    [0x0, 0x1, 0x3, 0x7, 0xf, 0x1f, 0x3f, 0x7f, 0xff, 0x1ff, 0x3ff, 0x7ff, 0xfff, 0x1fff, 0x3fff,
     0x7fff, 0xffff, 0x1ffff, 0x3ffff, 0x7ffff, 0xfffff, 0x1fffff, 0x3fffff, 0x7fffff, 0xffffff,
     0x1ffffff, 0x3ffffff, 0x7ffffff, 0xfffffff, 0x1fffffff, 0x3fffffff, 0x7fffffff, 0xffffffff,
     0x1ffffffff, 0x3ffffffff, 0x7ffffffff, 0xfffffffff, 0x1fffffffff, 0x3fffffffff,
     0x7fffffffff, 0xffffffffff, 0x1ffffffffff, 0x3ffffffffff, 0x7ffffffffff, 0xfffffffffff,
     0x1fffffffffff, 0x3fffffffffff, 0x7fffffffffff, 0xffffffffffff, 0x1ffffffffffff,
     0x3ffffffffffff, 0x7ffffffffffff, 0xfffffffffffff, 0x1fffffffffffff, 0x3fffffffffffff,
     0x7fffffffffffff, 0xffffffffffffff, 0x1ffffffffffffff, 0x3ffffffffffffff, 0x7ffffffffffffff,
     0xfffffffffffffff, 0x1fffffffffffffff, 0x3fffffffffffffff, 0x7fffffffffffffff,
     0xffffffffffffffff]"

definition NULL_HIGH_MASKS :: "64 word list" where
  "NULL_HIGH_MASKS =
    [0x0, 0x8000000000000000, 0xc000000000000000, 0xe000000000000000, 0xf000000000000000,
     0xf800000000000000, 0xfc00000000000000, 0xfe00000000000000, 0xff00000000000000,
     0xff80000000000000, 0xffc0000000000000, 0xffe0000000000000, 0xfff0000000000000,
     0xfff8000000000000, 0xfffc000000000000, 0xfffe000000000000, 0xffff000000000000,
     0xffff800000000000, 0xffffc00000000000, 0xffffe00000000000, 0xfffff00000000000,
     0xfffff80000000000, 0xfffffc0000000000, 0xfffffe0000000000, 0xffffff0000000000,
     0xffffff8000000000, 0xffffffc000000000, 0xffffffe000000000, 0xfffffff000000000,
     0xfffffff800000000, 0xfffffffc00000000, 0xfffffffe00000000, 0xffffffff00000000,
     0xffffffff80000000, 0xffffffffc0000000, 0xffffffffe0000000, 0xfffffffff0000000,
     0xfffffffff8000000, 0xfffffffffc000000, 0xfffffffffe000000, 0xffffffffff000000,
     0xffffffffff800000, 0xffffffffffc00000, 0xffffffffffe00000, 0xfffffffffff00000,
     0xfffffffffff80000, 0xfffffffffffc0000, 0xfffffffffffe0000, 0xffffffffffff0000,
     0xffffffffffff8000, 0xffffffffffffc000, 0xffffffffffffe000, 0xfffffffffffff000,
     0xfffffffffffff800, 0xfffffffffffffc00, 0xfffffffffffffe00, 0xffffffffffffff00,
     0xffffffffffffff80, 0xffffffffffffffc0, 0xffffffffffffffe0, 0xfffffffffffffff0,
     0xfffffffffffffff8, 0xfffffffffffffffc, 0xfffffffffffffffe, 0xffffffffffffffff]"

definition NO_NULL_ENTRY :: "64 word" where
  "NO_NULL_ENTRY = 0"

definition ALL_NULL_ENTRY :: "64 word" where
  "ALL_NULL_ENTRY = NOT NO_NULL_ENTRY"

definition NUM_BITS_PER_NULL_ENTRY_LOG2 :: nat where
  "NUM_BITS_PER_NULL_ENTRY_LOG2 = 6"

definition NUM_BITS_PER_NULL_ENTRY :: nat where
  "NUM_BITS_PER_NULL_ENTRY = push_bit NUM_BITS_PER_NULL_ENTRY_LOG2 1"

definition getNullEntryAndBitPos :: "nat \<Rightarrow> nat \<times> nat" where
  "getNullEntryAndBitPos pos =
     (let nullEntryPos = drop_bit NUM_BITS_PER_NULL_ENTRY_LOG2 pos
      in (nullEntryPos, pos - push_bit NUM_BITS_PER_NULL_ENTRY_LOG2 nullEntryPos))"

subsection \<open>Static operations on an array of entries\<close>

definition NullEntries_setNull :: "64 word list \<Rightarrow> nat \<Rightarrow> bool \<Rightarrow> 64 word list" where
  "NullEntries_setNull nullEntries pos isNull =
     (let entryPos = drop_bit NUM_BITS_PER_NULL_ENTRY_LOG2 pos;
          bitPosInEntry = pos - push_bit NUM_BITS_PER_NULL_ENTRY_LOG2 entryPos
      in if isNull
         then nullEntries[entryPos :=
                nullEntries ! entryPos OR NULL_BITMASKS_WITH_SINGLE_ONE ! bitPosInEntry]
         else nullEntries[entryPos :=
                nullEntries ! entryPos AND NULL_BITMASKS_WITH_SINGLE_ZERO ! bitPosInEntry])"

definition NullEntries_isNull :: "64 word list \<Rightarrow> nat \<Rightarrow> bool" where
  "NullEntries_isNull nullEntries pos =
     (let (entryPos, bitPosInEntry) = getNullEntryAndBitPos pos
      in nullEntries ! entryPos AND NULL_BITMASKS_WITH_SINGLE_ONE ! bitPosInEntry \<noteq> 0)"

text \<open>The part of the loop body of \<^verbatim>\<open>copyUnaligned\<close> that extracts the bits to copy and advances the
  positions: the entry shifted and masked into place, the number of bits read, and the next source
  entry, source bit, destination entry and destination bit.\<close>

definition copyUnaligned_read ::
  "64 word \<Rightarrow> nat \<Rightarrow> nat \<Rightarrow> nat \<Rightarrow> nat \<Rightarrow> nat \<Rightarrow> 64 word \<times> nat \<times> nat \<times> nat \<times> nat \<times> nat" where
  "copyUnaligned_read entry remaining srcEntryPos srcBitPos dstEntryPos dstBitPos =
     (if dstBitPos < srcBitPos then
        let n = min (NUM_BITS_PER_NULL_ENTRY - srcBitPos) remaining;
            e1 = entry AND NOT (NULL_HIGH_MASKS ! (NUM_BITS_PER_NULL_ENTRY - (srcBitPos + n)));
            e2 = drop_bit (srcBitPos - dstBitPos) e1;
            e3 = e2 AND NOT (NULL_LOWER_MASKS ! dstBitPos)
        in (e3, n, srcEntryPos + 1, 0, dstEntryPos, dstBitPos + n)
      else if dstBitPos > srcBitPos then
        let n = min (NUM_BITS_PER_NULL_ENTRY - dstBitPos) remaining;
            e1 = entry AND NOT (NULL_LOWER_MASKS ! srcBitPos);
            e2 = push_bit (dstBitPos - srcBitPos) e1;
            e3 = e2 AND NOT (NULL_HIGH_MASKS ! (NUM_BITS_PER_NULL_ENTRY - (dstBitPos + n)))
        in (e3, n, srcEntryPos, srcBitPos + n, dstEntryPos + 1, 0)
      else
        let n = min (NUM_BITS_PER_NULL_ENTRY - dstBitPos) remaining;
            e1 = entry AND NOT (NULL_LOWER_MASKS ! srcBitPos);
            e2 = e1 AND NOT (NULL_HIGH_MASKS ! (NUM_BITS_PER_NULL_ENTRY - (dstBitPos + n)))
        in (e2, n, srcEntryPos + 1, 0, dstEntryPos + 1, 0))"

text \<open>The loop of \<^verbatim>\<open>copyUnaligned\<close>. Nothing in its condition bounds the number of iterations, so it is a
  partial function; it is shown to return.\<close>

partial_function (option) copyUnaligned_loop ::
  "64 word list \<Rightarrow> nat \<Rightarrow> bool \<Rightarrow> nat \<Rightarrow> nat \<Rightarrow> nat \<Rightarrow> nat \<Rightarrow> nat \<Rightarrow> 64 word list \<Rightarrow> bool \<Rightarrow>
   (64 word list \<times> bool) option" where
  "copyUnaligned_loop srcNullEntries numBitsToCopy invert bitPos srcE srcB dstE dstB dst hasNull =
     (if \<not> bitPos < numBitsToCopy then Some (dst, hasNull)
      else
        let entry = (if invert then NOT (srcNullEntries ! srcE) else srcNullEntries ! srcE);
            (srcNullMaskEntry, n, srcE', srcB', dstE', dstB') =
              copyUnaligned_read entry (numBitsToCopy - bitPos) srcE srcB dstE dstB;
            dst1 = dst[dstE := dst ! dstE AND NOT (push_bit dstB (NULL_LOWER_MASKS ! n))]
        in if srcNullMaskEntry \<noteq> 0
           then copyUnaligned_loop srcNullEntries numBitsToCopy invert (bitPos + n)
                  srcE' srcB' dstE' dstB' (dst1[dstE := dst1 ! dstE OR srcNullMaskEntry]) True
           else copyUnaligned_loop srcNullEntries numBitsToCopy invert (bitPos + n)
                  srcE' srcB' dstE' dstB' dst1 hasNull)"

definition copyUnaligned ::
  "64 word list \<Rightarrow> nat \<Rightarrow> 64 word list \<Rightarrow> nat \<Rightarrow> nat \<Rightarrow> bool \<Rightarrow> (64 word list \<times> bool) option" where
  "copyUnaligned srcNullEntries srcOffset dstNullEntries dstOffset numBitsToCopy invert =
     (let (srcE, srcB) = getNullEntryAndBitPos srcOffset;
          (dstE, dstB) = getNullEntryAndBitPos dstOffset
      in copyUnaligned_loop srcNullEntries numBitsToCopy invert 0 srcE srcB dstE dstB
           dstNullEntries False)"

text \<open>Access through a byte pointer.\<close>

definition getByte :: "64 word list \<Rightarrow> nat \<Rightarrow> byte" where
  "getByte es i = ucast (drop_bit (8 * (i mod 8)) (es ! (i div 8)))"

definition setByte :: "nat \<Rightarrow> byte \<Rightarrow> 64 word list \<Rightarrow> 64 word list" where
  "setByte i b es = es[i div 8 :=
     es ! (i div 8) AND NOT (push_bit (8 * (i mod 8)) 0xff) OR push_bit (8 * (i mod 8)) (ucast b)]"

fun memcpy_bytes :: "64 word list \<Rightarrow> nat \<Rightarrow> nat \<Rightarrow> nat \<Rightarrow> 64 word list \<Rightarrow> 64 word list" where
  "memcpy_bytes src s d 0 dst = dst"
| "memcpy_bytes src s d (Suc n) dst = memcpy_bytes src (Suc s) (Suc d) n (setByte d (getByte src s) dst)"

definition copyNullMask ::
  "64 word list \<Rightarrow> nat \<Rightarrow> 64 word list \<Rightarrow> nat \<Rightarrow> nat \<Rightarrow> bool \<Rightarrow> (64 word list \<times> bool) option" where
  "copyNullMask srcNullEntries srcOffset dstNullEntries dstOffset numBitsToCopy invert =
     (if \<not> invert \<and> srcOffset mod 8 = dstOffset mod 8 \<and> numBitsToCopy \<ge> 8 \<and>
         numBitsToCopy - srcOffset mod 8 \<ge> 8
      then
        let numBitsInFirstByte = 8 - srcOffset mod 8 in
        Option.bind (copyUnaligned srcNullEntries srcOffset dstNullEntries dstOffset
            numBitsInFirstByte False) (\<lambda>(dst1, hasNull1).
        let src = (srcOffset + numBitsInFirstByte) div 8;
            dst = (dstOffset + numBitsInFirstByte) div 8;
            numBytesForAlignedCopy = (numBitsToCopy - numBitsInFirstByte) div 8;
            dst2 = memcpy_bytes srcNullEntries src dst numBytesForAlignedCopy dst1;
            hasNull2 = (hasNull1 \<or> list_ex (\<lambda>i. getByte srcNullEntries i \<noteq> 0)
                          [src..<src + numBytesForAlignedCopy]);
            lastByteStart = numBitsInFirstByte + numBytesForAlignedCopy * 8;
            numBitsInLastByte = numBitsToCopy - numBitsInFirstByte - numBytesForAlignedCopy * 8
        in Option.bind (copyUnaligned srcNullEntries (srcOffset + lastByteStart) dst2
               (dstOffset + lastByteStart) numBitsInLastByte False) (\<lambda>(dst3, hasNull3).
             Some (dst3, hasNull3 \<or> hasNull2)))
      else copyUnaligned srcNullEntries srcOffset dstNullEntries dstOffset numBitsToCopy invert)"

definition setNullRange :: "64 word list \<Rightarrow> nat \<Rightarrow> nat \<Rightarrow> bool \<Rightarrow> 64 word list" where
  "setNullRange nullEntries offset numBitsToSet isNull =
     (if numBitsToSet = 0 then nullEntries
      else
        let (firstEntryPos, firstBitPos) = getNullEntryAndBitPos offset;
            (lastEntryPos, lastBitPos) = getNullEntryAndBitPos (offset + numBitsToSet);
            es = (if lastEntryPos > firstEntryPos + 1
                  then fill_range nullEntries (firstEntryPos + 1) (lastEntryPos - (firstEntryPos + 1))
                         (if isNull then ALL_NULL_ENTRY else NO_NULL_ENTRY)
                  else nullEntries)
        in if firstEntryPos = lastEntryPos
           then (if isNull
                 then es[firstEntryPos := es ! firstEntryPos OR
                        (NOT (NULL_LOWER_MASKS ! firstBitPos) AND
                         NOT (NULL_HIGH_MASKS ! (NUM_BITS_PER_NULL_ENTRY - lastBitPos)))]
                 else es[firstEntryPos := es ! firstEntryPos AND
                        (NULL_LOWER_MASKS ! firstBitPos OR
                         NULL_HIGH_MASKS ! (NUM_BITS_PER_NULL_ENTRY - lastBitPos))])
           else if isNull
           then (let es1 = es[firstEntryPos := es ! firstEntryPos OR NOT (NULL_LOWER_MASKS ! firstBitPos)]
                 in if lastBitPos > 0
                    then es1[lastEntryPos := es1 ! lastEntryPos OR NULL_LOWER_MASKS ! lastBitPos]
                    else es1)
           else (let es1 = es[firstEntryPos := es ! firstEntryPos AND NULL_LOWER_MASKS ! firstBitPos]
                 in if lastBitPos > 0
                    then es1[lastEntryPos := es1 ! lastEntryPos AND NOT (NULL_LOWER_MASKS ! lastBitPos)]
                    else es1))"

text \<open>\<^verbatim>\<open>getMinMax\<close>: three states, all null, no null and some null.\<close>

definition NullMask_getMinMax :: "64 word list \<Rightarrow> nat \<Rightarrow> bool \<times> bool" where
  "NullMask_getMinMax nullEntries numValues =
     (let firstWord = nullEntries ! 0;
          rest = (\<lambda>m. if list_ex (\<lambda>i. nullEntries ! i \<noteq> firstWord) [0..<numValues div 64] then (False, True)
                   else if list_ex (\<lambda>i. m \<noteq> NullEntries_isNull nullEntries i)
                             [numValues div 64 * 64..<numValues] then (False, True)
                   else (m, m))
      in if numValues \<ge> 64 then
           if firstWord = 0 then rest False
           else if firstWord = NOT 0 then rest True
           else (False, True)
         else rest (NullEntries_isNull nullEntries 0))"

definition getNumNullEntries :: "64 word \<Rightarrow> 64 word" where
  "getNumNullEntries numNullBits =
     drop_bit NUM_BITS_PER_NULL_ENTRY_LOG2 numNullBits +
     (if numNullBits - push_bit NUM_BITS_PER_NULL_ENTRY_LOG2 numNullBits = 0 then 0 else 1)"

subsection \<open>Null mask objects\<close>

record NullMask =
  nm_data :: "64 word list"
  mayContainNulls :: bool

definition new_NullMask :: "nat \<Rightarrow> NullMask" where
  "new_NullMask cap =
     \<lparr>nm_data = replicate ((cap + NUM_BITS_PER_NULL_ENTRY - 1) div NUM_BITS_PER_NULL_ENTRY)
        NO_NULL_ENTRY, mayContainNulls = False\<rparr>"

definition NullMask_setAllNonNull :: "NullMask \<Rightarrow> NullMask" where
  "NullMask_setAllNonNull m =
     (if \<not> mayContainNulls m then m
      else \<lparr>nm_data = map (\<lambda>_. NO_NULL_ENTRY) (nm_data m), mayContainNulls = False\<rparr>)"

definition NullMask_setAllNull :: "NullMask \<Rightarrow> NullMask" where
  "NullMask_setAllNull m =
     \<lparr>nm_data = map (\<lambda>_. ALL_NULL_ENTRY) (nm_data m), mayContainNulls = True\<rparr>"

definition hasNoNullsGuarantee :: "NullMask \<Rightarrow> bool" where
  "hasNoNullsGuarantee m = (\<not> mayContainNulls m)"

definition NullMask_setNull :: "nat \<Rightarrow> bool \<Rightarrow> NullMask \<Rightarrow> NullMask" where
  "NullMask_setNull pos isNull m =
     (let m1 = m\<lparr>nm_data := NullEntries_setNull (nm_data m) pos isNull\<rparr>
      in if isNull then m1\<lparr>mayContainNulls := True\<rparr> else m1)"

definition NullMask_isNull :: "nat \<Rightarrow> NullMask \<Rightarrow> bool" where
  "NullMask_isNull pos m = NullEntries_isNull (nm_data m) pos"

definition setNullFromRange :: "nat \<Rightarrow> nat \<Rightarrow> bool \<Rightarrow> NullMask \<Rightarrow> NullMask" where
  "setNullFromRange offset numBitsToSet isNull m =
     (let m1 = (if isNull then m\<lparr>mayContainNulls := True\<rparr> else m)
      in m1\<lparr>nm_data := setNullRange (nm_data m1) offset numBitsToSet isNull\<rparr>)"

definition copyFromNullBits ::
  "64 word list \<Rightarrow> nat \<Rightarrow> nat \<Rightarrow> nat \<Rightarrow> bool \<Rightarrow> NullMask \<Rightarrow> (NullMask \<times> bool) option" where
  "copyFromNullBits srcNullEntries srcOffset dstOffset numBitsToCopy invert m =
     Option.bind (copyNullMask srcNullEntries srcOffset (nm_data m) dstOffset numBitsToCopy invert)
       (\<lambda>(d, hasNull). if hasNull then Some (m\<lparr>nm_data := d, mayContainNulls := True\<rparr>, True)
                       else Some (m\<lparr>nm_data := d\<rparr>, False))"

definition NullMask_copyFrom ::
  "NullMask \<Rightarrow> nat \<Rightarrow> nat \<Rightarrow> nat \<Rightarrow> bool \<Rightarrow> NullMask \<Rightarrow> (NullMask \<times> bool) option" where
  "NullMask_copyFrom nullMask srcOffset dstOffset numBitsToCopy invert m =
     (if hasNoNullsGuarantee nullMask
      then Some (setNullFromRange dstOffset numBitsToCopy invert m, invert)
      else copyFromNullBits (nm_data nullMask) srcOffset dstOffset numBitsToCopy invert m)"

definition NullMask_resize :: "nat \<Rightarrow> NullMask \<Rightarrow> NullMask" where
  "NullMask_resize cap m =
     (let numNullEntries = (cap + NUM_BITS_PER_NULL_ENTRY - 1) div NUM_BITS_PER_NULL_ENTRY
      in m\<lparr>nm_data := write_at (replicate numNullEntries 0) 0 (nm_data m)\<rparr>)"

definition NullMask_or :: "NullMask \<Rightarrow> NullMask \<Rightarrow> NullMask" where
  "NullMask_or m other = m\<lparr>nm_data := map2 (OR) (nm_data m) (nm_data other)\<rparr>"

subsection \<open>The tables\<close>

lemma single_one_table: "NULL_BITMASKS_WITH_SINGLE_ONE = map (\<lambda>i. 2 ^ i) [0..<64]"
  by (simp add: NULL_BITMASKS_WITH_SINGLE_ONE_def upt_rec)

lemma single_zero_table: "NULL_BITMASKS_WITH_SINGLE_ZERO = map (\<lambda>i. - (2 ^ i) - 1) [0..<64]"
  by (simp add: NULL_BITMASKS_WITH_SINGLE_ZERO_def upt_rec)

lemma lower_table: "NULL_LOWER_MASKS = map (\<lambda>i. 2 ^ i - 1) [0..<65]"
  by (simp add: NULL_LOWER_MASKS_def upt_rec)

lemma high_table: "NULL_HIGH_MASKS = map (\<lambda>i. - (2 ^ (64 - i) - 1) - 1) [0..<65]"
  by (simp add: NULL_HIGH_MASKS_def upt_rec)

lemma bit_single_one [simp]:
  "i < 64 \<Longrightarrow> bit (NULL_BITMASKS_WITH_SINGLE_ONE ! i) j \<longleftrightarrow> j = i"
  by (auto simp: single_one_table bit_exp_iff)

lemma bit_single_zero [simp]:
  "i < 64 \<Longrightarrow> bit (NULL_BITMASKS_WITH_SINGLE_ZERO ! i) j \<longleftrightarrow> j < 64 \<and> j \<noteq> i"
  by (auto simp: single_zero_table bit_exp_iff bit_not_iff simp flip: not_eq_complement)

lemma bit_lower [simp]:
  "i \<le> 64 \<Longrightarrow> bit (NULL_LOWER_MASKS ! i) j \<longleftrightarrow> j < i"
  by (auto simp: lower_table bit_mask_iff less_Suc_eq_le simp flip: mask_eq_exp_minus_1
      simp del: upt_Suc)

lemma bit_high [simp]:
  "i \<le> 64 \<Longrightarrow> bit (NULL_HIGH_MASKS ! i) j \<longleftrightarrow> j < 64 \<and> 64 - i \<le> j"
  by (auto simp: high_table bit_mask_iff bit_not_iff less_Suc_eq_le
      simp flip: mask_eq_exp_minus_1 not_eq_complement simp del: upt_Suc)

lemmas null_bits = bit_and_iff bit_or_iff bit_not_iff bit_push_bit_iff bit_drop_bit_eq bit_xor_iff

subsection \<open>The bits of an array of entries\<close>

definition nbit :: "64 word list \<Rightarrow> nat \<Rightarrow> bool" where
  "nbit es p = bit (es ! (p div 64)) (p mod 64)"

lemma NUM_BITS_PER_NULL_ENTRY [simp]: "NUM_BITS_PER_NULL_ENTRY = 64"
  by (simp add: NUM_BITS_PER_NULL_ENTRY_def NUM_BITS_PER_NULL_ENTRY_LOG2_def)

lemma entry_shift [simp]:
  "drop_bit NUM_BITS_PER_NULL_ENTRY_LOG2 (p :: nat) = p div 64"
  "p - push_bit NUM_BITS_PER_NULL_ENTRY_LOG2 (p div 64) = p mod 64"
  by (simp_all add: NUM_BITS_PER_NULL_ENTRY_LOG2_def drop_bit_eq_div push_bit_eq_mult
      minus_div_mult_eq_mod)

lemma getNullEntryAndBitPos [simp]: "getNullEntryAndBitPos p = (p div 64, p mod 64)"
  by (simp add: getNullEntryAndBitPos_def Let_def)

lemma isNull_nbit: "NullEntries_isNull es p = nbit es p"
  by (simp add: NullEntries_isNull_def nbit_def single_one_table and_exp_eq_0_iff_not_bit)

lemma div_mod_eq_iff: "q div 64 = p div 64 \<Longrightarrow> q mod 64 = p mod 64 \<longleftrightarrow> q = (p :: nat)"
  by (metis div_mult_mod_eq)

lemma setNull_nbit:
  assumes "p div 64 < length es"
  shows "nbit (NullEntries_setNull es p b) q = (if q = p then b else nbit es q)"
  using assms div_mod_eq_iff [of q p]
  by (cases "q div 64 = p div 64")
    (auto simp: nbit_def NullEntries_setNull_def Let_def null_bits nth_list_update)

lemma length_setNull [simp]: "length (NullEntries_setNull es p b) = length es"
  by (simp add: NullEntries_setNull_def Let_def)

subsection \<open>Copying bits\<close>

lemma copyUnaligned_read:
  assumes "copyUnaligned_read entry rem srcE srcB dstE dstB = (e, n, srcE', srcB', dstE', dstB')"
    and "srcB < 64" "dstB < 64" "0 < rem"
  shows "bit e j \<longleftrightarrow> dstB \<le> j \<and> j < dstB + n \<and> bit entry (j + srcB - dstB)"
    and "0 < n" "n \<le> rem" "srcB + n \<le> 64" "dstB + n \<le> 64"
    and "n < rem \<Longrightarrow> srcE' * 64 + srcB' = srcE * 64 + srcB + n \<and> srcB' < 64"
    and "n < rem \<Longrightarrow> dstE' * 64 + dstB' = dstE * 64 + dstB + n \<and> dstB' < 64"
proof -
  have e: "j < 64" if "bit entry j" for j using that by (auto dest: bit_imp_le_length)
  consider "dstB < srcB" | "srcB < dstB" | "srcB = dstB" by linarith
  then have all: "(bit e j \<longleftrightarrow> dstB \<le> j \<and> j < dstB + n \<and> bit entry (j + srcB - dstB)) \<and>
    0 < n \<and> n \<le> rem \<and> srcB + n \<le> 64 \<and> dstB + n \<le> 64 \<and>
    (n < rem \<longrightarrow> srcE' * 64 + srcB' = srcE * 64 + srcB + n \<and> srcB' < 64 \<and>
      dstE' * 64 + dstB' = dstE * 64 + dstB + n \<and> dstB' < 64)"
  proof cases
    case 1
    with assms have n: "n = min (64 - srcB) rem" "srcE' = srcE + 1" "srcB' = 0" "dstE' = dstE"
      "dstB' = dstB + n"
      and e': "e = drop_bit (srcB - dstB) (entry AND NOT (NULL_HIGH_MASKS ! (64 - (srcB + n)))) AND
        NOT (NULL_LOWER_MASKS ! dstB)"
      by (auto simp: copyUnaligned_read_def Let_def)
    have nn: "srcB + n \<le> 64" using assms(2,3) n(1) by simp
    have "bit e j \<longleftrightarrow> dstB \<le> j \<and> j < dstB + n \<and> bit entry (j + srcB - dstB)"
      using 1 assms(2) nn e [of "srcB - dstB + j"]
      by (cases "dstB \<le> j") (auto simp: e' null_bits ac_simps)
    then show ?thesis using 1 assms(2-4) n by auto
  next
    case 2
    with assms have n: "n = min (64 - dstB) rem" "srcE' = srcE" "srcB' = srcB + n"
      "dstE' = dstE + 1" "dstB' = 0"
      and e': "e = push_bit (dstB - srcB) (entry AND NOT (NULL_LOWER_MASKS ! srcB)) AND
        NOT (NULL_HIGH_MASKS ! (64 - (dstB + n)))"
      by (auto simp: copyUnaligned_read_def Let_def)
    have nn: "dstB + n \<le> 64" using assms(2,3) n(1) by simp
    have "bit e j \<longleftrightarrow> dstB \<le> j \<and> j < dstB + n \<and> bit entry (j + srcB - dstB)"
      using 2 assms(3) nn e [of "j + srcB - dstB"]
      by (auto simp: e' null_bits ac_simps)
    then show ?thesis using 2 assms(2-4) n by auto
  next
    case 3
    with assms have n: "n = min (64 - dstB) rem" "srcE' = srcE + 1" "srcB' = 0"
      "dstE' = dstE + 1" "dstB' = 0"
      and e': "e = (entry AND NOT (NULL_LOWER_MASKS ! srcB)) AND
        NOT (NULL_HIGH_MASKS ! (64 - (dstB + n)))"
      by (auto simp: copyUnaligned_read_def Let_def)
    have nn: "dstB + n \<le> 64" using assms(2,3) n(1) by simp
    have "bit e j \<longleftrightarrow> dstB \<le> j \<and> j < dstB + n \<and> bit entry (j + srcB - dstB)"
      using 3 assms(3) nn e [of j] by (auto simp: e' null_bits)
    then show ?thesis using 3 assms(2-4) n by auto
  qed
  then show "bit e j \<longleftrightarrow> dstB \<le> j \<and> j < dstB + n \<and> bit entry (j + srcB - dstB)"
    and "0 < n" "n \<le> rem" "srcB + n \<le> 64" "dstB + n \<le> 64"
    and "n < rem \<Longrightarrow> srcE' * 64 + srcB' = srcE * 64 + srcB + n \<and> srcB' < 64"
    and "n < rem \<Longrightarrow> dstE' * 64 + dstB' = dstE * 64 + dstB + n \<and> dstB' < 64"
    by auto
qed


lemma copyUnaligned_step_bits:
  assumes dst: "dstE < length dst" and bits: "dstB < 64" "dstB + n \<le> 64"
    and e: "\<And>j. bit e j \<longleftrightarrow> dstB \<le> j \<and> j < dstB + n \<and> f j"
  shows "nbit (dst[dstE := (dst ! dstE AND NOT (push_bit dstB (NULL_LOWER_MASKS ! n))) OR e]) q =
    (if dstE * 64 + dstB \<le> q \<and> q < dstE * 64 + dstB + n then f (q - dstE * 64) else nbit dst q)"
proof (cases "q div 64 = dstE")
  case True
  then have q: "q = dstE * 64 + q mod 64" by (metis div_mult_mod_eq)
  define j where "j = q mod 64"
  have "j < 64" and q: "q = dstE * 64 + j" using q by (simp_all add: j_def)
  then show ?thesis using dst bits by (auto simp: nbit_def null_bits e)
next
  case False
  have "\<not> (dstE * 64 + dstB \<le> q \<and> q < dstE * 64 + dstB + n)"
    using False bits by auto
  with False show ?thesis by (auto simp: nbit_def)
qed

text \<open>One iteration of the loop, given what it reads.\<close>

lemma copyUnaligned_loop_step:
  assumes lt: "bitPos < numBits" and B: "srcB < 64" "dstB < 64" and dst: "dstE < length dst"
  obtains n srcE' srcB' dstE' dstB' dst1 h1 where
    "copyUnaligned_loop src numBits invert bitPos srcE srcB dstE dstB dst hasNull =
       copyUnaligned_loop src numBits invert (bitPos + n) srcE' srcB' dstE' dstB' dst1 h1"
    "0 < n" "bitPos + n \<le> numBits" "length dst1 = length dst"
    "bitPos + n < numBits \<Longrightarrow> srcE' * 64 + srcB' = srcE * 64 + srcB + n \<and> srcB' < 64"
    "bitPos + n < numBits \<Longrightarrow> dstE' * 64 + dstB' = dstE * 64 + dstB + n \<and> dstB' < 64"
    "\<And>q. nbit dst1 q = (if dstE * 64 + dstB \<le> q \<and> q < dstE * 64 + dstB + n
       then nbit src (srcE * 64 + srcB + (q - (dstE * 64 + dstB))) \<noteq> invert else nbit dst q)"
    "h1 \<longleftrightarrow> hasNull \<or> (\<exists>i < n. nbit src (srcE * 64 + srcB + i) \<noteq> invert)"
proof -
  let ?entry = "if invert then NOT (src ! srcE) else src ! srcE"
  obtain e n srcE' srcB' dstE' dstB' where
    rd: "copyUnaligned_read ?entry (numBits - bitPos) srcE srcB dstE dstB =
      (e, n, srcE', srcB', dstE', dstB')" by (metis prod_cases6)
  have "0 < numBits - bitPos" using lt by simp
  note R = copyUnaligned_read [OF rd B this]
  let ?dst = "dst[dstE := (dst ! dstE AND NOT (push_bit dstB (NULL_LOWER_MASKS ! n))) OR e]"
  have entry: "bit ?entry (j + srcB - dstB) = (nbit src (srcE * 64 + srcB + (j - dstB)) \<noteq> invert)"
    if "dstB \<le> j" "j < dstB + n" for j
  proof -
    have k: "j + srcB - dstB < 64" "srcE * 64 + srcB + (j - dstB) = srcE * 64 + (j + srcB - dstB)"
      using that R(4) by auto
    show ?thesis unfolding k(2) nbit_def using k(1) by (auto simp: bit_not_iff)
  qed
  have e: "bit e j \<longleftrightarrow> dstB \<le> j \<and> j < dstB + n \<and>
      (nbit src (srcE * 64 + srcB + (j - dstB)) \<noteq> invert)" for j
    using R(1) [of j] entry [of j] by blast
  have nz: "e \<noteq> 0 \<longleftrightarrow> (\<exists>i < n. nbit src (srcE * 64 + srcB + i) \<noteq> invert)"
  proof
    assume "e \<noteq> 0"
    then obtain j where "bit e j" by (auto simp: bit_eq_iff)
    with e [of j] show "\<exists>i < n. nbit src (srcE * 64 + srcB + i) \<noteq> invert"
      by (intro exI [of _ "j - dstB"]) auto
  next
    assume "\<exists>i < n. nbit src (srcE * 64 + srcB + i) \<noteq> invert"
    then obtain i where "i < n" "nbit src (srcE * 64 + srcB + i) \<noteq> invert" by blast
    with e [of "dstB + i"] have "bit e (dstB + i)" by simp
    then show "e \<noteq> 0" by auto
  qed
  show ?thesis
  proof (rule that)
    show "copyUnaligned_loop src numBits invert bitPos srcE srcB dstE dstB dst hasNull =
       copyUnaligned_loop src numBits invert (bitPos + n) srcE' srcB' dstE' dstB' ?dst (hasNull \<or> e \<noteq> 0)"
      using lt dst by (subst copyUnaligned_loop.simps) (auto simp: rd Let_def)
    show "0 < n" "bitPos + n \<le> numBits" using R(2,3) lt by auto
    show "bitPos + n < numBits \<Longrightarrow> srcE' * 64 + srcB' = srcE * 64 + srcB + n \<and> srcB' < 64"
      "bitPos + n < numBits \<Longrightarrow> dstE' * 64 + dstB' = dstE * 64 + dstB + n \<and> dstB' < 64"
      using R(6,7) by auto
    show "hasNull \<or> e \<noteq> 0 \<longleftrightarrow> hasNull \<or> (\<exists>i < n. nbit src (srcE * 64 + srcB + i) \<noteq> invert)"
      by (simp add: nz)
    show "nbit ?dst q = (if dstE * 64 + dstB \<le> q \<and> q < dstE * 64 + dstB + n
       then nbit src (srcE * 64 + srcB + (q - (dstE * 64 + dstB))) \<noteq> invert else nbit dst q)" for q
      using copyUnaligned_step_bits [OF dst B(2) R(5) e, of q] by simp
  qed simp
qed

lemma ex_range_split:
  "a \<le> b \<Longrightarrow> b \<le> (c :: nat) \<Longrightarrow> (\<exists>i. a \<le> i \<and> i < c \<and> P i) \<longleftrightarrow>
     (\<exists>i. a \<le> i \<and> i < b \<and> P i) \<or> (\<exists>i. b \<le> i \<and> i < c \<and> P i)"
  by (meson le_trans less_le_trans not_le)

lemma copyUnaligned_loop_correct:
  assumes "bitPos < numBits \<Longrightarrow> srcB < 64 \<and> srcE * 64 + srcB = srcOffset + bitPos"
    and "bitPos < numBits \<Longrightarrow> dstB < 64 \<and> dstE * 64 + dstB = dstOffset + bitPos"
    and "bitPos \<le> numBits" "dstOffset + numBits \<le> 64 * length dst"
  shows "\<exists>dst' h. copyUnaligned_loop src numBits invert bitPos srcE srcB dstE dstB dst hasNull = Some (dst', h) \<and>
    length dst' = length dst \<and>
    (\<forall>q. nbit dst' q = (if dstOffset + bitPos \<le> q \<and> q < dstOffset + numBits
       then nbit src (srcOffset + (q - dstOffset)) \<noteq> invert else nbit dst q)) \<and>
    (h \<longleftrightarrow> hasNull \<or> (\<exists>i. bitPos \<le> i \<and> i < numBits \<and> nbit src (srcOffset + i) \<noteq> invert))"
  using assms
proof (induction "numBits - bitPos" arbitrary: bitPos srcE srcB dstE dstB dst hasNull rule: less_induct)
  case less
  show ?case
  proof (cases "bitPos < numBits")
    case False
    with less.prems show ?thesis by (subst copyUnaligned_loop.simps) auto
  next
    case True
    with less.prems have B: "srcB < 64" "dstB < 64" and src: "srcE * 64 + srcB = srcOffset + bitPos"
      and dst: "dstE * 64 + dstB = dstOffset + bitPos" by auto
    have "dstE < length dst" using dst less.prems(4) True by linarith
    from copyUnaligned_loop_step [OF True B this, of src invert srcE hasNull]
    obtain n srcE' srcB' dstE' dstB' dst1 h1 where
      step: "copyUnaligned_loop src numBits invert bitPos srcE srcB dstE dstB dst hasNull =
        copyUnaligned_loop src numBits invert (bitPos + n) srcE' srcB' dstE' dstB' dst1 h1"
      and n: "0 < n" "bitPos + n \<le> numBits" "length dst1 = length dst"
      and pos: "bitPos + n < numBits \<Longrightarrow> srcE' * 64 + srcB' = srcE * 64 + srcB + n \<and> srcB' < 64"
        "bitPos + n < numBits \<Longrightarrow> dstE' * 64 + dstB' = dstE * 64 + dstB + n \<and> dstB' < 64"
      and bits: "\<And>q. nbit dst1 q = (if dstE * 64 + dstB \<le> q \<and> q < dstE * 64 + dstB + n
        then nbit src (srcE * 64 + srcB + (q - (dstE * 64 + dstB))) \<noteq> invert else nbit dst q)"
      and h1: "h1 \<longleftrightarrow> hasNull \<or> (\<exists>i < n. nbit src (srcE * 64 + srcB + i) \<noteq> invert)"
      by blast
    have "\<exists>dst' h. copyUnaligned_loop src numBits invert (bitPos + n) srcE' srcB' dstE' dstB' dst1 h1 = Some (dst', h) \<and>
      length dst' = length dst1 \<and>
      (\<forall>q. nbit dst' q = (if dstOffset + (bitPos + n) \<le> q \<and> q < dstOffset + numBits
         then nbit src (srcOffset + (q - dstOffset)) \<noteq> invert else nbit dst1 q)) \<and>
      (h \<longleftrightarrow> h1 \<or> (\<exists>i. bitPos + n \<le> i \<and> i < numBits \<and> nbit src (srcOffset + i) \<noteq> invert))"
      by (rule less.hyps) (use True n pos src dst less.prems(4) in auto)
    then obtain dst' h where run: "copyUnaligned_loop src numBits invert (bitPos + n) srcE' srcB' dstE' dstB' dst1 h1 = Some (dst', h)"
      and len: "length dst' = length dst1"
      and rest: "\<And>q. nbit dst' q = (if dstOffset + (bitPos + n) \<le> q \<and> q < dstOffset + numBits
         then nbit src (srcOffset + (q - dstOffset)) \<noteq> invert else nbit dst1 q)"
      and h: "h \<longleftrightarrow> h1 \<or> (\<exists>i. bitPos + n \<le> i \<and> i < numBits \<and> nbit src (srcOffset + i) \<noteq> invert)"
      by blast
    have "nbit dst' q = (if dstOffset + bitPos \<le> q \<and> q < dstOffset + numBits
       then nbit src (srcOffset + (q - dstOffset)) \<noteq> invert else nbit dst q)" for q
    proof (cases "dstOffset + bitPos \<le> q \<and> q < dstOffset + bitPos + n")
      case True
      then have "srcOffset + bitPos + (q - (dstOffset + bitPos)) = srcOffset + (q - dstOffset)" by auto
      with True bits [of q] rest [of q] n show ?thesis by (simp add: src dst)
    qed (use bits [of q] rest [of q] n in \<open>auto simp: src dst\<close>)
    moreover have "h \<longleftrightarrow> hasNull \<or> (\<exists>i. bitPos \<le> i \<and> i < numBits \<and> nbit src (srcOffset + i) \<noteq> invert)"
    proof -
      have "(\<exists>i < n. nbit src (srcOffset + bitPos + i) \<noteq> invert) \<longleftrightarrow>
          (\<exists>i. bitPos \<le> i \<and> i < bitPos + n \<and> nbit src (srcOffset + i) \<noteq> invert)"
        by (metis add.assoc le_add1 le_iff_add nat_add_left_cancel_less)
      then show ?thesis unfolding h h1 src using ex_range_split [OF le_add1 n(2)] by simp
    qed
    ultimately show ?thesis using step run len n(3) by auto
  qed
qed

text \<open>The specification of copying bits between two arrays.\<close>

definition bits_copied ::
  "64 word list \<Rightarrow> nat \<Rightarrow> 64 word list \<Rightarrow> nat \<Rightarrow> nat \<Rightarrow> bool \<Rightarrow> 64 word list \<Rightarrow> bool" where
  "bits_copied src srcOffset dst dstOffset numBits invert dst' \<longleftrightarrow> length dst' = length dst \<and>
    (\<forall>q < 64 * length dst. nbit dst' q = (if dstOffset \<le> q \<and> q < dstOffset + numBits
       then nbit src (srcOffset + (q - dstOffset)) \<noteq> invert else nbit dst q))"

lemma copyUnaligned_correct:
  assumes "dstOffset + numBits \<le> 64 * length dst"
  shows "\<exists>dst' h. copyUnaligned src srcOffset dst dstOffset numBits invert = Some (dst', h) \<and>
    bits_copied src srcOffset dst dstOffset numBits invert dst' \<and>
    (h \<longleftrightarrow> (\<exists>i < numBits. nbit src (srcOffset + i) \<noteq> invert))"
  using copyUnaligned_loop_correct [of 0 numBits "srcOffset mod 64" "srcOffset div 64" srcOffset
      "dstOffset mod 64" "dstOffset div 64" dstOffset dst src invert False] assms
  by (auto simp: copyUnaligned_def bits_copied_def)

subsection \<open>Copying whole bytes\<close>

lemma byte_index: "(q div 8) div 8 = q div 64" "8 * ((q div 8) mod 8) + q mod 8 = q mod (64 :: nat)"
proof -
  show "(q div 8) div 8 = q div 64" by (simp flip: div_mult2_eq)
  show "8 * ((q div 8) mod 8) + q mod 8 = q mod 64"
    using mod_mult2_eq [of q 8 8] by simp
qed

lemma bit_getByte: "bit (getByte es i) j \<longleftrightarrow> j < 8 \<and> nbit es (8 * i + j)"
proof (cases "j < 8")
  case True
  then have "(8 * i + j) div 64 = i div 8" "(8 * i + j) mod 64 = 8 * (i mod 8) + j"
    using byte_index [of "8 * i + j"] by simp_all
  with True show ?thesis by (simp add: getByte_def nbit_def bit_ucast_iff bit_drop_bit_eq)
qed (auto simp: getByte_def bit_ucast_iff)

lemma getByte_eq_0: "getByte es i \<noteq> 0 \<longleftrightarrow> (\<exists>j < 8. nbit es (8 * i + j))"
  by (auto simp: bit_eq_iff bit_getByte)

lemma ex_less_add: "(\<exists>i < m + n. P i) \<longleftrightarrow> (\<exists>i < m. P i) \<or> (\<exists>i < n. P (m + i :: nat))"
proof
  assume "\<exists>i < m + n. P i"
  then obtain i where "i < m + n" "P i" by blast
  then show "(\<exists>i < m. P i) \<or> (\<exists>i < n. P (m + i))"
  proof (cases "i < m")
    case False
    with \<open>i < m + n\<close> \<open>P i\<close> show ?thesis by (intro disjI2 exI [of _ "i - m"]) simp
  qed blast
next
  assume "(\<exists>i < m. P i) \<or> (\<exists>i < n. P (m + i))"
  then show "\<exists>i < m + n. P i" by (metis nat_add_left_cancel_less trans_less_add1)
qed

lemma getByte_range:
  "list_ex (\<lambda>i. getByte es i \<noteq> 0) [s..<s + b] \<longleftrightarrow> (\<exists>i < 8 * b. nbit es (8 * s + i))"
proof (induction b)
  case (Suc b)
  have "8 * Suc b = 8 * b + 8" by simp
  with Suc show ?case by (simp only: ex_less_add) (simp add: getByte_eq_0 ac_simps)
qed simp

lemma byte_pos: "r < 8 \<Longrightarrow> 8 * b \<le> 8 * a + r \<and> 8 * a + r - 8 * b < 8 \<longleftrightarrow> a = (b :: nat)"
  by presburger

lemma length_setByte [simp]: "length (setByte i b es) = length es"
  by (simp add: setByte_def)

lemma setByte_nbit:
  assumes "i div 8 < length es"
  shows "nbit (setByte i b es) q = (if q div 8 = i then bit b (q mod 8) else nbit es q)"
proof (cases "q div 64 = i div 8")
  case False
  then have "q div 8 \<noteq> i" using byte_index(1) [of q] by auto
  with False show ?thesis by (simp add: nbit_def setByte_def)
next
  case True
  define m where "m = q mod 64"
  have m: "m < 64" "8 * ((q div 8) mod 8) + q mod 8 = m" using byte_index(2) [of q] by (simp_all add: m_def)
  have eq: "q div 8 = i \<longleftrightarrow> (q div 8) mod 8 = i mod 8"
    using True byte_index(1) [of q] by (metis div_mult_mod_eq)
  have ff: "bit (0xff :: int) k \<longleftrightarrow> k < 8" for k
  proof -
    have "(0xff :: int) = mask 8" by (simp add: mask_eq_exp_minus_1)
    then show ?thesis by (simp only: bit_mask_iff) auto
  qed
  have b: "bit b k \<Longrightarrow> k < 8" for k by (auto dest: bit_imp_le_length)
  have "bit (setByte i b es ! (i div 8)) m \<longleftrightarrow>
      (if 8 * (i mod 8) \<le> m \<and> m - 8 * (i mod 8) < 8 then bit b (m - 8 * (i mod 8))
       else bit (es ! (i div 8)) m)"
    using assms m(1) b [of "m - 8 * (i mod 8)"]
    by (auto simp: setByte_def null_bits ff bit_ucast_iff)
  moreover have "8 * (i mod 8) \<le> m \<and> m - 8 * (i mod 8) < 8 \<longleftrightarrow> (q div 8) mod 8 = i mod 8"
    using byte_pos [of "q mod 8" "i mod 8" "(q div 8) mod 8"] m(2) by simp
  moreover have "(q div 8) mod 8 = i mod 8 \<Longrightarrow> m - 8 * (i mod 8) = q mod 8"
    using m(2) by auto
  ultimately show ?thesis using True eq by (simp add: nbit_def m_def)
qed

lemma length_memcpy_bytes [simp]: "length (memcpy_bytes src s d n dst) = length dst"
  by (induction src s d n dst rule: memcpy_bytes.induct) auto

lemma memcpy_bytes_nbit:
  "d + n \<le> 8 * length dst \<Longrightarrow> nbit (memcpy_bytes src s d n dst) q =
     (if 8 * d \<le> q \<and> q < 8 * (d + n) then nbit src (8 * s + (q - 8 * d)) else nbit dst q)"
proof (induction src s d n dst rule: memcpy_bytes.induct)
  case (2 src s d n dst)
  have d: "d div 8 < length dst" using "2.prems" by auto
  have IH: "nbit (memcpy_bytes src s d (Suc n) dst) q =
    (if 8 * Suc d \<le> q \<and> q < 8 * (Suc d + n) then nbit src (8 * Suc s + (q - 8 * Suc d))
     else nbit (setByte d (getByte src s) dst) q)"
    using 2 by simp
  show ?case
  proof (cases "q div 8 = d")
    case True
    then have "q = 8 * d + q mod 8" by (metis mult_div_mod_eq)
    then obtain j where j: "q = 8 * d + j" "j < 8" by (metis mod_less_divisor zero_less_numeral)
    then show ?thesis unfolding IH using d by (simp add: setByte_nbit bit_getByte)
  next
    case False
    then have "8 * d \<le> q \<longleftrightarrow> 8 * Suc d \<le> q" by auto
    with False show ?thesis unfolding IH using d by (auto simp: setByte_nbit)
  qed
qed auto

lemma memcpy_bytes_copied:
  assumes "d + n \<le> 8 * length dst"
  shows "bits_copied src (8 * s) dst (8 * d) (8 * n) False (memcpy_bytes src s d n dst)"
  using memcpy_bytes_nbit [OF assms, of src s] by (simp add: bits_copied_def)

text \<open>Two adjacent copies are one.\<close>

lemma bits_copied_seq:
  assumes 1: "bits_copied src s dst d m iv dst1" and 2: "bits_copied src (s + m) dst1 (d + m) k iv dst2"
  shows "bits_copied src s dst d (m + k) iv dst2"
proof -
  have len: "length dst1 = length dst" "length dst2 = length dst" using assms by (simp_all add: bits_copied_def)
  have "nbit dst2 q = (if d \<le> q \<and> q < d + (m + k) then nbit src (s + (q - d)) \<noteq> iv else nbit dst q)"
    if q: "q < 64 * length dst" for q
  proof (cases "d + m \<le> q \<and> q < d + m + k")
    case True
    then have "s + m + (q - (d + m)) = s + (q - d)" by auto
    with True 2 q len show ?thesis by (simp add: bits_copied_def)
  next
    case False
    with 2 q len have "nbit dst2 q = nbit dst1 q" by (auto simp: bits_copied_def)
    with 1 q False show ?thesis by (auto simp: bits_copied_def)
  qed
  with len show ?thesis by (simp add: bits_copied_def)
qed

lemma next_byte: "x + (8 - x mod 8) = 8 * (x div 8 + 1 :: nat)"
proof -
  have "x mod 8 \<le> 8" using mod_less_divisor [of 8 x] by linarith
  then have "x + (8 - x mod 8) = (x - x mod 8) + 8" by simp
  then show ?thesis by (simp add: minus_mod_eq_mult_div)
qed

text \<open>\<^verbatim>\<open>copyNullMask\<close> copies exactly the given bits, returns whether one of them is a null, and always
  returns, whichever way the two offsets are aligned.\<close>

lemma copyNullMask_correct:
  assumes fit: "dstOffset + numBits \<le> 64 * length dst"
  shows "\<exists>dst' h. copyNullMask src srcOffset dst dstOffset numBits invert = Some (dst', h) \<and>
    bits_copied src srcOffset dst dstOffset numBits invert dst' \<and>
    (h \<longleftrightarrow> (\<exists>i < numBits. nbit src (srcOffset + i) \<noteq> invert))"
proof (cases "\<not> invert \<and> srcOffset mod 8 = dstOffset mod 8 \<and> numBits \<ge> 8 \<and> numBits - srcOffset mod 8 \<ge> 8")
  case False
  then show ?thesis unfolding copyNullMask_def if_not_P [OF False] by (intro copyUnaligned_correct fit)
next
  case True
  define f where "f = 8 - srcOffset mod 8"
  define b where "b = (numBits - f) div 8"
  define l where "l = numBits - f - b * 8"
  have "f \<le> 8" "f \<le> numBits" using True by (auto simp: f_def)
  then have n: "numBits = f + 8 * b + l" using div_times_less_eq_dividend [of "numBits - f" 8]
    by (simp add: l_def b_def)
  define s where "s = (srcOffset + f) div 8"
  define d where "d = (dstOffset + f) div 8"
  have al: "8 * s = srcOffset + f" "8 * d = dstOffset + f"
    using next_byte [of srcOffset] next_byte [of dstOffset] True by (simp_all add: f_def s_def d_def)
  obtain dst1 h1 where c1: "copyUnaligned src srcOffset dst dstOffset f False = Some (dst1, h1)"
      "bits_copied src srcOffset dst dstOffset f False dst1"
      "h1 \<longleftrightarrow> (\<exists>i < f. nbit src (srcOffset + i))"
    using copyUnaligned_correct [of dstOffset f dst src srcOffset False] fit n by auto
  define dst2 where "dst2 = memcpy_bytes src s d b dst1"
  have len1: "length dst1 = length dst" using c1(2) by (simp add: bits_copied_def)
  have "bits_copied src (srcOffset + f) dst1 (dstOffset + f) (8 * b) False dst2"
    unfolding dst2_def al [symmetric] by (rule memcpy_bytes_copied) (use fit n al(2) len1 in linarith)
  from bits_copied_seq [OF c1(2) this]
  have c2: "bits_copied src srcOffset dst dstOffset (f + b * 8) False dst2" by (simp add: mult.commute)
  then have "dstOffset + (f + b * 8) + l \<le> 64 * length dst2"
    using fit n by (simp add: bits_copied_def)
  from copyUnaligned_correct [OF this, of src "srcOffset + (f + b * 8)" False]
  obtain dst3 h3 where c3: "copyUnaligned src (srcOffset + (f + b * 8)) dst2 (dstOffset + (f + b * 8)) l False =
        Some (dst3, h3)"
      "bits_copied src (srcOffset + (f + b * 8)) dst2 (dstOffset + (f + b * 8)) l False dst3"
      "h3 \<longleftrightarrow> (\<exists>i < l. nbit src (srcOffset + (f + b * 8) + i))" by auto
  let ?h2 = "h1 \<or> list_ex (\<lambda>i. getByte src i \<noteq> 0) [s..<s + b]"
  have run: "copyNullMask src srcOffset dst dstOffset numBits invert = Some (dst3, h3 \<or> ?h2)"
    unfolding copyNullMask_def if_P [OF True] Let_def
    by (simp only: f_def [symmetric] c1(1) Option.bind.simps prod.case s_def [symmetric]
        d_def [symmetric] b_def [symmetric] l_def [symmetric] dst2_def [symmetric] c3(1))
  have "(\<exists>i < numBits. nbit src (srcOffset + i)) \<longleftrightarrow> h1 \<or>
      (\<exists>i < 8 * b. nbit src (8 * s + i)) \<or> h3"
    unfolding n ex_less_add c1(3) c3(3) al(1) by (simp add: ac_simps)
  then have "h3 \<or> ?h2 \<longleftrightarrow> (\<exists>i < numBits. nbit src (srcOffset + i))" by (auto simp: getByte_range)
  moreover have "bits_copied src srcOffset dst dstOffset numBits False dst3"
    using bits_copied_seq [OF c2 c3(2)] n by (simp add: mult.commute)
  ultimately show ?thesis using run True by simp
qed

subsection \<open>Setting a range of bits\<close>

lemma row_le: "(k :: nat) < 64 \<Longrightarrow> r < 64 \<Longrightarrow> e * 64 + k \<le> d * 64 + r \<longleftrightarrow> e < d \<or> e = d \<and> k \<le> r"
  by linarith

lemma length_setNullRange [simp]: "length (setNullRange es offset n isNull) = length es"
  by (simp add: setNullRange_def Let_def)

lemma setNullRange_nbit:
  assumes fit: "offset + n \<le> 64 * length es" and q: "q < 64 * length es"
  shows "nbit (setNullRange es offset n isNull) q =
    (if offset \<le> q \<and> q < offset + n then isNull else nbit es q)"
proof (cases "n = 0")
  case False
  define e1 b1 e2 b2 e b where "e1 = offset div 64" "b1 = offset mod 64" "e2 = (offset + n) div 64"
    "b2 = (offset + n) mod 64" "e = q div 64" "b = q mod 64"
  note d = this
  have lt: "b1 < 64" "b2 < 64" "b < 64" "e < length es" using q by (auto simp: d)
  have eq: "offset = e1 * 64 + b1" "offset + n = e2 * 64 + b2" "q = e * 64 + b" by (simp_all add: d)
  have lo: "offset \<le> q \<longleftrightarrow> e1 < e \<or> e1 = e \<and> b1 \<le> b" unfolding eq by (rule row_le [OF lt(1,3)])
  have hi: "q < offset + n \<longleftrightarrow> e < e2 \<or> e = e2 \<and> b < b2"
  proof -
    have "offset + n \<le> q \<longleftrightarrow> e2 < e \<or> e2 = e \<and> b2 \<le> b"
      using row_le [OF lt(2,3), of e2 e] eq(2,3) by (simp only:)
    then show ?thesis by auto
  qed
  have le: "e1 < e2 \<or> e1 = e2 \<and> b1 < b2"
    using False row_le [OF lt(2,1), of e2 e1] eq by linarith
  have e2: "e2 < length es \<or> e2 = length es \<and> b2 = 0" using fit eq(2) by linarith
  have pos: "getNullEntryAndBitPos offset = (e1, b1)" "getNullEntryAndBitPos (offset + n) = (e2, b2)"
    by (simp_all add: d)
  have nb: "nbit es q = bit (es ! e) b" for es by (simp add: nbit_def d)
  consider (one) "e1 = e2" "b1 < b2" | (more) "e1 < e2" using le by linarith
  then show ?thesis
  proof cases
    case one
    then have len: "e1 < length es" using e2 by auto
    have upd: "setNullRange es offset n isNull = es[e1 := (if isNull
        then es ! e1 OR (NOT (NULL_LOWER_MASKS ! b1) AND NOT (NULL_HIGH_MASKS ! (64 - b2)))
        else es ! e1 AND (NULL_LOWER_MASKS ! b1 OR NULL_HIGH_MASKS ! (64 - b2)))]"
      using False by (simp add: setNullRange_def pos flip: one(1) del: getNullEntryAndBitPos)
    show ?thesis
    proof (cases "e = e1")
      case True
      then show ?thesis unfolding lo hi nb upd using lt len one by (simp add: null_bits) linarith
    next
      case False
      then show ?thesis unfolding lo hi nb upd using one by auto
    qed
  next
    case more
    define es0 where "es0 = (if e1 + 1 < e2 then fill_range es (e1 + 1) (e2 - (e1 + 1))
      (if isNull then ALL_NULL_ENTRY else NO_NULL_ENTRY) else es)"
    have es0: "length es0 = length es"
      "es0 ! e = (if e1 < e \<and> e < e2 then if isNull then ALL_NULL_ENTRY else NO_NULL_ENTRY else es ! e)"
      using lt(4) by (auto simp: es0_def nth_fill_range)
    have es01: "es0 ! e1 = es ! e1" using more e2 by (auto simp: es0_def nth_fill_range)
    define es1 where "es1 = es0[e1 := if isNull then es0 ! e1 OR NOT (NULL_LOWER_MASKS ! b1)
        else es0 ! e1 AND NULL_LOWER_MASKS ! b1]"
    have upd: "setNullRange es offset n isNull = (if 0 < b2 then es1[e2 := if isNull
        then es1 ! e2 OR NULL_LOWER_MASKS ! b2 else es1 ! e2 AND NOT (NULL_LOWER_MASKS ! b2)] else es1)"
      unfolding setNullRange_def pos es1_def es0_def using False more
      by (simp only: prod.case Let_def) simp
    have e1: "e1 < length es" using more e2 by auto
    have "bit (es1 ! e) b = (if e = e1 then b1 \<le> b \<and> isNull \<or> b < b1 \<and> bit (es ! e) b
        else if e1 < e \<and> e < e2 then isNull else bit (es ! e) b)"
      using lt e1 more by (auto simp: es1_def es0 es01 null_bits ALL_NULL_ENTRY_def NO_NULL_ENTRY_def nth_list_update)
    moreover have "bit (setNullRange es offset n isNull ! e) b =
        (if e = e2 \<and> b < b2 then isNull else bit (es1 ! e) b)"
      using lt e2 by (cases "e2 = e") (auto simp: upd null_bits es1_def es0(1))
    ultimately show ?thesis unfolding lo hi nb using more lt by auto
  qed
qed (auto simp: setNullRange_def)


subsection \<open>Minimum and maximum\<close>

text \<open>The comparison that follows the look at the first entry, when that holds a single value.\<close>

lemma getMinMax_rest:
  assumes n: "0 < numValues" and m: "nbit es 0 = m"
    and uni: "64 \<le> numValues \<Longrightarrow> (\<forall>j < 64. bit (es ! 0) j = m)"
  shows "(if list_ex (\<lambda>i. es ! i \<noteq> es ! 0) [0..<numValues div 64] then (False, True)
      else if list_ex (\<lambda>i. m \<noteq> NullEntries_isNull es i) [numValues div 64 * 64..<numValues] then (False, True)
      else (m, m)) = (\<forall>i < numValues. nbit es i, \<exists>i < numValues. nbit es i)"
  (is "(if ?A then _ else if ?B then _ else _) = _")
proof -
  have A: "?A \<longleftrightarrow> (\<exists>k < numValues div 64. es ! k \<noteq> es ! 0)" by (auto simp: list_ex_iff)
  have B: "?B \<longleftrightarrow> (\<exists>k. numValues div 64 * 64 \<le> k \<and> k < numValues \<and> m \<noteq> nbit es k)"
    by (auto simp: list_ex_iff isNull_nbit)
  show ?thesis
  proof (cases "\<exists>i < numValues. nbit es i \<noteq> m")
  case True
  then obtain i where i: "i < numValues" "nbit es i \<noteq> m" by blast
  have "(\<exists>k < numValues div 64. es ! k \<noteq> es ! 0) \<or>
      (\<exists>k. numValues div 64 * 64 \<le> k \<and> k < numValues \<and> m \<noteq> nbit es k)"
  proof (cases "i < numValues div 64 * 64")
    case True
    then have k: "i div 64 < numValues div 64" by (simp add: less_mult_imp_div_less)
    have "64 \<le> numValues" using True by (cases "numValues < 64") auto
    with uni i(2) have "es ! (i div 64) \<noteq> es ! 0" by (auto simp: nbit_def)
    with k show ?thesis by blast
  next
    case False
    with i show ?thesis by (intro disjI2 exI [of _ i]) auto
  qed
  then have "?A \<or> ?B" unfolding A B .
  moreover have "(\<forall>i < numValues. nbit es i) = False \<and> (\<exists>i < numValues. nbit es i) = True"
  proof (cases m)
    case True
    with i m n show ?thesis by blast
  next
    case False
    with i m n show ?thesis by blast
  qed
  ultimately show ?thesis by (cases ?A) (simp_all only: if_True if_False simp_thms)
next
  case False
  have same: "es ! k = es ! 0" if "k < numValues div 64" for k
  proof (rule bit_eqI)
    fix j assume "possible_bit TYPE(64 word) j"
    then have j: "j < 64" by (simp add: possible_bit_word)
    have k64: "k * 64 + j < numValues" "64 \<le> numValues" using that j by linarith+
    then have "nbit es (k * 64 + j) = m" using False by blast
    with uni [OF k64(2)] j show "bit (es ! k) j = bit (es ! 0) j" by (simp add: nbit_def)
  qed
  then have "\<not> ?A" unfolding A by blast
  moreover have "\<not> ?B" unfolding B using False by blast
  moreover have "(\<forall>i < numValues. nbit es i) = m \<and> (\<exists>i < numValues. nbit es i) = m"
    using False m n by metis
  ultimately show ?thesis by simp
qed
qed

text \<open>\<^verbatim>\<open>getMinMax\<close> returns the conjunction and the disjunction of the first \<^verbatim>\<open>numValues\<close> bits.\<close>

lemma getMinMax_correct:
  assumes n: "0 < numValues"
  shows "NullMask_getMinMax es numValues = (\<forall>i < numValues. nbit es i, \<exists>i < numValues. nbit es i)"
proof (cases "numValues \<ge> 64 \<and> es ! 0 \<noteq> 0 \<and> es ! 0 \<noteq> NOT 0")
  case True
  then have "\<exists>j < 64. bit (es ! 0) j" "\<exists>j < 64. \<not> bit (es ! 0) j"
    by (auto simp: bit_eq_iff bit_not_iff)
  then obtain j k where "j < 64" "bit (es ! 0) j" "k < 64" "\<not> bit (es ! 0) k" by blast
  then have "nbit es j" "\<not> nbit es k" "j < numValues" "k < numValues"
    using True by (auto simp: nbit_def)
  then have "(\<forall>i < numValues. nbit es i) = False" "(\<exists>i < numValues. nbit es i) = True" by blast+
  with True show ?thesis by (simp add: NullMask_getMinMax_def)
next
  case False
  show ?thesis
  proof (cases "64 \<le> numValues")
    case ge: True
    show ?thesis
    proof (cases "es ! 0 = 0")
      case True
      then have "nbit es 0 = False" "\<forall>j < 64. bit (es ! 0) j = False" by (simp_all add: nbit_def)
      then show ?thesis unfolding NullMask_getMinMax_def Let_def if_P [OF ge] if_P [OF True]
        by (intro getMinMax_rest n)
    next
      case nz: False
      with False ge have ones: "es ! 0 = NOT 0" by blast
      then have "nbit es 0 = True" "\<forall>j < 64. bit (es ! 0) j = True" by (simp_all add: nbit_def)
      then show ?thesis
        unfolding NullMask_getMinMax_def Let_def if_P [OF ge] if_not_P [OF nz] if_P [OF ones]
        by (intro getMinMax_rest n)
    qed
  next
    case lt: False
    then show ?thesis unfolding NullMask_getMinMax_def Let_def if_not_P [OF lt]
      by (intro getMinMax_rest n) (simp_all add: isNull_nbit)
  qed
qed

subsection \<open>Null mask objects\<close>

text \<open>The flag is an over-approximation: without it, the mask holds no null. A mask that promises to
  have no nulls may be skipped, so every operation has to keep this.\<close>

definition nm_wf :: "NullMask \<Rightarrow> bool" where
  "nm_wf m \<longleftrightarrow> (mayContainNulls m \<or> (\<forall>q < 64 * length (nm_data m). \<not> nbit (nm_data m) q))"

lemma nm_wf_new: "nm_wf (new_NullMask cap)"
  by (simp add: nm_wf_def new_NullMask_def nbit_def NO_NULL_ENTRY_def)

lemma nm_wf_setAllNonNull:
  "nm_wf m \<Longrightarrow> nm_wf (NullMask_setAllNonNull m) \<and>
     (\<forall>q < 64 * length (nm_data m). \<not> NullMask_isNull q (NullMask_setAllNonNull m))"
  by (auto simp: nm_wf_def NullMask_setAllNonNull_def NullMask_isNull_def isNull_nbit nbit_def
      NO_NULL_ENTRY_def)

lemma nm_wf_setAllNull: "nm_wf (NullMask_setAllNull m)"
  by (simp add: nm_wf_def NullMask_setAllNull_def)

lemma nm_wf_setNull:
  "nm_wf m \<Longrightarrow> p < 64 * length (nm_data m) \<Longrightarrow> nm_wf (NullMask_setNull p b m)"
  by (cases b) (auto simp: nm_wf_def NullMask_setNull_def setNull_nbit Let_def)

lemma nm_wf_setNullFromRange:
  "nm_wf m \<Longrightarrow> offset + n \<le> 64 * length (nm_data m) \<Longrightarrow> nm_wf (setNullFromRange offset n b m)"
  by (cases b) (auto simp: nm_wf_def setNullFromRange_def setNullRange_nbit Let_def)

lemma copyFromNullBits_correct:
  assumes "nm_wf m" "dstOffset + n \<le> 64 * length (nm_data m)"
  shows "\<exists>m' h. copyFromNullBits src srcOffset dstOffset n invert m = Some (m', h) \<and> nm_wf m' \<and>
    bits_copied src srcOffset (nm_data m) dstOffset n invert (nm_data m') \<and>
    (h \<longleftrightarrow> (\<exists>i < n. nbit src (srcOffset + i) \<noteq> invert))"
proof -
  obtain d h where c: "copyNullMask src srcOffset (nm_data m) dstOffset n invert = Some (d, h)"
    "bits_copied src srcOffset (nm_data m) dstOffset n invert d"
    "h \<longleftrightarrow> (\<exists>i < n. nbit src (srcOffset + i) \<noteq> invert)"
    using copyNullMask_correct [OF assms(2)] by blast
  have "\<not> nbit d q" if "\<not> h" "\<not> mayContainNulls m" "q < 64 * length d" for q
  proof (cases "dstOffset \<le> q \<and> q < dstOffset + n")
    case True
    then have "q - dstOffset < n" by auto
    with c(2,3) that True show ?thesis by (auto simp: bits_copied_def simp del: add_diff_assoc)
  next
    case False
    with assms(1) c(2) that show ?thesis by (auto simp: nm_wf_def bits_copied_def)
  qed
  then show ?thesis using c by (cases h) (auto simp: copyFromNullBits_def nm_wf_def)
qed

text \<open>\<^verbatim>\<open>copyFrom\<close> skips the bits of a mask that promises to hold no null; the result is the same.\<close>

lemma NullMask_copyFrom_correct:
  assumes "nm_wf m" "nm_wf src" "0 < n"
    and "dstOffset + n \<le> 64 * length (nm_data m)" "srcOffset + n \<le> 64 * length (nm_data src)"
  shows "\<exists>m' h. NullMask_copyFrom src srcOffset dstOffset n invert m = Some (m', h) \<and> nm_wf m' \<and>
    bits_copied (nm_data src) srcOffset (nm_data m) dstOffset n invert (nm_data m') \<and>
    (h \<longleftrightarrow> (\<exists>i < n. nbit (nm_data src) (srcOffset + i) \<noteq> invert))"
proof (cases "mayContainNulls src")
  case True
  with copyFromNullBits_correct [OF assms(1,4)] show ?thesis
    by (simp add: NullMask_copyFrom_def hasNoNullsGuarantee_def)
next
  case False
  with assms(2,5) have no: "\<not> nbit (nm_data src) (srcOffset + i)" if "i < n" for i
    using that by (auto simp: nm_wf_def)
  have "nm_data (setNullFromRange dstOffset n invert m) = setNullRange (nm_data m) dstOffset n invert"
    by (simp add: setNullFromRange_def Let_def)
  moreover have "\<not> nbit (nm_data src) (srcOffset + (q - dstOffset))"
    if "dstOffset \<le> q" "q < dstOffset + n" for q
    using that by (intro no) linarith
  ultimately have "bits_copied (nm_data src) srcOffset (nm_data m) dstOffset n invert
      (nm_data (setNullFromRange dstOffset n invert m))"
    using assms(4) by (simp add: bits_copied_def setNullRange_nbit del: add_diff_assoc)
  with False assms no nm_wf_setNullFromRange [OF assms(1,4)] show ?thesis
    by (auto simp: NullMask_copyFrom_def hasNoNullsGuarantee_def)
qed


text \<open>The in-place union of two masks does not touch the flag, so it can leave a mask that promises to
  hold no null with a null in it.\<close>

lemma NullMask_or_nbit:
  assumes "length (nm_data a) = length (nm_data b)" "q < 64 * length (nm_data a)"
  shows "nbit (nm_data (NullMask_or a b)) q = (nbit (nm_data a) q \<or> nbit (nm_data b) q)"
proof -
  have "q div 64 < length (nm_data a)" using assms(2) by auto
  with assms(1) show ?thesis by (simp add: nbit_def NullMask_or_def bit_or_iff)
qed

lemma NullMask_or_breaks_flag:
  assumes "\<not> mayContainNulls a" "length (nm_data a) = length (nm_data b)"
    and "q < 64 * length (nm_data a)" "nbit (nm_data b) q"
  shows "\<not> nm_wf (NullMask_or a b)"
  using NullMask_or_nbit [OF assms(2,3)] assms by (auto simp: nm_wf_def NullMask_or_def)

end
