(* ===== verification/Column_Chunk_Data.thy ===== *)
theory Column_Chunk_Data
  imports Sel_Vector Null_Mask
begin

text \<open>
  In-memory column chunks (\<^verbatim>\<open>src/src/storage/store/column_chunk_data.cpp\<close>): \<^verbatim>\<open>ColumnChunkData\<close>, the
  buffer of a fixed-size column, and \<^verbatim>\<open>NullChunkData\<close>, its bit-packed null column. The buffer holds
  one abstract value per position, for any type of values, instead of \<^verbatim>\<open>numBytesPerValue\<close> bytes; the
  null column is kept at the level of 64-bit entries. The subclasses for strings, lists and
  structs, the on-disk representation and compression are not modelled.
\<close>

datatype ResidencyState = IN_MEMORY | ON_DISK

record NullChunkData =
  nc_data :: "64 word list"
  nc_capacity :: nat
  nc_numValues :: nat
  mayHaveNullValue :: bool

record 'v ColumnChunkData =
  cc_residencyState :: ResidencyState
  cc_capacity :: nat
  cc_buffer :: "'v list"
  nullData :: "NullChunkData option"
  cc_numValues :: nat

text \<open>The part of a \<^verbatim>\<open>ValueVector\<close> that the chunks read and write.\<close>

record 'v ValueVector =
  vv_data :: "'v list"
  vv_nullMask :: NullMask

definition ValueVector_isNull :: "nat \<Rightarrow> 'v ValueVector \<Rightarrow> bool" where
  "ValueVector_isNull pos v = NullMask_isNull pos (vv_nullMask v)"

definition ValueVector_setNull :: "nat \<Rightarrow> bool \<Rightarrow> 'v ValueVector \<Rightarrow> 'v ValueVector" where
  "ValueVector_setNull pos isNull v = v\<lparr>vv_nullMask := NullMask_setNull pos isNull (vv_nullMask v)\<rparr>"

definition setNullFromBits ::
  "64 word list \<Rightarrow> nat \<Rightarrow> nat \<Rightarrow> nat \<Rightarrow> bool \<Rightarrow> 'v ValueVector \<Rightarrow> ('v ValueVector \<times> bool) result" where
  "setNullFromBits srcNullEntries srcOffset dstOffset numBitsToCopy invert v =
     rbind (returned (copyFromNullBits srcNullEntries srcOffset dstOffset numBitsToCopy invert
              (vv_nullMask v)))
       (\<lambda>(m, hasNull). Inr (v\<lparr>vv_nullMask := m\<rparr>, hasNull))"

subsection \<open>The null column\<close>

definition bool_buffer_size :: "nat \<Rightarrow> nat" where
  "bool_buffer_size cap = (cap + 63) div 64"

definition new_NullChunkData :: "nat \<Rightarrow> NullChunkData" where
  "new_NullChunkData cap = \<lparr>nc_data = replicate (bool_buffer_size cap) 0, nc_capacity = cap,
     nc_numValues = 0, mayHaveNullValue = False\<rparr>"

definition NullChunkData_isNull :: "nat \<Rightarrow> NullChunkData \<Rightarrow> bool" where
  "NullChunkData_isNull pos c = NullEntries_isNull (nc_data c) pos"

definition NullChunkData_setNull :: "nat \<Rightarrow> bool \<Rightarrow> NullChunkData \<Rightarrow> NullChunkData" where
  "NullChunkData_setNull pos isNull c =
     (let c1 = c\<lparr>nc_data := NullEntries_setNull (nc_data c) pos isNull\<rparr>;
          c2 = (if isNull then c1\<lparr>mayHaveNullValue := True\<rparr> else c1)
      in if pos \<ge> nc_numValues c2 then c2\<lparr>nc_numValues := pos + 1\<rparr> else c2)"

definition NullChunkData_copyFromBuffer ::
  "64 word list \<Rightarrow> nat \<Rightarrow> nat \<Rightarrow> nat \<Rightarrow> bool \<Rightarrow> NullChunkData \<Rightarrow> NullChunkData result" where
  "NullChunkData_copyFromBuffer srcBuffer srcOffset dstOffset numBits invert c =
     rbind (returned (copyNullMask srcBuffer srcOffset (nc_data c) dstOffset numBits invert))
       (\<lambda>(d, hasNull). Inr (if hasNull then c\<lparr>nc_data := d, mayHaveNullValue := True\<rparr>
                            else c\<lparr>nc_data := d\<rparr>))"

definition NullChunkData_append ::
  "NullChunkData \<Rightarrow> nat \<Rightarrow> nat \<Rightarrow> NullChunkData \<Rightarrow> NullChunkData result" where
  "NullChunkData_append other startOffsetInOtherChunk numValuesToAppend c =
     rbind (NullChunkData_copyFromBuffer (nc_data other) startOffsetInOtherChunk (nc_numValues c)
              numValuesToAppend False c)
       (\<lambda>c1. Inr (c1\<lparr>nc_numValues := nc_numValues c1 + numValuesToAppend\<rparr>))"

definition NullChunkData_write ::
  "NullChunkData \<Rightarrow> nat \<Rightarrow> nat \<Rightarrow> nat \<Rightarrow> NullChunkData \<Rightarrow> NullChunkData result" where
  "NullChunkData_write srcChunk srcOffsetInChunk dstOffsetInChunk numValuesToCopy c =
     (let c1 = (if dstOffsetInChunk + numValuesToCopy \<ge> nc_numValues c
                then c\<lparr>nc_numValues := dstOffsetInChunk + numValuesToCopy\<rparr> else c)
      in NullChunkData_copyFromBuffer (nc_data srcChunk) srcOffsetInChunk dstOffsetInChunk
           numValuesToCopy False c1)"

definition NullChunkData_resetToNoNull :: "NullChunkData \<Rightarrow> NullChunkData" where
  "NullChunkData_resetToNoNull c =
     c\<lparr>nc_data := map (\<lambda>_. 0) (nc_data c), mayHaveNullValue := False\<rparr>"

definition NullChunkData_resetToEmpty :: "NullChunkData \<Rightarrow> NullChunkData" where
  "NullChunkData_resetToEmpty c = (NullChunkData_resetToNoNull c)\<lparr>nc_numValues := 0\<rparr>"

definition NullChunkData_resetToAllNull :: "NullChunkData \<Rightarrow> NullChunkData" where
  "NullChunkData_resetToAllNull c =
     c\<lparr>nc_data := map (\<lambda>_. - 1) (nc_data c), mayHaveNullValue := True\<rparr>"

definition NullChunkData_resize :: "nat \<Rightarrow> NullChunkData \<Rightarrow> NullChunkData" where
  "NullChunkData_resize newCapacity c =
     (let c1 = (if newCapacity > nc_capacity c then c\<lparr>nc_capacity := newCapacity\<rparr> else c);
          n = bool_buffer_size newCapacity
      in if n > length (nc_data c1)
         then c1\<lparr>nc_data := write_at (replicate n 0) 0 (nc_data c1)\<rparr> else c1)"

subsection \<open>Column chunks\<close>

text \<open>The constructor allocates a zeroed buffer; \<open>zero\<close> is the value of zeroed bytes.\<close>

definition new_ColumnChunkData :: "'v \<Rightarrow> nat \<Rightarrow> bool \<Rightarrow> ResidencyState \<Rightarrow> 'v ColumnChunkData" where
  "new_ColumnChunkData zero cap hasNullData residency =
     \<lparr>cc_residencyState = residency, cc_capacity = cap, cc_buffer = replicate cap zero,
      nullData = (if hasNullData then Some (new_NullChunkData cap) else None), cc_numValues = 0\<rparr>"

definition ColumnChunkData_isNull :: "nat \<Rightarrow> 'v ColumnChunkData \<Rightarrow> bool" where
  "ColumnChunkData_isNull pos c =
     (case nullData c of None \<Rightarrow> False | Some n \<Rightarrow> NullChunkData_isNull pos n)"

definition ColumnChunkData_setValue :: "'v \<Rightarrow> nat \<Rightarrow> 'v ColumnChunkData \<Rightarrow> 'v ColumnChunkData" where
  "ColumnChunkData_setValue val pos c =
     (let c1 = c\<lparr>cc_buffer := (cc_buffer c)[pos := val]\<rparr>
      in if pos \<ge> cc_numValues c1 then c1\<lparr>cc_numValues := pos + 1\<rparr> else c1)"

definition resetToAllNull :: "'v ColumnChunkData \<Rightarrow> 'v ColumnChunkData" where
  "resetToAllNull c = c\<lparr>nullData := map_option NullChunkData_resetToAllNull (nullData c)\<rparr>"

definition resetToEmpty :: "'v \<Rightarrow> 'v ColumnChunkData \<Rightarrow> 'v ColumnChunkData" where
  "resetToEmpty zero c =
     c\<lparr>nullData := map_option NullChunkData_resetToEmpty (nullData c),
       cc_buffer := map (\<lambda>_. zero) (cc_buffer c), cc_numValues := 0\<rparr>"

text \<open>\<^verbatim>\<open>copyVectorToBuffer\<close>: one loop writes the values, a second one the null bits.\<close>

fun set_nulls :: "nat \<Rightarrow> bool list \<Rightarrow> NullChunkData \<Rightarrow> NullChunkData" where
  "set_nulls pos [] c = c"
| "set_nulls pos (b # bs) c = set_nulls (Suc pos) bs (NullChunkData_setNull pos b c)"

definition copyVectorToBuffer ::
  "'v ValueVector \<Rightarrow> nat \<Rightarrow> SelectionVector \<Rightarrow> 'v ColumnChunkData \<Rightarrow> 'v ColumnChunkData" where
  "copyVectorToBuffer vector startPosInChunk selVector c =
     (if isUnfiltered selVector
      then c\<lparr>cc_buffer := write_at (cc_buffer c) startPosInChunk
                 (take (selectedSize selVector) (vv_data vector)),
             nullData := map_option (set_nulls startPosInChunk
                 (map (\<lambda>i. ValueVector_isNull i vector) [0..<selectedSize selVector])) (nullData c)\<rparr>
      else c\<lparr>cc_buffer := write_at (cc_buffer c) startPosInChunk
                 (map (\<lambda>pos. vv_data vector ! pos) (getSelectedPositions selVector)),
             nullData := map_option (set_nulls startPosInChunk
                 (map (\<lambda>pos. ValueVector_isNull pos vector) (getSelectedPositions selVector)))
                 (nullData c)\<rparr>)"

definition ColumnChunkData_appendVector ::
  "'v ValueVector \<Rightarrow> SelectionVector \<Rightarrow> 'v ColumnChunkData \<Rightarrow> 'v ColumnChunkData" where
  "ColumnChunkData_appendVector vector selVector c =
     (let c1 = copyVectorToBuffer vector (cc_numValues c) selVector c
      in c1\<lparr>cc_numValues := cc_numValues c1 + selectedSize selVector\<rparr>)"

text \<open>The null column of \<^verbatim>\<open>other\<close>, whose absence the code does not check.\<close>

definition on_null_pair ::
  "(NullChunkData \<Rightarrow> NullChunkData \<Rightarrow> NullChunkData result) \<Rightarrow> 'v ColumnChunkData \<Rightarrow>
   'v ColumnChunkData \<Rightarrow> 'v ColumnChunkData result" where
  "on_null_pair f other c =
     (case nullData c of
        None \<Rightarrow> Inr c
      | Some n \<Rightarrow> (case nullData other of
            None \<Rightarrow> Inl NullPointer
          | Some m \<Rightarrow> rbind (f m n) (\<lambda>n'. Inr (c\<lparr>nullData := Some n'\<rparr>))))"

definition ColumnChunkData_append ::
  "'v ColumnChunkData \<Rightarrow> nat \<Rightarrow> nat \<Rightarrow> 'v ColumnChunkData \<Rightarrow> 'v ColumnChunkData result" where
  "ColumnChunkData_append other startPosInOtherChunk numValuesToAppend c =
     rbind (on_null_pair (\<lambda>m. NullChunkData_append m startPosInOtherChunk numValuesToAppend) other c)
       (\<lambda>c1. Inr (c1\<lparr>cc_buffer := write_at (cc_buffer c1) (cc_numValues c1)
                        (take numValuesToAppend (drop startPosInOtherChunk (cc_buffer other))),
                     cc_numValues := cc_numValues c1 + numValuesToAppend\<rparr>))"

definition ColumnChunkData_scan ::
  "nat \<Rightarrow> nat \<Rightarrow> nat \<Rightarrow> 'v ColumnChunkData \<Rightarrow> 'v ValueVector \<Rightarrow> 'v ValueVector result" where
  "ColumnChunkData_scan offset len posInOutputVector c output =
     rbind (case nullData c of
              None \<Rightarrow> Inr output
            | Some n \<Rightarrow> rbind (setNullFromBits (nc_data n) offset posInOutputVector len False output)
                          (\<lambda>(v, _). Inr v))
       (\<lambda>v. Inr (v\<lparr>vv_data := write_at (vv_data v) posInOutputVector
                       (take len (drop offset (cc_buffer c)))\<rparr>))"

definition ColumnChunkData_lookup ::
  "nat \<Rightarrow> nat \<Rightarrow> 'v ColumnChunkData \<Rightarrow> 'v ValueVector \<Rightarrow> 'v ValueVector" where
  "ColumnChunkData_lookup offsetInChunk posInOutputVector c output =
     (let v = ValueVector_setNull posInOutputVector (ColumnChunkData_isNull offsetInChunk c) output
      in if \<not> ValueVector_isNull posInOutputVector v
         then v\<lparr>vv_data := (vv_data v)[posInOutputVector := cc_buffer c ! offsetInChunk]\<rparr>
         else v)"

definition ColumnChunkData_writeVector ::
  "'v ValueVector \<Rightarrow> nat \<Rightarrow> nat \<Rightarrow> 'v ColumnChunkData \<Rightarrow> 'v ColumnChunkData" where
  "ColumnChunkData_writeVector vector offsetInVector offsetInChunk c =
     (let c1 = c\<lparr>nullData := map_option
                (NullChunkData_setNull offsetInChunk (ValueVector_isNull offsetInVector vector))
                (nullData c)\<rparr>;
          c2 = (if offsetInChunk \<ge> cc_numValues c1 then c1\<lparr>cc_numValues := offsetInChunk + 1\<rparr> else c1)
      in if \<not> ValueVector_isNull offsetInVector vector
         then c2\<lparr>cc_buffer := (cc_buffer c2)[offsetInChunk := vv_data vector ! offsetInVector]\<rparr>
         else c2)"

definition ColumnChunkData_write ::
  "'v ColumnChunkData \<Rightarrow> nat \<Rightarrow> nat \<Rightarrow> nat \<Rightarrow> 'v ColumnChunkData \<Rightarrow> 'v ColumnChunkData result" where
  "ColumnChunkData_write srcChunk srcOffsetInChunk dstOffsetInChunk numValuesToCopy c =
     (let c1 = (if dstOffsetInChunk + numValuesToCopy \<ge> cc_numValues c
                then c\<lparr>cc_numValues := dstOffsetInChunk + numValuesToCopy\<rparr> else c);
          c2 = c1\<lparr>cc_buffer := write_at (cc_buffer c1) dstOffsetInChunk
                    (take numValuesToCopy (drop srcOffsetInChunk (cc_buffer srcChunk)))\<rparr>
      in on_null_pair (\<lambda>m. NullChunkData_write m srcOffsetInChunk dstOffsetInChunk numValuesToCopy)
           srcChunk c2)"

text \<open>\<^verbatim>\<open>copy\<close> pads with nulls up to the destination, then appends.\<close>

definition ColumnChunkData_copy ::
  "'v ColumnChunkData \<Rightarrow> nat \<Rightarrow> nat \<Rightarrow> nat \<Rightarrow> 'v ColumnChunkData \<Rightarrow> 'v ColumnChunkData result" where
  "ColumnChunkData_copy srcChunk srcOffsetInChunk dstOffsetInChunk numValuesToCopy c =
     (let c1 = (case nullData c of
                  Some n \<Rightarrow> c\<lparr>nullData := Some (set_nulls (cc_numValues c)
                                (replicate (dstOffsetInChunk - cc_numValues c) True) n),
                             cc_numValues := max (cc_numValues c) dstOffsetInChunk\<rparr>
                | None \<Rightarrow> if cc_numValues c < dstOffsetInChunk
                          then c\<lparr>cc_numValues := dstOffsetInChunk\<rparr> else c)
      in ColumnChunkData_append srcChunk srcOffsetInChunk numValuesToCopy c1)"

definition ColumnChunkData_resize :: "'v \<Rightarrow> nat \<Rightarrow> 'v ColumnChunkData \<Rightarrow> 'v ColumnChunkData" where
  "ColumnChunkData_resize zero newCapacity c =
     (let c1 = (if newCapacity > cc_capacity c then c\<lparr>cc_capacity := newCapacity\<rparr> else c);
          c2 = (if newCapacity > length (cc_buffer c1)
                then c1\<lparr>cc_buffer := write_at (replicate newCapacity zero) 0 (cc_buffer c1)\<rparr> else c1)
      in c2\<lparr>nullData := map_option (NullChunkData_resize newCapacity) (nullData c2)\<rparr>)"

definition ColumnChunkData_setNumValues :: "nat \<Rightarrow> 'v ColumnChunkData \<Rightarrow> 'v ColumnChunkData" where
  "ColumnChunkData_setNumValues n c =
     c\<lparr>cc_numValues := n, nullData := map_option (\<lambda>m. m\<lparr>nc_numValues := n\<rparr>) (nullData c)\<rparr>"

definition numValuesSanityCheck :: "'v ColumnChunkData \<Rightarrow> bool" where
  "numValuesSanityCheck c =
     (case nullData c of Some n \<Rightarrow> cc_numValues c = nc_numValues n
      | None \<Rightarrow> cc_numValues c \<le> cc_capacity c)"

subsection \<open>The values of a chunk\<close>

definition nc_wf :: "nat \<Rightarrow> NullChunkData \<Rightarrow> bool" where
  "nc_wf cap n \<longleftrightarrow> nc_capacity n = cap \<and> length (nc_data n) = bool_buffer_size cap \<and>
     (mayHaveNullValue n \<or> (\<forall>q < 64 * length (nc_data n). \<not> nbit (nc_data n) q))"

definition cc_wf :: "'v ColumnChunkData \<Rightarrow> bool" where
  "cc_wf c \<longleftrightarrow> length (cc_buffer c) = cc_capacity c \<and> cc_numValues c \<le> cc_capacity c \<and>
     (case nullData c of None \<Rightarrow> True
      | Some n \<Rightarrow> nc_wf (cc_capacity c) n \<and> nc_numValues n = cc_numValues c)"

definition cell :: "'v ColumnChunkData \<Rightarrow> nat \<Rightarrow> 'v option" where
  "cell c i = (if ColumnChunkData_isNull i c then None else Some (cc_buffer c ! i))"

definition column_values :: "'v ColumnChunkData \<Rightarrow> 'v option list" where
  "column_values c = map (cell c) [0..<cc_numValues c]"

definition vector_cell :: "'v ValueVector \<Rightarrow> nat \<Rightarrow> 'v option" where
  "vector_cell v i = (if ValueVector_isNull i v then None else Some (vv_data v ! i))"

lemma length_column_values [simp]: "length (column_values c) = cc_numValues c"
  by (simp add: column_values_def)

lemma nth_column_values [simp]: "i < cc_numValues c \<Longrightarrow> column_values c ! i = cell c i"
  by (simp add: column_values_def)

lemma bool_buffer_size_le: "cap \<le> 64 * bool_buffer_size cap"
proof -
  have "(cap + 63) mod 64 + 64 * bool_buffer_size cap = cap + 63" by (simp add: bool_buffer_size_def)
  moreover have "(cap + 63) mod 64 \<le> 63" by simp
  ultimately show ?thesis by linarith
qed

lemma nc_wf_fit: "nc_wf cap n \<Longrightarrow> p \<le> cap \<Longrightarrow> p \<le> 64 * length (nc_data n)"
  using bool_buffer_size_le [of cap] by (simp add: nc_wf_def)

lemma nc_wf_new: "nc_wf cap (new_NullChunkData cap)"
  by (simp add: nc_wf_def new_NullChunkData_def nbit_def)

lemma cc_wf_new: "cc_wf (new_ColumnChunkData zero cap hasNull res)"
  by (simp add: cc_wf_def new_ColumnChunkData_def nc_wf_new) (simp add: new_NullChunkData_def)

lemma column_values_new [simp]: "column_values (new_ColumnChunkData zero cap hasNull res) = []"
  by (simp add: column_values_def new_ColumnChunkData_def)

subsection \<open>Writing null bits\<close>

lemma NullChunkData_setNull:
  assumes "nc_wf cap n" "p < cap"
  shows "nc_wf cap (NullChunkData_setNull p b n)"
    and "NullChunkData_isNull q (NullChunkData_setNull p b n) =
      (if q = p then b else NullChunkData_isNull q n)"
    and "nc_numValues (NullChunkData_setNull p b n) = max (nc_numValues n) (Suc p)"
proof -
  have p: "p div 64 < length (nc_data n)" using nc_wf_fit [OF assms(1), of "Suc p"] assms(2) by auto
  have d: "nc_data (NullChunkData_setNull p b n) = NullEntries_setNull (nc_data n) p b"
    by (simp add: NullChunkData_setNull_def Let_def)
  show "NullChunkData_isNull q (NullChunkData_setNull p b n) =
      (if q = p then b else NullChunkData_isNull q n)"
    by (simp add: NullChunkData_isNull_def d isNull_nbit setNull_nbit [OF p])
  show "nc_numValues (NullChunkData_setNull p b n) = max (nc_numValues n) (Suc p)"
    by (auto simp: NullChunkData_setNull_def Let_def)
  have "mayHaveNullValue (NullChunkData_setNull p b n) \<longleftrightarrow> b \<or> mayHaveNullValue n"
    "nc_capacity (NullChunkData_setNull p b n) = nc_capacity n"
    by (auto simp: NullChunkData_setNull_def Let_def)
  with assms(1) show "nc_wf cap (NullChunkData_setNull p b n)"
    by (auto simp: nc_wf_def d setNull_nbit [OF p])
qed

lemma set_nulls:
  assumes "nc_wf cap n" "p + length bs \<le> cap"
  shows "nc_wf cap (set_nulls p bs n) \<and>
    NullChunkData_isNull q (set_nulls p bs n) =
      (if p \<le> q \<and> q < p + length bs then bs ! (q - p) else NullChunkData_isNull q n) \<and>
    (p \<le> nc_numValues n \<longrightarrow> nc_numValues (set_nulls p bs n) = max (nc_numValues n) (p + length bs))"
  using assms
proof (induction p bs n rule: set_nulls.induct)
  case (2 pos b bs c)
  have p: "pos < cap" using "2.prems" by simp
  note n = NullChunkData_setNull [OF "2.prems"(1) p, where b = b]
  have "nc_wf cap (set_nulls (Suc pos) bs (NullChunkData_setNull pos b c)) \<and>
    NullChunkData_isNull q (set_nulls (Suc pos) bs (NullChunkData_setNull pos b c)) =
      (if Suc pos \<le> q \<and> q < Suc pos + length bs then bs ! (q - Suc pos)
       else NullChunkData_isNull q (NullChunkData_setNull pos b c)) \<and>
    (Suc pos \<le> nc_numValues (NullChunkData_setNull pos b c) \<longrightarrow>
      nc_numValues (set_nulls (Suc pos) bs (NullChunkData_setNull pos b c)) =
      max (nc_numValues (NullChunkData_setNull pos b c)) (Suc pos + length bs))"
    by (rule 2) (use n(1) "2.prems" in auto)
  then show ?case by (cases "q = pos") (auto simp: n(2,3) nth_Cons' Suc_diff_Suc not_le)
qed auto

subsection \<open>Appending\<close>

text \<open>Two chunks of the same column either both have a null column or both have none.\<close>

lemma ColumnChunkData_appendVector_values:
  assumes wf: "cc_wf c" and sv: "sv_wf sel"
    and pos: "\<forall>p \<in> set (getSelectedPositions sel). p < length (vv_data v)"
    and fit: "cc_numValues c + selectedSize sel \<le> cc_capacity c"
    and nulls: "nullData c = None \<Longrightarrow> \<forall>p \<in> set (getSelectedPositions sel). \<not> ValueVector_isNull p v"
  shows "cc_wf (ColumnChunkData_appendVector v sel c) \<and>
    column_values (ColumnChunkData_appendVector v sel c) =
      column_values c @ map (vector_cell v) (getSelectedPositions sel)"
proof -
  let ?k = "selectedSize sel" and ?s = "cc_numValues c" and ?ps = "getSelectedPositions sel"
  have len: "length ?ps = ?k" using sv by (auto simp: getSelectedPositions_def sv_wf_def INCREMENTAL_SELECTED_POS_def)
  have vals: "copyVectorToBuffer v ?s sel c =
    c\<lparr>cc_buffer := write_at (cc_buffer c) ?s (map (\<lambda>p. vv_data v ! p) ?ps),
      nullData := map_option (set_nulls ?s (map (\<lambda>p. ValueVector_isNull p v) ?ps)) (nullData c)\<rparr>"
  proof (cases "isUnfiltered sel")
    case True
    with sv have ps: "?ps = [0..<?k]" by (simp add: getSelectedPositions_unfiltered)
    with pos have "?k \<le> length (vv_data v)" by (cases ?k) auto
    then have "take ?k (vv_data v) = map (\<lambda>p. vv_data v ! p) [0..<?k]"
      by (intro nth_equalityI) auto
    with True ps show ?thesis by (simp add: copyVectorToBuffer_def)
  qed (simp add: copyVectorToBuffer_def)
  let ?c = "ColumnChunkData_appendVector v sel c"
  have c': "cc_buffer ?c = write_at (cc_buffer c) ?s (map (\<lambda>p. vv_data v ! p) ?ps)"
    "nullData ?c = map_option (set_nulls ?s (map (\<lambda>p. ValueVector_isNull p v) ?ps)) (nullData c)"
    "cc_numValues ?c = ?s + ?k" "cc_capacity ?c = cc_capacity c"
    by (simp_all add: ColumnChunkData_appendVector_def vals)
  have null: "ColumnChunkData_isNull q ?c =
      (if ?s \<le> q \<and> q < ?s + ?k then ValueVector_isNull (?ps ! (q - ?s)) v else ColumnChunkData_isNull q c)" for q
  proof (cases "nullData c")
    case None
    have "getSelectedPositions sel ! (q - ?s) \<in> set ?ps" if "?s \<le> q" "q < ?s + ?k"
      using that len by (intro nth_mem) auto
    with None nulls show ?thesis by (auto simp: ColumnChunkData_isNull_def c')
  next
    case (Some n)
    with wf have "nc_wf (cc_capacity c) n" by (simp add: cc_wf_def)
    from set_nulls [OF this, of ?s "map (\<lambda>p. ValueVector_isNull p v) ?ps" q] fit len Some
    show ?thesis by (auto simp: ColumnChunkData_isNull_def c')
  qed
  have "cc_wf ?c"
  proof (cases "nullData c")
    case None
    with wf fit show ?thesis by (simp add: cc_wf_def c')
  next
    case (Some n)
    with wf have n: "nc_wf (cc_capacity c) n" "nc_numValues n = ?s" by (simp_all add: cc_wf_def)
    from set_nulls [OF n(1), of ?s "map (\<lambda>p. ValueVector_isNull p v) ?ps"] fit len Some n(2) wf
    show ?thesis by (simp add: cc_wf_def c')
  qed
  moreover have "column_values ?c = column_values c @ map (vector_cell v) ?ps"
  proof (rule nth_equalityI)
    fix i assume i: "i < length (column_values ?c)"
    then have ib: "i < length (cc_buffer c)" using c'(3) fit wf by (simp add: cc_wf_def)
    show "column_values ?c ! i = (column_values c @ map (vector_cell v) ?ps) ! i"
    proof (cases "i < ?s")
      case True
      with i ib null [of i] show ?thesis by (simp add: nth_append cell_def c'(1) nth_write_at)
    next
      case False
      with i ib null [of i] len c'(3) show ?thesis
        by (simp add: nth_append cell_def c'(1) nth_write_at vector_cell_def)
    qed
  qed (simp add: c' len)
  ultimately show ?thesis by blast
qed

lemma NullChunkData_copyFromBuffer:
  assumes "nc_wf cap n" "d + k \<le> cap"
  shows "\<exists>n'. NullChunkData_copyFromBuffer src s d k False n = Inr n' \<and> nc_wf cap n' \<and>
    nc_numValues n' = nc_numValues n \<and>
    (\<forall>q < cap. NullChunkData_isNull q n' =
       (if d \<le> q \<and> q < d + k then nbit src (s + (q - d)) else NullChunkData_isNull q n))"
proof -
  have fit: "d + k \<le> 64 * length (nc_data n)" by (rule nc_wf_fit [OF assms])
  obtain d' h where c: "copyNullMask src s (nc_data n) d k False = Some (d', h)"
    "bits_copied src s (nc_data n) d k False d'" "h \<longleftrightarrow> (\<exists>i < k. nbit src (s + i))"
    using copyNullMask_correct [OF fit, of src s False] by auto
  have "\<not> nbit d' q" if "\<not> h" "\<not> mayHaveNullValue n" "q < 64 * length d'" for q
  proof (cases "d \<le> q \<and> q < d + k")
    case True
    then have "q - d < k" by auto
    with c(2,3) that True show ?thesis by (auto simp: bits_copied_def simp del: add_diff_assoc)
  next
    case False
    with assms(1) c(2) that show ?thesis by (auto simp: nc_wf_def bits_copied_def)
  qed
  moreover have "q < 64 * length (nc_data n)" if "q < cap" for q
    using nc_wf_fit [OF assms(1), of "Suc q"] that by simp
  ultimately show ?thesis using c assms(1)
    by (cases h) (auto simp: NullChunkData_copyFromBuffer_def nc_wf_def bits_copied_def
        NullChunkData_isNull_def isNull_nbit simp del: add_diff_assoc)
qed

definition same_nulls :: "'v ColumnChunkData \<Rightarrow> 'v ColumnChunkData \<Rightarrow> bool" where
  "same_nulls c d \<longleftrightarrow> (nullData c = None \<longleftrightarrow> nullData d = None)"

lemma ColumnChunkData_append_values:
  assumes wf: "cc_wf c" "cc_wf other" "same_nulls c other"
    and rng: "s + k \<le> cc_numValues other" and fit: "cc_numValues c + k \<le> cc_capacity c"
  shows "\<exists>c'. ColumnChunkData_append other s k c = Inr c' \<and> cc_wf c' \<and> cc_capacity c' = cc_capacity c \<and>
    same_nulls c' c \<and> column_values c' = column_values c @ take k (drop s (column_values other))"
proof -
  let ?n = "cc_numValues c"
  obtain c1 where c1: "on_null_pair (\<lambda>m. NullChunkData_append m s k) other c = Inr c1"
    "cc_buffer c1 = cc_buffer c" "cc_numValues c1 = ?n" "cc_capacity c1 = cc_capacity c"
    "same_nulls c1 c" "case nullData c1 of None \<Rightarrow> True
      | Some n \<Rightarrow> nc_wf (cc_capacity c) n \<and> nc_numValues n = ?n + k"
    "\<And>q. q < cc_capacity c \<Longrightarrow> ColumnChunkData_isNull q c1 = (if ?n \<le> q \<and> q < ?n + k
      then ColumnChunkData_isNull (s + (q - ?n)) other else ColumnChunkData_isNull q c)"
  proof (cases "nullData c")
    case None
    with wf(3) have "nullData other = None" by (simp add: same_nulls_def)
    with None show ?thesis
      by (intro that [of c]) (simp_all add: on_null_pair_def same_nulls_def ColumnChunkData_isNull_def)
  next
    case (Some n)
    with wf(3) obtain m where m: "nullData other = Some m" by (auto simp: same_nulls_def)
    from Some wf(1) have n: "nc_wf (cc_capacity c) n" "nc_numValues n = ?n" by (simp_all add: cc_wf_def)
    from NullChunkData_copyFromBuffer [OF n(1) fit, of "nc_data m" s] n(2) obtain n'
      where n': "NullChunkData_append m s k n = Inr (n'\<lparr>nc_numValues := ?n + k\<rparr>)"
        "nc_wf (cc_capacity c) n'" "\<And>q. q < cc_capacity c \<Longrightarrow> NullChunkData_isNull q n' =
         (if ?n \<le> q \<and> q < ?n + k then NullChunkData_isNull (s + (q - ?n)) m else NullChunkData_isNull q n)"
      by (auto simp: NullChunkData_append_def NullChunkData_isNull_def isNull_nbit simp del: add_diff_assoc)
    let ?c = "c\<lparr>nullData := Some (n'\<lparr>nc_numValues := ?n + k\<rparr>)\<rparr>"
    show ?thesis
    proof (rule that [of ?c])
      show "on_null_pair (\<lambda>m. NullChunkData_append m s k) other c = Inr ?c"
        by (simp add: on_null_pair_def Some m n'(1))
      show "ColumnChunkData_isNull q ?c = (if ?n \<le> q \<and> q < ?n + k
          then ColumnChunkData_isNull (s + (q - ?n)) other else ColumnChunkData_isNull q c)"
        if "q < cc_capacity c" for q
        using n'(3) [OF that] by (simp add: ColumnChunkData_isNull_def Some m NullChunkData_isNull_def
            del: add_diff_assoc)
      show "case nullData ?c of None \<Rightarrow> True
          | Some n \<Rightarrow> nc_wf (cc_capacity c) n \<and> nc_numValues n = ?n + k"
        using n'(2) by (auto simp: nc_wf_def)
    qed (simp_all add: same_nulls_def Some)
  qed
  let ?vals = "take k (drop s (cc_buffer other))"
  let ?c = "c1\<lparr>cc_buffer := write_at (cc_buffer c1) ?n ?vals, cc_numValues := ?n + k\<rparr>"
  have ob: "length ?vals = k" using rng wf(2) by (auto simp: cc_wf_def)
  have null: "ColumnChunkData_isNull q (c1\<lparr>cc_buffer := b, cc_numValues := m\<rparr>) =
      ColumnChunkData_isNull q c1" for q b m
    by (simp add: ColumnChunkData_isNull_def)
  have "column_values ?c = column_values c @ take k (drop s (column_values other))"
  proof (rule nth_equalityI)
    show "length (column_values ?c) = length (column_values c @ take k (drop s (column_values other)))"
      using rng by simp
    fix i assume "i < length (column_values ?c)"
    then have i: "i < ?n + k" by simp
    then have ib: "i < length (cc_buffer c)" "i < cc_capacity c" using fit wf(1) by (simp_all add: cc_wf_def)
    show "column_values ?c ! i = (column_values c @ take k (drop s (column_values other))) ! i"
    proof (cases "i < ?n")
      case True
      with i ib c1(2,7) show ?thesis by (simp add: nth_append cell_def null nth_write_at)
    next
      case False
      then have j: "s + (i - ?n) < cc_numValues other" "i - ?n < k" using i rng by auto
      with False i ib c1(2,7) ob wf(2) show ?thesis
        by (simp add: nth_append cell_def null nth_write_at cc_wf_def del: add_diff_assoc)
    qed
  qed
  moreover have "cc_wf ?c" using c1 fit wf(1) by (auto simp: cc_wf_def split: option.splits)
  moreover have "ColumnChunkData_append other s k c = Inr ?c"
    using c1(1,3) by (simp add: ColumnChunkData_append_def)
  moreover have "same_nulls ?c c" using c1(5) by (simp add: same_nulls_def)
  ultimately show ?thesis using c1(4) by auto
qed

subsection \<open>Scanning, looking up and truncating\<close>

text \<open>Scanning a range of rows writes their values and null bits to the output vector and leaves the
  other positions of it as they are.\<close>

lemma ColumnChunkData_scan_values:
  assumes wf: "cc_wf c" and rng: "offset + k \<le> cc_numValues c"
    and out: "nm_wf (vv_nullMask v)" "p + k \<le> 64 * length (nm_data (vv_nullMask v))"
      "p + k \<le> length (vv_data v)"
    and nn: "nullData c = None \<Longrightarrow> \<forall>q. p \<le> q \<and> q < p + k \<longrightarrow> \<not> ValueVector_isNull q v"
  shows "\<exists>v'. ColumnChunkData_scan offset k p c v = Inr v' \<and> nm_wf (vv_nullMask v') \<and>
    (\<forall>i < k. vector_cell v' (p + i) = cell c (offset + i)) \<and>
    (\<forall>q < length (vv_data v). q < 64 * length (nm_data (vv_nullMask v)) \<longrightarrow>
       q < p \<or> p + k \<le> q \<longrightarrow> vector_cell v' q = vector_cell v q)"
proof -
  let ?vals = "take k (drop offset (cc_buffer c))"
  have lv: "length ?vals = k" using wf rng by (auto simp: cc_wf_def)
  obtain v1 where v1: "(case nullData c of None \<Rightarrow> Inr v
        | Some n \<Rightarrow> rbind (setNullFromBits (nc_data n) offset p k False v) (\<lambda>(v, _). Inr v)) = Inr v1"
    "vv_data v1 = vv_data v" "nm_wf (vv_nullMask v1)"
    "\<And>q. q < 64 * length (nm_data (vv_nullMask v)) \<Longrightarrow> ValueVector_isNull q v1 =
       (if p \<le> q \<and> q < p + k then ColumnChunkData_isNull (offset + (q - p)) c else ValueVector_isNull q v)"
  proof (cases "nullData c")
    case None
    then show ?thesis using nn out(1) by (intro that [of v]) (simp_all add: ColumnChunkData_isNull_def)
  next
    case (Some n)
    from copyFromNullBits_correct [OF out(1,2), of "nc_data n" offset False] obtain m h
      where m: "copyFromNullBits (nc_data n) offset p k False (vv_nullMask v) = Some (m, h)" "nm_wf m"
        "bits_copied (nc_data n) offset (nm_data (vv_nullMask v)) p k False (nm_data m)" by blast
    show ?thesis
    proof (rule that [of "v\<lparr>vv_nullMask := m\<rparr>"])
      show "ValueVector_isNull q (v\<lparr>vv_nullMask := m\<rparr>) = (if p \<le> q \<and> q < p + k
          then ColumnChunkData_isNull (offset + (q - p)) c else ValueVector_isNull q v)"
        if "q < 64 * length (nm_data (vv_nullMask v))" for q
        using m(3) that by (simp add: bits_copied_def ValueVector_isNull_def NullMask_isNull_def
            ColumnChunkData_isNull_def Some NullChunkData_isNull_def isNull_nbit del: add_diff_assoc)
    qed (simp_all add: Some setNullFromBits_def m)
  qed
  let ?v = "v1\<lparr>vv_data := write_at (vv_data v1) p ?vals\<rparr>"
  have "ColumnChunkData_scan offset k p c v = Inr ?v"
    by (simp add: ColumnChunkData_scan_def v1(1))
  moreover have "vector_cell ?v (p + i) = cell c (offset + i)" if "i < k" for i
    using that out v1(2) v1(4) [of "p + i"] lv wf rng
    by (simp add: vector_cell_def cell_def ValueVector_isNull_def nth_write_at cc_wf_def)
  moreover have "vector_cell ?v q = vector_cell v q"
    if "q < length (vv_data v)" "q < 64 * length (nm_data (vv_nullMask v))" "q < p \<or> p + k \<le> q" for q
  proof -
    have q: "\<not> (p \<le> q \<and> q < p + k)" using that(3) by auto
    with v1(4) [OF that(2)] have "ValueVector_isNull q v1 = ValueVector_isNull q v" by simp
    moreover have "vv_data ?v ! q = vv_data v ! q" using q that(1) v1(2) lv by (auto simp: nth_write_at)
    ultimately show ?thesis by (simp add: vector_cell_def ValueVector_isNull_def)
  qed
  ultimately show ?thesis using v1(3) by auto
qed

lemma ColumnChunkData_lookup_value:
  assumes "i < cc_numValues c" "p < 64 * length (nm_data (vv_nullMask v))" "p < length (vv_data v)"
  shows "vector_cell (ColumnChunkData_lookup i p c v) p = cell c i"
proof -
  have "p div 64 < length (nm_data (vv_nullMask v))" using assms(2) by auto
  then show ?thesis using assms(3)
    by (auto simp: ColumnChunkData_lookup_def vector_cell_def cell_def ValueVector_isNull_def
        ValueVector_setNull_def NullMask_isNull_def NullMask_setNull_def isNull_nbit setNull_nbit Let_def)
qed

lemma ColumnChunkData_setNumValues_values:
  assumes "cc_wf c" "k \<le> cc_numValues c"
  shows "cc_wf (ColumnChunkData_setNumValues k c) \<and>
    column_values (ColumnChunkData_setNumValues k c) = take k (column_values c)"
proof -
  have "cell (ColumnChunkData_setNumValues k c) i = cell c i" for i
    by (auto simp: cell_def ColumnChunkData_isNull_def ColumnChunkData_setNumValues_def
        NullChunkData_isNull_def split: option.splits)
  then have "column_values (ColumnChunkData_setNumValues k c) = take k (column_values c)"
    using assms(2) by (intro nth_equalityI) (auto simp: ColumnChunkData_setNumValues_def)
  moreover have "cc_wf (ColumnChunkData_setNumValues k c)"
    using assms by (auto simp: cc_wf_def ColumnChunkData_setNumValues_def nc_wf_def split: option.splits)
  ultimately show ?thesis by blast
qed

end
