(* ===== verification/Chunked_Node_Group.thy ===== *)
theory Chunked_Node_Group
  imports Version_Info Column_Chunk_Data
begin

text \<open>
  Chunked node groups (\<^verbatim>\<open>src/src/storage/store/chunked_node_group.cpp\<close>): a run of rows with their
  column chunks and the version information that says which transactions see which rows. Columns are
  those of \<^verbatim>\<open>Column_Chunk_Data\<close>; the per-column update information, spilling and serialisation are
  not part of the record. Where the code passes \<^verbatim>\<open>this\<close> to the undo buffer, the operation takes the
  address of the group.
\<close>

record 'v ChunkedNodeGroup =
  cng_residencyState :: ResidencyState
  startRowIdx :: row_idx_t
  cng_capacity :: nat
  numRows :: row_idx_t
  chunks :: "'v ColumnChunkData list"
  versionInfo :: "VersionInfo option"

text \<open>The constructor for an empty group: one chunk per column.\<close>

definition new_ChunkedNodeGroup ::
  "'v list \<Rightarrow> nat \<Rightarrow> row_idx_t \<Rightarrow> ResidencyState \<Rightarrow> 'v ChunkedNodeGroup" where
  "new_ChunkedNodeGroup columnZeros cap start residency =
     \<lparr>cng_residencyState = residency, startRowIdx = start, cng_capacity = cap, numRows = 0,
      chunks = map (\<lambda>zero. new_ColumnChunkData zero cap True residency) columnZeros,
      versionInfo = None\<rparr>"

definition ChunkedNodeGroup_resetToEmpty :: "'v list \<Rightarrow> 'v ChunkedNodeGroup \<Rightarrow> 'v ChunkedNodeGroup" where
  "ChunkedNodeGroup_resetToEmpty columnZeros g =
     g\<lparr>numRows := 0, chunks := map2 resetToEmpty columnZeros (chunks g), versionInfo := None\<rparr>"

definition resizeChunks :: "'v list \<Rightarrow> nat \<Rightarrow> 'v ChunkedNodeGroup \<Rightarrow> 'v ChunkedNodeGroup" where
  "resizeChunks columnZeros newSize g =
     (if newSize \<le> cng_capacity g then g
      else g\<lparr>chunks := map2 (\<lambda>zero. ColumnChunkData_resize zero newSize) columnZeros (chunks g),
             cng_capacity := newSize\<rparr>)"

definition setNumRows :: "nat \<Rightarrow> 'v ChunkedNodeGroup \<Rightarrow> 'v ChunkedNodeGroup" where
  "setNumRows n g = g\<lparr>chunks := map (ColumnChunkData_setNumValues n) (chunks g), numRows := n\<rparr>"

text \<open>The slice of a selection vector that \<^verbatim>\<open>append\<close> copies position by position.\<close>

definition SelectionVector_at :: "SelectionVector \<Rightarrow> nat \<Rightarrow> nat" where
  "SelectionVector_at sv i =
     (if isUnfiltered sv then INCREMENTAL_SELECTED_POS else selectedPositionsBuffer sv) ! i"

definition sel_slice :: "SelectionVector \<Rightarrow> nat \<Rightarrow> nat \<Rightarrow> SelectionVector" where
  "sel_slice sv start n =
     setToFiltered n ((new_SelectionVector n)
       \<lparr>selectedPositionsBuffer := write_at (selectedPositionsBuffer (new_SelectionVector n)) 0
          (map (\<lambda>row. SelectionVector_at sv (start + row)) [0..<n])\<rparr>)"

text \<open>The version part of both \<^verbatim>\<open>append\<close> overloads.\<close>

definition append_versions ::
  "nat \<Rightarrow> nat \<Rightarrow> Transaction \<times> 'v ChunkedNodeGroup \<Rightarrow> (nat \<times> Transaction \<times> 'v ChunkedNodeGroup) result" where
  "append_versions addr n = (\<lambda>(t, g).
     rbind (if tx_ID t \<noteq> DUMMY_TRANSACTION_ID
            then rbind (VersionInfo_append addr (numRows g) n
                          (t, case versionInfo g of None \<Rightarrow> [] | Some vs \<Rightarrow> vs))
                   (\<lambda>(t', vs). Inr (t', g\<lparr>versionInfo := Some vs\<rparr>))
            else Inr (t, g))
       (\<lambda>(t', g'). Inr (n, t', g'\<lparr>numRows := numRows g' + n\<rparr>)))"

definition ChunkedNodeGroup_append ::
  "nat \<Rightarrow> ('v ValueVector \<times> SelectionVector) list \<Rightarrow> nat \<Rightarrow> nat \<Rightarrow> Transaction \<times> 'v ChunkedNodeGroup \<Rightarrow>
   (nat \<times> Transaction \<times> 'v ChunkedNodeGroup) result" where
  "ChunkedNodeGroup_append addr columnVectors startRowInVectors numValuesToAppend = (\<lambda>(t, g).
     let n = min numValuesToAppend (cng_capacity g - numRows g);
         cs = map (\<lambda>i. let (v, sv) = columnVectors ! i
                       in ColumnChunkData_appendVector v (sel_slice sv startRowInVectors n)
                            (chunks g ! i))
                [0..<length (chunks g)]
     in append_versions addr n (t, g\<lparr>chunks := cs\<rparr>))"

fun append_columns ::
  "nat \<Rightarrow> nat \<Rightarrow> 'v ColumnChunkData list \<Rightarrow> 'v ColumnChunkData list \<Rightarrow> 'v ColumnChunkData list result" where
  "append_columns off n (c # cs) (d # ds) =
     rbind (ColumnChunkData_append d off n c)
       (\<lambda>c'. rbind (append_columns off n cs ds) (\<lambda>cs'. Inr (c' # cs')))"
| "append_columns off n cs ds = Inr cs"

definition ChunkedNodeGroup_appendChunks ::
  "nat \<Rightarrow> 'v ColumnChunkData list \<Rightarrow> nat \<Rightarrow> nat \<Rightarrow> Transaction \<times> 'v ChunkedNodeGroup \<Rightarrow>
   (nat \<times> Transaction \<times> 'v ChunkedNodeGroup) result" where
  "ChunkedNodeGroup_appendChunks addr other offsetInOtherNodeGroup numRowsToAppend = (\<lambda>(t, g).
     let n = min numRowsToAppend (cng_capacity g - numRows g)
     in rbind (append_columns offsetInOtherNodeGroup n (chunks g) other)
          (\<lambda>cs. append_versions addr n (t, g\<lparr>chunks := cs\<rparr>)))"

text \<open>The first step of \<^verbatim>\<open>scan\<close> and of \<^verbatim>\<open>lookup\<close>: which rows the transaction sees.\<close>

definition scanSelVector ::
  "Transaction \<Rightarrow> row_idx_t \<Rightarrow> nat \<Rightarrow> 'v ChunkedNodeGroup \<Rightarrow> SelectionVector \<Rightarrow> SelectionVector result" where
  "scanSelVector t rowIdxInGroup numRowsToScan g anchorSelVector =
     (case versionInfo g of
        Some vs \<Rightarrow> getSelVectorToScan (tx_startTS t) (tx_ID t) rowIdxInGroup numRowsToScan vs anchorSelVector
      | None \<Rightarrow> Inr (setToUnfiltered numRowsToScan anchorSelVector))"

definition lookupHasValues :: "Transaction \<Rightarrow> row_idx_t \<Rightarrow> 'v ChunkedNodeGroup \<Rightarrow> bool result" where
  "lookupHasValues t rowIdxInChunk g =
     (case versionInfo g of
        Some vs \<Rightarrow> rbind (getSelVectorToScan (tx_startTS t) (tx_ID t) rowIdxInChunk 1 vs
                             (new_SelectionVector DEFAULT_VECTOR_CAPACITY))
                     (\<lambda>sv. Inr (selectedSize sv > 0))
      | None \<Rightarrow> Inr True)"

definition ChunkedNodeGroup_hasDeletions :: "Transaction \<Rightarrow> 'v ChunkedNodeGroup \<Rightarrow> bool result" where
  "ChunkedNodeGroup_hasDeletions t g =
     (case versionInfo g of
        Some vs \<Rightarrow> VersionInfo_hasDeletions (tx_startTS t) (tx_ID t) vs | None \<Rightarrow> Inr False)"

definition ChunkedNodeGroup_delete ::
  "nat \<Rightarrow> row_idx_t \<Rightarrow> Transaction \<times> 'v ChunkedNodeGroup \<Rightarrow>
   (bool \<times> Transaction \<times> 'v ChunkedNodeGroup) result" where
  "ChunkedNodeGroup_delete addr rowIdxInChunk = (\<lambda>(t, g).
     rbind (VersionInfo_delete addr rowIdxInChunk (t, case versionInfo g of None \<Rightarrow> [] | Some vs \<Rightarrow> vs))
       (\<lambda>(deleted, t', vs). Inr (deleted, t', g\<lparr>versionInfo := Some vs\<rparr>)))"

definition ChunkedNodeGroup_isDeleted ::
  "transaction_t \<Rightarrow> transaction_t \<Rightarrow> row_idx_t \<Rightarrow> 'v ChunkedNodeGroup \<Rightarrow> bool result" where
  "ChunkedNodeGroup_isDeleted startTS txID rowInChunk g =
     (case versionInfo g of
        None \<Rightarrow> Inr False | Some vs \<Rightarrow> VersionInfo_isDeleted startTS txID rowInChunk vs)"

definition ChunkedNodeGroup_isInserted ::
  "transaction_t \<Rightarrow> transaction_t \<Rightarrow> row_idx_t \<Rightarrow> 'v ChunkedNodeGroup \<Rightarrow> bool result" where
  "ChunkedNodeGroup_isInserted startTS txID rowInChunk g =
     (case versionInfo g of
        None \<Rightarrow> Inr (rowInChunk < numRows g)
      | Some vs \<Rightarrow> VersionInfo_isInserted startTS txID rowInChunk vs)"

definition ChunkedNodeGroup_getNumDeletions ::
  "Transaction \<Rightarrow> row_idx_t \<Rightarrow> nat \<Rightarrow> 'v ChunkedNodeGroup \<Rightarrow> nat result" where
  "ChunkedNodeGroup_getNumDeletions t startRow n g =
     (case versionInfo g of
        Some vs \<Rightarrow> VersionInfo_getNumDeletions (tx_startTS t) (tx_ID t) startRow n vs
      | None \<Rightarrow> Inr 0)"

text \<open>Commit and rollback of the rows of an undo record. Only \<^verbatim>\<open>rollbackInsert\<close> checks that there is
  something to roll back; the others dereference the version information.\<close>

definition on_versions ::
  "(VersionInfo \<Rightarrow> VersionInfo result) \<Rightarrow> 'v ChunkedNodeGroup \<Rightarrow> 'v ChunkedNodeGroup result" where
  "on_versions f g =
     (case versionInfo g of
        None \<Rightarrow> Inl NullPointer
      | Some vs \<Rightarrow> rbind (f vs) (\<lambda>vs'. Inr (g\<lparr>versionInfo := Some vs'\<rparr>)))"

definition ChunkedNodeGroup_commitInsert ::
  "row_idx_t \<Rightarrow> row_idx_t \<Rightarrow> transaction_t \<Rightarrow> 'v ChunkedNodeGroup \<Rightarrow> 'v ChunkedNodeGroup result" where
  "ChunkedNodeGroup_commitInsert startRow n commitTS =
     on_versions (VersionInfo_commitInsert startRow n commitTS)"

definition ChunkedNodeGroup_rollbackInsert ::
  "row_idx_t \<Rightarrow> row_idx_t \<Rightarrow> 'v ChunkedNodeGroup \<Rightarrow> 'v ChunkedNodeGroup result" where
  "ChunkedNodeGroup_rollbackInsert startRow n g =
     (if startRow = 0 then Inr ((setNumRows 0 g)\<lparr>versionInfo := None\<rparr>)
      else if startRow \<ge> numRows g then Inr g
      else rbind (on_versions (VersionInfo_rollbackInsert startRow n) g)
             (\<lambda>g'. Inr (g'\<lparr>numRows := startRow\<rparr>)))"

definition ChunkedNodeGroup_commitDelete ::
  "row_idx_t \<Rightarrow> row_idx_t \<Rightarrow> transaction_t \<Rightarrow> 'v ChunkedNodeGroup \<Rightarrow> 'v ChunkedNodeGroup result" where
  "ChunkedNodeGroup_commitDelete startRow n commitTS =
     on_versions (VersionInfo_commitDelete startRow n commitTS)"

definition ChunkedNodeGroup_rollbackDelete ::
  "row_idx_t \<Rightarrow> row_idx_t \<Rightarrow> 'v ChunkedNodeGroup \<Rightarrow> 'v ChunkedNodeGroup result" where
  "ChunkedNodeGroup_rollbackDelete startRow n = on_versions (VersionInfo_rollbackDelete startRow n)"

subsection \<open>What a transaction sees\<close>

text \<open>The versions of a row; a group without version information holds checkpointed rows only.\<close>

definition g_vs :: "'v ChunkedNodeGroup \<Rightarrow> VersionInfo" where
  "g_vs g = (case versionInfo g of None \<Rightarrow> [] | Some vs \<Rightarrow> vs)"

definition sees_row :: "transaction_t \<Rightarrow> transaction_t \<Rightarrow> row_idx_t \<Rightarrow> 'v ChunkedNodeGroup \<Rightarrow> bool" where
  "sees_row ts i r g \<longleftrightarrow> r < numRows g \<and> sees ts i (row_ins (g_vs g) r) \<and> \<not> sees ts i (row_del (g_vs g) r)"

lemma g_vs_simps [simp]:
  "versionInfo g = Some vs \<Longrightarrow> g_vs g = vs" "versionInfo g = None \<Longrightarrow> g_vs g = []"
  "g_vs (g\<lparr>versionInfo := Some vs\<rparr>) = vs" "g_vs (g\<lparr>numRows := n\<rparr>) = g_vs g"
  "g_vs (g\<lparr>chunks := cs\<rparr>) = g_vs g" "g_vs (g\<lparr>versionInfo := None\<rparr>) = []"
  by (simp_all add: g_vs_def)

lemma ChunkedNodeGroup_isInserted_sees:
  "vi_wf (g_vs g) \<Longrightarrow> valid_reader ts i \<Longrightarrow> r < numRows g \<Longrightarrow>
   ChunkedNodeGroup_isInserted ts i r g = Inr (sees ts i (row_ins (g_vs g) r))"
  by (cases "versionInfo g") (simp_all add: ChunkedNodeGroup_isInserted_def VersionInfo_isInserted_sees)

lemma ChunkedNodeGroup_isDeleted_sees:
  "vi_wf (g_vs g) \<Longrightarrow> valid_reader ts i \<Longrightarrow>
   ChunkedNodeGroup_isDeleted ts i r g = Inr (sees ts i (row_del (g_vs g) r))"
  by (cases "versionInfo g") (simp_all add: ChunkedNodeGroup_isDeleted_def VersionInfo_isDeleted_sees)

end
