(* ===== verification/Mvcc.thy ===== *)
theory Mvcc
  imports Chunked_Node_Group
begin

text \<open>
  Commit and rollback of the row versions of a transaction: the part of \<^verbatim>\<open>UndoBuffer\<close>
  (\<^verbatim>\<open>src/src/storage/undo_buffer.cpp\<close>) that walks the insert and delete records, over a store of
  chunked node groups. The lemmas follow one group through the steps of a transaction, the commit of
  its records in writing order and their rollback in the opposite order.
\<close>

type_synonym 'v groups = "nat \<Rightarrow> 'v ChunkedNodeGroup"

definition on_group ::
  "nat \<Rightarrow> ('v ChunkedNodeGroup \<Rightarrow> 'v ChunkedNodeGroup result) \<Rightarrow> 'v groups \<Rightarrow> 'v groups result" where
  "on_group addr f gs = rbind (f (gs addr)) (\<lambda>g. Inr (gs(addr := g)))"

fun commitVersionInfo :: "transaction_t \<Rightarrow> UndoRecord \<Rightarrow> 'v groups \<Rightarrow> 'v groups result" where
  "commitVersionInfo commitTS (InsertInfoRecord g s n) gs =
     on_group g (ChunkedNodeGroup_commitInsert s n commitTS) gs"
| "commitVersionInfo commitTS (DeleteInfoRecord g s n) gs =
     on_group g (ChunkedNodeGroup_commitDelete s n commitTS) gs"
| "commitVersionInfo commitTS _ gs = Inl InternalException"

fun rollbackVersionInfo :: "UndoRecord \<Rightarrow> 'v groups \<Rightarrow> 'v groups result" where
  "rollbackVersionInfo (InsertInfoRecord g s n) gs =
     on_group g (ChunkedNodeGroup_rollbackInsert s n) gs"
| "rollbackVersionInfo (DeleteInfoRecord g s n) gs =
     on_group g (ChunkedNodeGroup_rollbackDelete s n) gs"
| "rollbackVersionInfo _ gs = Inl InternalException"

subsection \<open>The steps of a transaction\<close>

text \<open>A transaction appends rows to groups in memory and deletes rows that exist.\<close>

inductive tx_steps :: "Transaction \<times> 'v groups \<Rightarrow> Transaction \<times> 'v groups \<Rightarrow> bool" for start where
  none: "tx_steps start start"
| append: "tx_steps start (t, gs) \<Longrightarrow> cng_residencyState (gs a) = IN_MEMORY \<Longrightarrow>
    ChunkedNodeGroup_append a vectors first n (t, gs a) = Inr (k, t', g') \<Longrightarrow>
    tx_steps start (t', gs(a := g'))"
| appendChunks: "tx_steps start (t, gs) \<Longrightarrow> cng_residencyState (gs a) = IN_MEMORY \<Longrightarrow>
    ChunkedNodeGroup_appendChunks a other off n (t, gs a) = Inr (k, t', g') \<Longrightarrow>
    tx_steps start (t', gs(a := g'))"
| delete: "tx_steps start (t, gs) \<Longrightarrow> r < numRows (gs a) \<Longrightarrow>
    ChunkedNodeGroup_delete a r (t, gs a) = Inr (d, t', g') \<Longrightarrow>
    tx_steps start (t', gs(a := g'))"

text \<open>The invariant of a group between transactions.\<close>

definition group_inv :: "'v ChunkedNodeGroup \<Rightarrow> bool" where
  "group_inv g \<longleftrightarrow> vi_wf (g_vs g) \<and> vi_clean (g_vs g) \<and>
     (\<forall>r < numRows g. row_ins (g_vs g) r \<noteq> INVALID_TRANSACTION) \<and>
     (\<forall>r \<ge> numRows g. row_raw (g_vs g) r = INVALID_TRANSACTION) \<and>
     (cng_residencyState g = IN_MEMORY \<longrightarrow>
       (\<forall>r < numRows g. row_status (g_vs g) r = INS_CHECK_VERSION))"

text \<open>No row of the group carries the version \<open>tx\<close>.\<close>

definition group_fresh :: "transaction_t \<Rightarrow> 'v ChunkedNodeGroup \<Rightarrow> bool" where
  "group_fresh tx g \<longleftrightarrow> (\<forall>r < numRows g. row_ins (g_vs g) r \<noteq> tx) \<and> (\<forall>r. row_raw (g_vs g) r \<noteq> tx)"

subsection \<open>The records of one group\<close>

fun record_of :: "nat \<Rightarrow> UndoRecord \<Rightarrow> bool" where
  "record_of a (InsertInfoRecord g s n) = (g = a)"
| "record_of a (DeleteInfoRecord g s n) = (g = a)"
| "record_of a _ = False"

fun inserted_rows :: "UndoRecord list \<Rightarrow> nat" where
  "inserted_rows [] = 0"
| "inserted_rows (InsertInfoRecord g s n # rs) = n + inserted_rows rs"
| "inserted_rows (_ # rs) = inserted_rows rs"

fun deleted_rows :: "UndoRecord list \<Rightarrow> nat set" where
  "deleted_rows [] = {}"
| "deleted_rows (DeleteInfoRecord g s n # rs) = {s..<s + n} \<union> deleted_rows rs"
| "deleted_rows (_ # rs) = deleted_rows rs"

lemma inserted_rows_append [simp]: "inserted_rows (rs @ ss) = inserted_rows rs + inserted_rows ss"
  by (induction rs rule: inserted_rows.induct) auto

lemma deleted_rows_append [simp]: "deleted_rows (rs @ ss) = deleted_rows rs \<union> deleted_rows ss"
  by (induction rs rule: deleted_rows.induct) auto

text \<open>The records a transaction can have written for the group \<open>a\<close>, which was \<open>g0\<close> when it started:
  insertions extend the group, a deletion is of a row that exists and is not deleted.\<close>

inductive records_ok :: "nat \<Rightarrow> 'v ChunkedNodeGroup \<Rightarrow> UndoRecord list \<Rightarrow> bool" for a g0 where
  nil: "records_ok a g0 []"
| ins: "records_ok a g0 rs \<Longrightarrow> s = numRows g0 + inserted_rows rs \<Longrightarrow> 0 < n \<Longrightarrow>
    records_ok a g0 (rs @ [InsertInfoRecord a s n])"
| del: "records_ok a g0 rs \<Longrightarrow> r < numRows g0 + inserted_rows rs \<Longrightarrow>
    row_raw (g_vs g0) r = INVALID_TRANSACTION \<Longrightarrow> r \<notin> deleted_rows rs \<Longrightarrow>
    records_ok a g0 (rs @ [DeleteInfoRecord a r 1])"

lemma records_ok_snoc:
  assumes "records_ok a g0 (rs @ [x])"
  shows "records_ok a g0 rs \<and>
    (\<exists>n. 0 < n \<and> x = InsertInfoRecord a (numRows g0 + inserted_rows rs) n \<or>
       (\<exists>r. x = DeleteInfoRecord a r 1 \<and> r < numRows g0 + inserted_rows rs \<and>
          row_raw (g_vs g0) r = INVALID_TRANSACTION \<and> r \<notin> deleted_rows rs))"
  using assms by (cases rule: records_ok.cases) auto

lemma records_ok_prefix: "records_ok a g0 (rs @ ss) \<Longrightarrow> records_ok a g0 rs"
proof (induction ss rule: rev_induct)
  case (snoc x ss)
  then show ?case using records_ok_snoc [of a g0 "rs @ ss" x] by simp
qed simp

lemma records_ok_deleted:
  "records_ok a g0 rs \<Longrightarrow> r \<in> deleted_rows rs \<Longrightarrow>
   r < numRows g0 + inserted_rows rs \<and> row_raw (g_vs g0) r = INVALID_TRANSACTION"
  by (induction rule: records_ok.induct) auto

lemma records_ok_empty:
  assumes "records_ok a g0 rs" "numRows g0 + inserted_rows rs = 0"
  shows "rs = []"
  using assms by (cases rule: records_ok.cases) auto

subsection \<open>A group during the transaction\<close>

definition written :: "transaction_t \<Rightarrow> 'v ChunkedNodeGroup \<Rightarrow> UndoRecord list \<Rightarrow> 'v ChunkedNodeGroup \<Rightarrow> bool" where
  "written tx g0 rs g \<longleftrightarrow>
     numRows g = numRows g0 + inserted_rows rs \<and> vi_wf (g_vs g) \<and> vi_clean (g_vs g) \<and>
     (\<forall>r < numRows g0. row_ins (g_vs g) r = row_ins (g_vs g0) r) \<and>
     (\<forall>r. numRows g0 \<le> r \<and> r < numRows g \<longrightarrow>
        row_ins (g_vs g) r = tx \<and> row_status (g_vs g) r = INS_CHECK_VERSION) \<and>
     (\<forall>r. row_raw (g_vs g) r = (if r \<in> deleted_rows rs then tx else row_raw (g_vs g0) r)) \<and>
     (cng_residencyState g = IN_MEMORY \<longrightarrow>
        (\<forall>r < numRows g. row_status (g_vs g) r = INS_CHECK_VERSION)) \<and>
     cng_residencyState g = cng_residencyState g0 \<and> (rs \<noteq> [] \<longrightarrow> versionInfo g \<noteq> None)"

lemma written_refl: "group_inv g \<Longrightarrow> written tx g [] g"
  by (auto simp: group_inv_def written_def)

lemma written_chunks [simp]: "written tx g0 rs (g\<lparr>chunks := cs\<rparr>) = written tx g0 rs g"
  by (simp add: written_def)

lemma row_status_vector:
  "r div DEFAULT_VECTOR_CAPACITY = q div DEFAULT_VECTOR_CAPACITY \<Longrightarrow> row_status vs r = row_status vs q"
  by (simp add: row_status_def)

text \<open>A group in memory can be extended: its last vector keeps a version per row.\<close>

lemma tail_status:
  assumes "\<And>r. r < n \<Longrightarrow> row_status vs r = INS_CHECK_VERSION"
  shows "n mod DEFAULT_VECTOR_CAPACITY = 0 \<or> row_status vs n = INS_CHECK_VERSION"
proof (cases "n mod DEFAULT_VECTOR_CAPACITY = 0")
  case False
  then have "(n - 1) div DEFAULT_VECTOR_CAPACITY = n div DEFAULT_VECTOR_CAPACITY"
    by (metis Suc_diff_1 div_Suc gr0I mod_0)
  with assms [of "n - 1"] False row_status_vector [of "n - 1" n vs] show ?thesis
    by (cases n) auto
qed simp

definition writer :: "transaction_t \<Rightarrow> Transaction \<Rightarrow> bool" where
  "writer tx t \<longleftrightarrow> tx_ID t = tx \<and> tx \<noteq> INVALID_TRANSACTION \<and> shouldAppendToUndoBuffer t"

lemma writer_push [simp]: "writer tx t \<Longrightarrow> writer tx (pushInsertInfo a s n t)"
  "writer tx t \<Longrightarrow> writer tx (pushDeleteInfo a s n t)"
  by (auto simp: writer_def shouldAppendToUndoBuffer_def isReadOnly_def)

lemma writer_not_dummy: "writer tx t \<Longrightarrow> tx_ID t \<noteq> DUMMY_TRANSACTION_ID"
  by (auto simp: writer_def shouldAppendToUndoBuffer_def)

text \<open>What a step on group \<open>a\<close> does: it writes records of \<open>a\<close> only, and they describe the change.\<close>

definition step_ok ::
  "transaction_t \<Rightarrow> nat \<Rightarrow> 'v ChunkedNodeGroup \<Rightarrow> UndoRecord list \<Rightarrow> Transaction \<Rightarrow>
   Transaction \<Rightarrow> 'v ChunkedNodeGroup \<Rightarrow> bool" where
  "step_ok tx a g0 rs t t' g' \<longleftrightarrow> writer tx t' \<and>
     (\<exists>rs'. undoRecords (undoBuffer t') = undoRecords (undoBuffer t) @ rs' \<and>
        (\<forall>x \<in> set rs'. record_of a x) \<and> records_ok a g0 (rs @ rs') \<and> written tx g0 (rs @ rs') g')"

lemma append_versions_step:
  assumes w: "written tx g0 rs g" and ok: "records_ok a g0 rs" and t: "writer tx t"
    and mem: "cng_residencyState g = IN_MEMORY"
    and run: "append_versions a n (t, g) = Inr (k, t', g')"
  shows "step_ok tx a g0 rs t t' g'"
proof (cases "n = 0")
  case True
  have vs: "(case versionInfo g of None \<Rightarrow> [] | Some vs \<Rightarrow> vs) = g_vs g" by (simp add: g_vs_def)
  from run True writer_not_dummy [OF t] have "t' = t" "g' = g\<lparr>versionInfo := Some (g_vs g)\<rparr>"
    by (auto simp: append_versions_def VersionInfo_append_def vs)
  moreover have "written tx g0 rs (g\<lparr>versionInfo := Some (g_vs g)\<rparr>)" using w by (simp add: written_def)
  ultimately show ?thesis using t ok unfolding step_ok_def by (intro conjI exI [of _ "[]"]) auto
next
  case False
  have vs: "(case versionInfo g of None \<Rightarrow> [] | Some vs \<Rightarrow> vs) = g_vs g" by (simp add: g_vs_def)
  have wf: "vi_wf (g_vs g)" "vi_clean (g_vs g)" using w by (simp_all add: written_def)
  have "\<And>r. r < numRows g \<Longrightarrow> row_status (g_vs g) r = INS_CHECK_VERSION"
    using w mem by (simp add: written_def)
  note tail = tail_status [OF this]
  have tx: "tx_ID t \<noteq> INVALID_TRANSACTION" "tx_ID t = tx" "shouldAppendToUndoBuffer t"
    using t by (auto simp: writer_def)
  obtain vs' where app: "VersionInfo_append a (numRows g) n (t, g_vs g) =
      Inr (if shouldAppendToUndoBuffer t then pushInsertInfo a (numRows g) n t else t, vs')"
    "vi_wf vs'" "vi_clean vs'"
    "\<And>r. row_del vs' r = row_del (g_vs g) r \<and> row_raw vs' r = row_raw (g_vs g) r \<and>
       (r < numRows g \<longrightarrow> row_ins vs' r = row_ins (g_vs g) r) \<and>
       (numRows g \<le> r \<and> r < numRows g + n \<longrightarrow>
          row_ins vs' r = tx_ID t \<and> row_status vs' r = INS_CHECK_VERSION) \<and>
       (row_status (g_vs g) r = INS_CHECK_VERSION \<longrightarrow> row_status vs' r = INS_CHECK_VERSION)"
    using VersionInfo_append_rows [OF wf tx(1) _ tail] False by blast
  have t': "t' = pushInsertInfo a (numRows g) n t"
    and g': "g' = g\<lparr>versionInfo := Some vs', numRows := numRows g + n\<rparr>"
    using run app(1) writer_not_dummy [OF t] tx(3) by (auto simp: append_versions_def vs)
  have "written tx g0 (rs @ [InsertInfoRecord a (numRows g) n]) g'"
  proof -
    have st: "row_status vs' r = INS_CHECK_VERSION" if "r < numRows g + n" for r
      using app(4) [of r] w mem that by (cases "r < numRows g") (auto simp: written_def)
    have "row_ins vs' r = tx" if "numRows g0 \<le> r" "r < numRows g + n" for r
      using app(4) [of r] w that tx(2) by (cases "r < numRows g") (auto simp: written_def)
    moreover have "row_ins vs' r = row_ins (g_vs g0) r" if "r < numRows g0" for r
      using app(4) [of r] w that by (auto simp: written_def)
    ultimately show ?thesis using w app(2-4) st unfolding written_def g' by simp
  qed
  moreover have "records_ok a g0 (rs @ [InsertInfoRecord a (numRows g) n])"
    using ok w False by (intro records_ok.ins) (auto simp: written_def)
  ultimately show ?thesis unfolding step_ok_def t' using t
    by (intro conjI exI [of _ "[InsertInfoRecord a (numRows g) n]"]) auto
qed

lemma delete_step:
  assumes w: "written tx g0 rs g" and inv: "group_inv g0" and ok: "records_ok a g0 rs"
    and t: "writer tx t" and r: "r < numRows g" and fresh: "group_fresh tx g0"
    and run: "ChunkedNodeGroup_delete a r (t, g) = Inr (d, t', g')"
  shows "step_ok tx a g0 rs t t' g'"
proof -
  have vs: "(case versionInfo g of None \<Rightarrow> [] | Some vs \<Rightarrow> vs) = g_vs g" by (simp add: g_vs_def)
  have wf: "vi_wf (g_vs g)" "vi_clean (g_vs g)" using w by (simp_all add: written_def)
  have tx: "tx_ID t \<noteq> INVALID_TRANSACTION" "tx_ID t = tx" "shouldAppendToUndoBuffer t"
    using t by (auto simp: writer_def)
  have live: "row_ins (g_vs g) r \<noteq> INVALID_TRANSACTION"
    using w inv r tx by (cases "r < numRows g0") (auto simp: written_def group_inv_def)
  note del = VersionInfo_delete_rows [OF wf tx(1) live, where addr = a]
  from run obtain vs' where run': "VersionInfo_delete a r (t, g_vs g) = Inr (d, t', vs')"
    and g': "g' = g\<lparr>versionInfo := Some vs'\<rparr>"
    by (auto simp: ChunkedNodeGroup_delete_def vs)
  consider (again) "row_del (g_vs g) r = tx" | (fresh) "row_del (g_vs g) r = INVALID_TRANSACTION"
    | (conflict) "row_del (g_vs g) r \<noteq> tx_ID t" "row_del (g_vs g) r \<noteq> INVALID_TRANSACTION"
    using tx(2) by blast
  then show ?thesis
  proof cases
    case again
    with del(1) run' tx(2) have "t' = t" "vs' = g_vs g" by auto
    moreover have "written tx g0 rs (g\<lparr>versionInfo := Some (g_vs g)\<rparr>)" using w by (simp add: written_def)
    ultimately show ?thesis using t ok g' unfolding step_ok_def by (intro conjI exI [of _ "[]"]) auto
  next
    case conflict
    with del(2) run' show ?thesis by simp
  next
    case fresh
    from del(3) [OF this] run' tx(3) have t': "t' = pushDeleteInfo a r 1 t" and wf': "vi_wf vs'" "vi_clean vs'"
      and rows: "\<And>q. row_ins vs' q = row_ins (g_vs g) q \<and> row_status vs' q = row_status (g_vs g) q \<and>
         row_raw vs' q = (if q = r then tx_ID t else row_raw (g_vs g) q)" by auto
    have raw: "row_raw (g_vs g) r = INVALID_TRANSACTION" using fresh row_del_clean [OF wf] by simp
    then have new: "r \<notin> deleted_rows rs" "row_raw (g_vs g0) r = INVALID_TRANSACTION"
      using w tx by (auto simp: written_def split: if_splits)
    have "records_ok a g0 (rs @ [DeleteInfoRecord a r 1])"
      using ok r w new by (intro records_ok.del) (auto simp: written_def)
    moreover have "written tx g0 (rs @ [DeleteInfoRecord a r 1]) g'"
      using w rows wf' tx(2) unfolding written_def g' by simp
    ultimately show ?thesis unfolding step_ok_def t' using t
      by (intro conjI exI [of _ "[DeleteInfoRecord a r 1]"]) auto
  qed
qed

text \<open>Along the steps of a transaction, the records of each group describe its change.\<close>

definition records_at :: "nat \<Rightarrow> Transaction \<Rightarrow> UndoRecord list" where
  "records_at a t = filter (record_of a) (undoRecords (undoBuffer t))"

definition run_ok :: "transaction_t \<Rightarrow> 'v groups \<Rightarrow> Transaction \<Rightarrow> 'v groups \<Rightarrow> bool" where
  "run_ok tx gs0 t gs \<longleftrightarrow> writer tx t \<and> (\<forall>x \<in> set (undoRecords (undoBuffer t)). \<exists>a. record_of a x) \<and>
     (\<forall>a. records_ok a (gs0 a) (records_at a t) \<and> written tx (gs0 a) (records_at a t) (gs a))"

lemma record_of_unique: "record_of a x \<Longrightarrow> record_of b x \<longleftrightarrow> b = a"
  by (cases x) auto

lemma run_ok_step:
  assumes run: "run_ok tx gs0 t gs" and step: "step_ok tx a (gs0 a) (records_at a t) t t' g'"
  shows "run_ok tx gs0 t' (gs(a := g'))"
proof -
  obtain rs' where t': "writer tx t'" "undoRecords (undoBuffer t') = undoRecords (undoBuffer t) @ rs'"
    and rs': "\<forall>x \<in> set rs'. record_of a x" and ok: "records_ok a (gs0 a) (records_at a t @ rs')"
    and w: "written tx (gs0 a) (records_at a t @ rs') g'"
    using step unfolding step_ok_def by blast
  have "records_at b t' = records_at b t @ (if b = a then rs' else [])" for b
  proof -
    have "filter (record_of b) rs' = (if b = a then rs' else [])"
      using rs' record_of_unique [of a _ b] by (auto simp: filter_id_conv filter_empty_conv)
    then show ?thesis by (simp add: records_at_def t'(2))
  qed
  with run t' rs' ok w show ?thesis by (auto simp: run_ok_def)
qed

lemma tx_steps_run_ok:
  assumes "tx_steps (t0, gs0) (t, gs)"
    and t0: "writer tx t0" "undoRecords (undoBuffer t0) = []"
    and inv: "\<And>a. group_inv (gs0 a)" and fresh: "\<And>a. group_fresh tx (gs0 a)"
  shows "run_ok tx gs0 t gs"
  using assms(1)
proof (induction "(t, gs)" arbitrary: t gs rule: tx_steps.induct)
  case none
  with t0 inv show ?case by (auto simp: run_ok_def records_at_def intro: records_ok.nil written_refl)
next
  case (append t gs a vectors first n k t' g')
  then have w: "written tx (gs0 a) (records_at a t) (gs a)" and ok: "records_ok a (gs0 a) (records_at a t)"
    and wr: "writer tx t" by (simp_all add: run_ok_def)
  from append.hyps obtain n' cs where "append_versions a n' (t, (gs a)\<lparr>chunks := cs\<rparr>) = Inr (k, t', g')"
    by (auto simp: ChunkedNodeGroup_append_def Let_def)
  with append_versions_step [OF _ ok wr, of "(gs a)\<lparr>chunks := cs\<rparr>"] w append.hyps
  have "step_ok tx a (gs0 a) (records_at a t) t t' g'" by simp
  then show ?case by (rule run_ok_step [OF append.hyps(2)])
next
  case (appendChunks t gs a other off n k t' g')
  then have w: "written tx (gs0 a) (records_at a t) (gs a)" and ok: "records_ok a (gs0 a) (records_at a t)"
    and wr: "writer tx t" by (simp_all add: run_ok_def)
  from appendChunks.hyps obtain n' cs where "append_versions a n' (t, (gs a)\<lparr>chunks := cs\<rparr>) = Inr (k, t', g')"
    by (auto simp: ChunkedNodeGroup_appendChunks_def Let_def)
  with append_versions_step [OF _ ok wr, of "(gs a)\<lparr>chunks := cs\<rparr>"] w appendChunks.hyps
  have "step_ok tx a (gs0 a) (records_at a t) t t' g'" by simp
  then show ?case by (rule run_ok_step [OF appendChunks.hyps(2)])
next
  case (delete t gs r a d t' g')
  then have "step_ok tx a (gs0 a) (records_at a t) t t' g'"
    using inv fresh by (intro delete_step [where g = "gs a"]) (auto simp: run_ok_def)
  then show ?case by (rule run_ok_step [OF delete.hyps(2)])
qed

subsection \<open>Rollback\<close>

text \<open>A group from which the records after \<open>rs\<close> have been rolled back. Rows that the transaction
  inserted may already have lost their version, since rolling back a vector with a shared version
  clears all of it; the deletion status of a vector is only meaningful for the rows that survive.\<close>

definition rolling_back ::
  "transaction_t \<Rightarrow> 'v ChunkedNodeGroup \<Rightarrow> UndoRecord list \<Rightarrow> 'v ChunkedNodeGroup \<Rightarrow> bool" where
  "rolling_back tx g0 rs g \<longleftrightarrow>
     numRows g = numRows g0 + inserted_rows rs \<and> vi_wf (g_vs g) \<and>
     (\<forall>r < numRows g0. row_ins (g_vs g) r = row_ins (g_vs g0) r \<and> row_del (g_vs g) r = row_raw (g_vs g) r) \<and>
     (\<forall>r. numRows g0 \<le> r \<and> r < numRows g \<longrightarrow>
        row_ins (g_vs g) r \<in> {tx, INVALID_TRANSACTION} \<and> row_status (g_vs g) r \<noteq> ALWAYS_INSERTED) \<and>
     (\<forall>r. row_raw (g_vs g) r = (if r \<in> deleted_rows rs then tx else row_raw (g_vs g0) r)) \<and>
     (cng_residencyState g = IN_MEMORY \<longrightarrow>
        (\<forall>r < numRows g0. row_status (g_vs g) r = INS_CHECK_VERSION)) \<and>
     cng_residencyState g = cng_residencyState g0 \<and> (rs \<noteq> [] \<longrightarrow> versionInfo g \<noteq> None)"

lemma written_rolling_back: "written tx g0 rs g \<Longrightarrow> rolling_back tx g0 rs g"
  by (auto simp: written_def rolling_back_def row_del_clean)

lemma rollback_insert_step:
  assumes inv: "group_inv g0" "group_fresh tx g0" and ok: "records_ok a g0 rs" and n: "0 < n"
    and rb: "rolling_back tx g0 (rs @ [InsertInfoRecord a (numRows g0 + inserted_rows rs) n]) g"
  shows "\<exists>g'. ChunkedNodeGroup_rollbackInsert (numRows g0 + inserted_rows rs) n g = Inr g' \<and>
    rolling_back tx g0 rs g'"
proof (cases "numRows g0 + inserted_rows rs = 0")
  case True
  then have rs: "rs = []" by (rule records_ok_empty [OF ok])
  with inv True rb show ?thesis
    by (auto simp: ChunkedNodeGroup_rollbackInsert_def rolling_back_def setNumRows_def group_inv_def)
next
  case False
  let ?s = "numRows g0 + inserted_rows rs"
  obtain vs where vs: "versionInfo g = Some vs" using rb by (auto simp: rolling_back_def)
  have "row_status vs r \<noteq> ALWAYS_INSERTED" if "?s \<le> r" "r < ?s + n" for r
    using rb that vs by (auto simp: rolling_back_def)
  with VersionInfo_rollbackInsert_rows [of vs n ?s] rb vs n obtain vs'
    where vs': "VersionInfo_rollbackInsert ?s n vs = Inr vs'" "vi_wf vs'"
      and rows: "\<And>r. row_raw vs' r = row_raw vs r \<and>
       (row_status vs r \<noteq> ALWAYS_INSERTED \<longrightarrow> row_status vs' r \<noteq> ALWAYS_INSERTED) \<and>
       (?s \<le> r \<and> r < ?s + n \<longrightarrow> row_ins vs' r = INVALID_TRANSACTION) \<and>
       (row_ins vs' r = row_ins vs r \<or> row_ins vs' r = INVALID_TRANSACTION \<and>
         (\<exists>r'. ?s \<le> r' \<and> r' < ?s + n \<and> row_ins vs r' = row_ins vs r)) \<and>
       (row_ins vs' r \<noteq> INVALID_TRANSACTION \<longrightarrow>
          row_status vs' r = row_status vs r \<and> row_del vs' r = row_del vs r)"
    by (auto simp: rolling_back_def)
  let ?g = "g\<lparr>versionInfo := Some vs', numRows := ?s\<rparr>"
  have run: "ChunkedNodeGroup_rollbackInsert ?s n g = Inr ?g"
    using False vs vs'(1) rb n by (auto simp: ChunkedNodeGroup_rollbackInsert_def on_versions_def rolling_back_def)
  have keep: "row_ins vs' r = row_ins (g_vs g0) r \<and> row_del vs' r = row_raw vs' r \<and>
      row_status vs' r = row_status vs r" if "r < numRows g0" for r
  proof -
    have r: "row_ins vs r = row_ins (g_vs g0) r" "row_del vs r = row_raw vs r"
      "row_ins (g_vs g0) r \<noteq> tx" "row_ins (g_vs g0) r \<noteq> INVALID_TRANSACTION"
      using rb inv that vs by (auto simp: rolling_back_def group_inv_def group_fresh_def)
    have "row_ins vs r' \<noteq> row_ins vs r" if "?s \<le> r'" "r' < ?s + n" for r'
    proof -
      have "row_ins vs r' \<in> {tx, INVALID_TRANSACTION}" using rb that vs by (auto simp: rolling_back_def)
      with r show ?thesis by auto
    qed
    with rows [of r] r(1) have "row_ins vs' r = row_ins (g_vs g0) r" by metis
    with rows [of r] r show ?thesis by simp
  qed
  have "row_ins vs' r \<in> {tx, INVALID_TRANSACTION} \<and> row_status vs' r \<noteq> ALWAYS_INSERTED"
    if "numRows g0 \<le> r" "r < ?s" for r
    using rows [of r] rb that vs by (auto simp: rolling_back_def)
  with keep rows vs' rb vs have "rolling_back tx g0 rs ?g" by (simp add: rolling_back_def)
  with run show ?thesis by blast
qed

lemma rollback_delete_step:
  assumes tx: "tx \<noteq> INVALID_TRANSACTION"
    and raw: "row_raw (g_vs g0) r = INVALID_TRANSACTION" "r \<notin> deleted_rows rs"
    and rb: "rolling_back tx g0 (rs @ [DeleteInfoRecord a r 1]) g"
  shows "\<exists>g'. ChunkedNodeGroup_rollbackDelete r 1 g = Inr g' \<and> rolling_back tx g0 rs g'"
proof -
  obtain vs where vs: "versionInfo g = Some vs" using rb by (auto simp: rolling_back_def)
  have "row_raw vs q \<noteq> INVALID_TRANSACTION" if "r \<le> q" "q < r + 1" for q
    using rb that vs tx by (auto simp: rolling_back_def)
  with VersionInfo_rollbackDelete_rows [of vs 1 r] rb vs obtain vs'
    where vs': "VersionInfo_rollbackDelete r 1 vs = Inr vs'" "vi_wf vs'"
      and rows: "\<And>q. row_ins vs' q = row_ins vs q \<and> row_status vs' q = row_status vs q \<and>
       row_raw vs' q = (if r \<le> q \<and> q < r + 1 then INVALID_TRANSACTION else row_raw vs q) \<and>
       (row_del vs q = row_raw vs q \<longrightarrow> row_del vs' q = row_raw vs' q)"
    by (auto simp: rolling_back_def)
  have "ChunkedNodeGroup_rollbackDelete r 1 g = Inr (g\<lparr>versionInfo := Some vs'\<rparr>)"
    using vs'(1) by (simp add: ChunkedNodeGroup_rollbackDelete_def on_versions_def vs)
  moreover have "rolling_back tx g0 rs (g\<lparr>versionInfo := Some vs'\<rparr>)"
    using rb rows vs vs'(2) raw by (auto simp: rolling_back_def)
  ultimately show ?thesis by blast
qed

text \<open>Rolling back all records, last one first, restores every group.\<close>

lemma on_group_Inr: "f (gs a) = Inr g \<Longrightarrow> on_group a f gs = Inr (gs(a := g))"
  by (simp add: on_group_def)

lemma rollback_record:
  assumes inv: "\<And>a. group_inv (gs0 a)" "\<And>a. group_fresh tx (gs0 a)" and tx: "tx \<noteq> INVALID_TRANSACTION"
    and x: "record_of a x" and ok: "\<And>a. records_ok a (gs0 a) (filter (record_of a) (rs @ [x]))"
    and rb: "\<And>a. rolling_back tx (gs0 a) (filter (record_of a) (rs @ [x])) (gs a)"
  shows "\<exists>gs'. rollbackVersionInfo x gs = Inr gs' \<and>
    (\<forall>a. rolling_back tx (gs0 a) (filter (record_of a) rs) (gs' a))"
proof -
  let ?rs = "filter (record_of a) rs"
  have rec: "filter (record_of a) (rs @ [x]) = ?rs @ [x]" using x by simp
  have other: "filter (record_of b) (rs @ [x]) = filter (record_of b) rs" if "b \<noteq> a" for b
    using x that record_of_unique by auto
  have okx: "records_ok a (gs0 a) (?rs @ [x])" and rbx: "rolling_back tx (gs0 a) (?rs @ [x]) (gs a)"
    using ok [of a] rb [of a] unfolding rec by auto
  from records_ok_snoc [OF okx] consider
      (ins) n where "records_ok a (gs0 a) ?rs" "0 < n"
        "x = InsertInfoRecord a (numRows (gs0 a) + inserted_rows ?rs) n"
    | (del) r where "x = DeleteInfoRecord a r 1" "row_raw (g_vs (gs0 a)) r = INVALID_TRANSACTION"
        "r \<notin> deleted_rows ?rs" by blast
  then have "\<exists>g'. rollbackVersionInfo x gs = Inr (gs(a := g')) \<and> rolling_back tx (gs0 a) ?rs g'"
  proof cases
    case ins
    with rollback_insert_step [OF inv ins(1,2)] rbx show ?thesis
      by (fastforce simp: on_group_Inr)
  next
    case del
    with rollback_delete_step [OF tx del(2,3)] rbx show ?thesis
      by (fastforce simp: on_group_Inr)
  qed
  with other rb show ?thesis by (metis fun_upd_apply)
qed

lemma rollback_records:
  assumes inv: "\<And>a. group_inv (gs0 a)" "\<And>a. group_fresh tx (gs0 a)" and tx: "tx \<noteq> INVALID_TRANSACTION"
    and "\<forall>x \<in> set rs. \<exists>a. record_of a x" and "\<And>a. records_ok a (gs0 a) (filter (record_of a) rs)"
    and "\<And>a. rolling_back tx (gs0 a) (filter (record_of a) rs) (gs a)"
  shows "\<exists>gs'. foldM rollbackVersionInfo (rev rs) gs = Inr gs' \<and> (\<forall>a. rolling_back tx (gs0 a) [] (gs' a))"
  using assms(4-)
proof (induction rs arbitrary: gs rule: rev_induct)
  case (snoc x rs)
  then obtain a where a: "record_of a x" by auto
  obtain gs1 where gs1: "rollbackVersionInfo x gs = Inr gs1"
    "\<forall>a. rolling_back tx (gs0 a) (filter (record_of a) rs) (gs1 a)"
    using rollback_record [OF inv tx a snoc.prems(2,3)] by blast
  have "records_ok b (gs0 b) (filter (record_of b) rs)" for b
    using snoc.prems(2) [of b] by (auto split: if_splits dest: records_ok_prefix)
  with snoc.IH [of gs1] snoc.prems(1) gs1 show ?case by auto
qed auto

lemma rolled_back_sees:
  assumes "rolling_back tx g0 [] g" "group_inv g0"
  shows "numRows g = numRows g0" "sees_row ts i r g = sees_row ts i r g0"
  using assms by (auto simp: rolling_back_def sees_row_def group_inv_def row_del_clean)

subsection \<open>Commit\<close>

text \<open>A group in which the first \<open>done\<close> of its records \<open>rs\<close> are committed with timestamp \<open>c\<close>. Rows
  of later records may carry the timestamp already, when they share a version with earlier ones.\<close>

definition committing ::
  "transaction_t \<Rightarrow> transaction_t \<Rightarrow> 'v ChunkedNodeGroup \<Rightarrow> UndoRecord list \<Rightarrow> UndoRecord list \<Rightarrow>
   'v ChunkedNodeGroup \<Rightarrow> bool" where
  "committing tx c g0 rs done g \<longleftrightarrow>
     numRows g = numRows g0 + inserted_rows rs \<and> vi_wf (g_vs g) \<and> vi_clean (g_vs g) \<and>
     (\<forall>r < numRows g0. row_ins (g_vs g) r = row_ins (g_vs g0) r) \<and>
     (\<forall>r. numRows g0 \<le> r \<and> r < numRows g \<longrightarrow>
        row_ins (g_vs g) r \<in> {tx, c} \<and> row_status (g_vs g) r = INS_CHECK_VERSION) \<and>
     (\<forall>r. numRows g0 \<le> r \<and> r < numRows g0 + inserted_rows done \<longrightarrow> row_ins (g_vs g) r = c) \<and>
     (\<forall>r. row_raw (g_vs g) r = (if r \<in> deleted_rows done then c
        else if r \<in> deleted_rows rs then tx else row_raw (g_vs g0) r)) \<and>
     (cng_residencyState g = IN_MEMORY \<longrightarrow>
        (\<forall>r < numRows g. row_status (g_vs g) r = INS_CHECK_VERSION)) \<and>
     cng_residencyState g = cng_residencyState g0 \<and> (rs \<noteq> [] \<longrightarrow> versionInfo g \<noteq> None)"

lemma written_committing: "written tx g0 rs g \<Longrightarrow> committing tx c g0 rs [] g"
  by (auto simp: written_def committing_def)

lemma commit_insert_step:
  assumes fresh: "group_fresh tx g0" and c: "c \<noteq> INVALID_TRANSACTION" and n: "0 < n"
    and cm: "committing tx c g0 (done @ InsertInfoRecord a (numRows g0 + inserted_rows done) n # rest) done g"
      (is "committing tx c g0 ?rs done g")
  shows "\<exists>g'. ChunkedNodeGroup_commitInsert (numRows g0 + inserted_rows done) n c g = Inr g' \<and>
    committing tx c g0 ?rs (done @ [InsertInfoRecord a (numRows g0 + inserted_rows done) n]) g'"
proof -
  let ?s = "numRows g0 + inserted_rows done"
  obtain vs where vs: "versionInfo g = Some vs" using cm by (auto simp: committing_def)
  have "row_status vs r = INS_CHECK_VERSION" if "?s \<le> r" "r < ?s + n" for r
    using cm that vs by (auto simp: committing_def)
  with VersionInfo_commitInsert_rows [of vs c n ?s] cm vs n c obtain vs'
    where vs': "VersionInfo_commitInsert ?s n c vs = Inr vs'" "vi_wf vs'"
      and rows: "\<And>r. row_raw vs' r = row_raw vs r \<and> row_del vs' r = row_del vs r \<and>
       row_status vs' r = row_status vs r \<and> (?s \<le> r \<and> r < ?s + n \<longrightarrow> row_ins vs' r = c) \<and>
       (row_ins vs' r = row_ins vs r \<or> row_ins vs' r = c \<and>
         (\<exists>r'. ?s \<le> r' \<and> r' < ?s + n \<and> row_ins vs r' = row_ins vs r))"
    by (auto simp: committing_def)
  let ?g = "g\<lparr>versionInfo := Some vs'\<rparr>"
  have run: "ChunkedNodeGroup_commitInsert ?s n c g = Inr ?g"
    by (simp add: ChunkedNodeGroup_commitInsert_def on_versions_def vs vs'(1))
  have keep: "row_ins vs' r = row_ins (g_vs g0) r" if "r < numRows g0" for r
  proof -
    have r: "row_ins vs r = row_ins (g_vs g0) r" "row_ins (g_vs g0) r \<noteq> tx"
      using cm fresh that vs by (auto simp: committing_def group_fresh_def)
    have "row_ins vs r' = row_ins vs r \<Longrightarrow> row_ins vs r = c" if "?s \<le> r'" "r' < ?s + n" for r'
    proof -
      have "row_ins vs r' \<in> {tx, c}" using cm that vs by (auto simp: committing_def)
      with r show "row_ins vs r' = row_ins vs r \<Longrightarrow> row_ins vs r = c" by auto
    qed
    with rows [of r] r(1) show ?thesis by metis
  qed
  have new: "row_ins vs' r \<in> {tx, c}" if "numRows g0 \<le> r" "r < numRows g" for r
    using rows [of r] cm that vs by (auto simp: committing_def)
  have stamped: "row_ins vs' r = c" if "numRows g0 \<le> r" "r < ?s + n" for r
  proof (cases "?s \<le> r")
    case False
    then have "row_ins vs r = c" using cm that vs by (auto simp: committing_def)
    with rows [of r] show ?thesis by auto
  qed (use rows [of r] that in simp)
  have "vi_clean vs'" using cm vs rows vi_clean_iff [of vs] vi_clean_iff [OF vs'(2)]
    by (simp add: committing_def)
  then have "committing tx c g0 ?rs (done @ [InsertInfoRecord a ?s n]) ?g"
    using cm keep new stamped rows vs'(2) vs unfolding committing_def by simp
  with run show ?thesis by blast
qed

lemma commit_delete_step:
  assumes tx: "tx \<noteq> INVALID_TRANSACTION" and r: "r \<notin> deleted_rows done"
    and cm: "committing tx c g0 (done @ DeleteInfoRecord a r 1 # rest) done g"
      (is "committing tx c g0 ?rs done g")
  shows "\<exists>g'. ChunkedNodeGroup_commitDelete r 1 c g = Inr g' \<and>
    committing tx c g0 ?rs (done @ [DeleteInfoRecord a r 1]) g'"
proof -
  obtain vs where vs: "versionInfo g = Some vs" using cm by (auto simp: committing_def)
  have wf: "vi_wf vs" "vi_clean vs" using cm vs by (simp_all add: committing_def)
  have "row_raw vs r = tx" using cm r vs by (simp add: committing_def)
  then have "row_del vs q \<noteq> INVALID_TRANSACTION" if "r \<le> q" "q < r + 1" for q
    using row_del_clean [OF wf, of q] tx that by (auto simp: le_less_Suc_eq)
  with VersionInfo_commitDelete_rows [of vs 1 r c] wf obtain vs'
    where vs': "VersionInfo_commitDelete r 1 c vs = Inr vs'" "vi_wf vs'"
      and rows: "\<And>q. row_ins vs' q = row_ins vs q \<and> row_status vs' q = row_status vs q \<and>
       row_raw vs' q = (if r \<le> q \<and> q < r + 1 then c else row_raw vs q) \<and>
       (row_del vs q = row_raw vs q \<longrightarrow> row_del vs' q = row_raw vs' q)"
    by auto
  have run: "ChunkedNodeGroup_commitDelete r 1 c g = Inr (g\<lparr>versionInfo := Some vs'\<rparr>)"
    using vs'(1) by (simp add: ChunkedNodeGroup_commitDelete_def on_versions_def vs)
  have "vi_clean vs'" using rows wf vi_clean_iff [OF wf(1)] vi_clean_iff [OF vs'(2)] by simp
  then have "committing tx c g0 ?rs (done @ [DeleteInfoRecord a r 1]) (g\<lparr>versionInfo := Some vs'\<rparr>)"
    using cm rows vs'(2) vs unfolding committing_def by auto
  with run show ?thesis by blast
qed

lemma commit_record:
  assumes fresh: "\<And>a. group_fresh tx (gs0 a)"
    and tx: "tx \<noteq> INVALID_TRANSACTION" and c: "c \<noteq> INVALID_TRANSACTION" and x: "record_of a x"
    and ok: "\<And>a. records_ok a (gs0 a) (filter (record_of a) (done @ x # rest))"
    and cm: "\<And>a. committing tx c (gs0 a) (filter (record_of a) (done @ x # rest))
      (filter (record_of a) done) (gs a)"
  shows "\<exists>gs'. commitVersionInfo c x gs = Inr gs' \<and>
    (\<forall>a. committing tx c (gs0 a) (filter (record_of a) (done @ x # rest))
      (filter (record_of a) (done @ [x])) (gs' a))"
proof -
  let ?d = "filter (record_of a) done"
  have all: "filter (record_of a) (done @ x # rest) = ?d @ x # filter (record_of a) rest" using x by simp
  have d: "filter (record_of a) (done @ [x]) = ?d @ [x]" using x by simp
  have other: "filter (record_of b) (done @ [x]) = filter (record_of b) done" if "b \<noteq> a" for b
    using x that record_of_unique by auto
  have "records_ok a (gs0 a) (?d @ [x])"
    using ok [of a] records_ok_prefix [of a "gs0 a" "?d @ [x]" "filter (record_of a) rest"]
    unfolding all by simp
  note cmx = cm [of a, unfolded all]
  from records_ok_snoc [OF \<open>records_ok a (gs0 a) (?d @ [x])\<close>] consider
      (ins) n where "0 < n" "x = InsertInfoRecord a (numRows (gs0 a) + inserted_rows ?d) n"
    | (del) r where "x = DeleteInfoRecord a r 1" "r \<notin> deleted_rows ?d" by blast
  then have "\<exists>g'. commitVersionInfo c x gs = Inr (gs(a := g')) \<and>
      committing tx c (gs0 a) (?d @ x # filter (record_of a) rest) (?d @ [x]) g'"
  proof cases
    case ins
    from commit_insert_step [OF fresh c ins(1) cmx [unfolded ins(2)]] ins(2)
    show ?thesis by (auto simp: on_group_Inr)
  next
    case del
    from commit_delete_step [OF tx del(2) cmx [unfolded del(1)]] del(1)
    show ?thesis by (auto simp: on_group_def)
  qed
  then obtain g' where g': "commitVersionInfo c x gs = Inr (gs(a := g'))"
    "committing tx c (gs0 a) (?d @ x # filter (record_of a) rest) (?d @ [x]) g'" by blast
  have "committing tx c (gs0 b) (filter (record_of b) (done @ x # rest))
      (filter (record_of b) (done @ [x])) ((gs(a := g')) b)" for b
    using g'(2) cm [of b] other [of b] all d by (cases "b = a") auto
  with g'(1) show ?thesis by blast
qed

lemma commit_records:
  assumes "\<And>a. group_fresh tx (gs0 a)" "tx \<noteq> INVALID_TRANSACTION" "c \<noteq> INVALID_TRANSACTION"
    and "\<forall>x \<in> set todo. \<exists>a. record_of a x"
    and "\<And>a. records_ok a (gs0 a) (filter (record_of a) (done @ todo))"
    and "\<And>a. committing tx c (gs0 a) (filter (record_of a) (done @ todo)) (filter (record_of a) done) (gs a)"
  shows "\<exists>gs'. foldM (commitVersionInfo c) todo gs = Inr gs' \<and>
    (\<forall>a. committing tx c (gs0 a) (filter (record_of a) (done @ todo)) (filter (record_of a) (done @ todo)) (gs' a))"
  using assms(4-)
proof (induction todo arbitrary: gs "done")
  case (Cons x todo)
  then obtain a where "record_of a x" by auto
  from commit_record [OF assms(1-3) this Cons.prems(2,3)] obtain gs1
    where gs1: "commitVersionInfo c x gs = Inr gs1"
      "\<And>a. committing tx c (gs0 a) (filter (record_of a) (done @ x # todo))
        (filter (record_of a) (done @ [x])) (gs1 a)" by blast
  have "\<exists>gs'. foldM (commitVersionInfo c) todo gs1 = Inr gs' \<and>
    (\<forall>a. committing tx c (gs0 a) (filter (record_of a) ((done @ [x]) @ todo))
       (filter (record_of a) ((done @ [x]) @ todo)) (gs' a))"
    by (rule Cons.IH) (use Cons.prems(1,2) gs1(2) in auto)
  with gs1(1) show ?case by simp
qed auto

lemma committed_inv:
  assumes "committing tx c g0 rs rs g" "group_inv g0" "records_ok a g0 rs" "c \<noteq> INVALID_TRANSACTION"
  shows "group_inv g"
proof -
  have "row_raw (g_vs g) r = INVALID_TRANSACTION" if "numRows g \<le> r" for r
    using assms records_ok_deleted [OF assms(3), of r] that
    by (auto simp: committing_def group_inv_def)
  moreover have "row_ins (g_vs g) r \<noteq> INVALID_TRANSACTION" if "r < numRows g" for r
    using assms that by (cases "r < numRows g0") (auto simp: committing_def group_inv_def)
  ultimately show ?thesis using assms(1) by (auto simp: committing_def group_inv_def)
qed

lemma rolled_back_inv:
  assumes rb: "rolling_back tx g0 [] g" and inv: "group_inv g0"
  shows "group_inv g"
proof -
  have wf: "vi_wf (g_vs g)" using rb by (simp add: rolling_back_def)
  have "row_del (g_vs g) r = row_raw (g_vs g) r" for r
  proof (cases "r < numRows g0")
    case False
    then have "row_raw (g_vs g) r = INVALID_TRANSACTION" using rb inv by (simp add: rolling_back_def group_inv_def)
    with wf show ?thesis
      by (auto simp: row_defs vi_wf_def del_ver_raw split: option.splits if_splits)
  qed (use rb in \<open>simp add: rolling_back_def\<close>)
  with rb inv wf show ?thesis by (auto simp: rolling_back_def group_inv_def vi_clean_iff)
qed

subsection \<open>Isolation and atomicity\<close>

text \<open>What a reader with start timestamp \<open>ts\<close> and identifier \<open>i\<close> gets from the code for a row.\<close>

definition row_visible :: "transaction_t \<Rightarrow> transaction_t \<Rightarrow> row_idx_t \<Rightarrow> 'v ChunkedNodeGroup \<Rightarrow> bool" where
  "row_visible ts i r g \<longleftrightarrow> r < numRows g \<and> ChunkedNodeGroup_isInserted ts i r g = Inr True \<and>
     ChunkedNodeGroup_isDeleted ts i r g = Inr False"

lemma row_visible_sees:
  "vi_wf (g_vs g) \<Longrightarrow> valid_reader ts i \<Longrightarrow> row_visible ts i r g = sees_row ts i r g"
  by (auto simp: row_visible_def sees_row_def ChunkedNodeGroup_isInserted_sees ChunkedNodeGroup_isDeleted_sees)

lemma group_inv_visible:
  "group_inv g \<Longrightarrow> valid_reader ts i \<Longrightarrow> row_visible ts i r g = sees_row ts i r g"
  by (simp add: row_visible_sees group_inv_def)

text \<open>The state in which a transaction starts: it is a writer with an empty undo buffer whose identifier
  no row carries, and every group satisfies the invariant.\<close>

definition tx_start :: "transaction_t \<Rightarrow> Transaction \<Rightarrow> 'v groups \<Rightarrow> bool" where
  "tx_start tx t gs \<longleftrightarrow> writer tx t \<and> undoRecords (undoBuffer t) = [] \<and>
     (\<forall>a. group_inv (gs a) \<and> group_fresh tx (gs a))"

lemma tx_start_run:
  assumes "tx_start tx t0 gs0" "tx_steps (t0, gs0) (t, gs)"
  shows "run_ok tx gs0 t gs" "tx \<noteq> INVALID_TRANSACTION" "group_inv (gs0 a)" "group_fresh tx (gs0 a)"
  using tx_steps_run_ok [OF assms(2)] assms(1) by (auto simp: tx_start_def writer_def)

lemma written_sees:
  assumes w: "written tx g0 rs g" and inv: "group_inv g0"
  shows "sees_row ts i r g \<longleftrightarrow> r < numRows g0 + inserted_rows rs \<and>
    sees ts i (if r < numRows g0 then row_ins (g_vs g0) r else tx) \<and>
    \<not> sees ts i (if r \<in> deleted_rows rs then tx else row_del (g_vs g0) r)"
  using assms by (auto simp: written_def sees_row_def group_inv_def row_del_clean)

lemma committed_sees:
  assumes cm: "committing tx c g0 rs rs g" and inv: "group_inv g0"
  shows "sees_row ts i r g \<longleftrightarrow> r < numRows g0 + inserted_rows rs \<and>
    sees ts i (if r < numRows g0 then row_ins (g_vs g0) r else c) \<and>
    \<not> sees ts i (if r \<in> deleted_rows rs then c else row_del (g_vs g0) r)"
  using assms by (auto simp: committing_def sees_row_def group_inv_def row_del_clean)

text \<open>A transaction that appends one row to an empty group, used to apply the theorems.\<close>

definition example_tx :: Transaction where
  "example_tx = new_Transaction WRITE (START_TRANSACTION_ID + 1) 5 False"

definition example_vector :: "nat ValueVector \<times> SelectionVector" where
  "example_vector =
     (\<lparr>vv_data = [7], vv_nullMask = new_NullMask 1\<rparr>, setToUnfiltered 1 (new_SelectionVector 1))"

definition example_groups :: "nat groups" where
  "example_groups = (\<lambda>_. new_ChunkedNodeGroup [0] 4 0 IN_MEMORY)"

lemma example_start: "tx_start (START_TRANSACTION_ID + 1) example_tx example_groups"
  by (simp add: tx_start_def example_tx_def example_groups_def writer_def new_Transaction_def
      INVALID_TRANSACTION_def START_TRANSACTION_ID_def shouldAppendToUndoBuffer_def isReadOnly_def
      DUMMY_TRANSACTION_ID_def undoRecords_def group_inv_def group_fresh_def g_vs_def
      new_ChunkedNodeGroup_def)

lemma example_append:
  "\<exists>t g v. ChunkedNodeGroup_append 0 [example_vector] 0 1 (example_tx, example_groups 0) = Inr (1, t, g) \<and>
      undoRecords (undoBuffer t) = [InsertInfoRecord 0 0 1] \<and> numRows g = 1 \<and> versionInfo g = Some [Some v] \<and>
      tx_ID t = START_TRANSACTION_ID + 1 \<and> shouldAppendToUndoBuffer t \<and>
      sameDeletionVersion v = INVALID_TRANSACTION \<and> deletedVersions v = None"
  by (simp add: example_tx_def example_vector_def example_groups_def ChunkedNodeGroup_append_def
        append_versions_def VersionInfo_append_def vector_ranges_def getQuotientRemainder_def
        new_ChunkedNodeGroup_def on_vector_def getOrCreateVersionInfo_def VectorVersionInfo_append_def
        new_Transaction_def Let_def resize_def DUMMY_TRANSACTION_ID_def START_TRANSACTION_ID_def
        shouldAppendToUndoBuffer_def isReadOnly_def pushInsertInfo_def new_VectorVersionInfo_def isSameInsertionVersion_def
        initInsertionVersionArray_def INVALID_TRANSACTION_def)

lemma example_steps:
  "\<exists>t g. tx_steps (example_tx, example_groups) (t, example_groups(0 := g)) \<and>
     records_at 0 t = [InsertInfoRecord 0 0 1]"
proof -
  obtain t g where a: "ChunkedNodeGroup_append 0 [example_vector] 0 1 (example_tx, example_groups 0) = Inr (1, t, g)"
    and rec: "undoRecords (undoBuffer t) = [InsertInfoRecord 0 0 1]" using example_append by blast
  then have "tx_steps (example_tx, example_groups) (t, example_groups(0 := g))"
    by (intro tx_steps.append [OF tx_steps.none]) (auto simp: example_groups_def new_ChunkedNodeGroup_def)
  with rec show ?thesis by (auto simp: records_at_def)
qed

text \<open>The same transaction, which then deletes the row.\<close>

lemma delete_only_row:
  assumes "versionInfo g = Some [Some v]" "tx_ID t \<noteq> INVALID_TRANSACTION" "shouldAppendToUndoBuffer t"
    "sameDeletionVersion v = INVALID_TRANSACTION" "deletedVersions v = None"
  shows "\<exists>g'. ChunkedNodeGroup_delete a 0 (t, g) = Inr (True, pushDeleteInfo a 0 1 t, g') \<and> numRows g' = numRows g"
proof -
  have z: "replicate DEFAULT_VECTOR_CAPACITY INVALID_TRANSACTION ! 0 = INVALID_TRANSACTION"
    by (rule nth_replicate) (rule DEFAULT_VECTOR_CAPACITY_pos)
  show ?thesis
    using assms
    by (simp add: ChunkedNodeGroup_delete_def VersionInfo_delete_def getQuotientRemainder_def getOrCreateVersionInfo_def Let_def
        VectorVersionInfo_delete_def isSameDeletionVersion_def initDeletionVersionArray_def z)
qed

lemma example_steps_delete:
  "\<exists>t g. tx_steps (example_tx, example_groups) (t, example_groups(0 := g)) \<and>
     numRows g = 1 \<and> records_at 0 t = [InsertInfoRecord 0 0 1, DeleteInfoRecord 0 0 1]"
proof -
  obtain t g v where a: "ChunkedNodeGroup_append 0 [example_vector] 0 1 (example_tx, example_groups 0) = Inr (1, t, g)"
    "undoRecords (undoBuffer t) = [InsertInfoRecord 0 0 1]" "numRows g = 1"
    and v: "versionInfo g = Some [Some v]" "tx_ID t = START_TRANSACTION_ID + 1" "shouldAppendToUndoBuffer t"
      "sameDeletionVersion v = INVALID_TRANSACTION" "deletedVersions v = None"
    using example_append by blast
  have "tx_ID t \<noteq> INVALID_TRANSACTION" by (simp add: v(2) INVALID_TRANSACTION_def START_TRANSACTION_ID_def)
  from delete_only_row [OF v(1) this v(3-5), of 0] obtain g'
    where d: "ChunkedNodeGroup_delete 0 0 (t, g) = Inr (True, pushDeleteInfo 0 0 1 t, g')" "numRows g' = 1"
    using a(3) by auto
  have "tx_steps (example_tx, example_groups) (t, example_groups(0 := g))"
    using a(1) by (intro tx_steps.append [OF tx_steps.none]) (auto simp: example_groups_def new_ChunkedNodeGroup_def)
  from tx_steps.delete [OF this, of 0 0 True _ g'] a(3) d(1)
  have "tx_steps (example_tx, example_groups) (pushDeleteInfo 0 0 1 t, example_groups(0 := g'))" by simp
  moreover have "records_at 0 (pushDeleteInfo 0 0 1 t) = [InsertInfoRecord 0 0 1, DeleteInfoRecord 0 0 1]"
    by (simp add: records_at_def pushDeleteInfo_def a(2))
  ultimately show ?thesis using d(2) by blast
qed

text \<open>(C1) Atomicity of rollback: whatever rows a transaction has appended and deleted, rolling its undo
  buffer back does not fail, restores the invariant and the number of rows of every group, and every
  reader sees exactly the rows it saw before the transaction.\<close>

theorem rollback_restores:
  assumes start: "tx_start tx t0 gs0" and steps: "tx_steps (t0, gs0) (t, gs)"
  shows "\<exists>gs'. reverseIterate rollbackVersionInfo (undoBuffer t) gs = Inr gs' \<and>
    (\<forall>a. group_inv (gs' a) \<and> numRows (gs' a) = numRows (gs0 a) \<and>
       (\<forall>ts i r. valid_reader ts i \<longrightarrow> row_visible ts i r (gs' a) = row_visible ts i r (gs0 a)))"
proof -
  note run = tx_start_run [OF start steps]
  have "rolling_back tx (gs0 a) (filter (record_of a) (undoRecords (undoBuffer t))) (gs a)" for a
    using run(1) by (auto simp: run_ok_def records_at_def intro: written_rolling_back)
  then obtain gs' where gs': "foldM rollbackVersionInfo (rev (undoRecords (undoBuffer t))) gs = Inr gs'"
    "\<And>a. rolling_back tx (gs0 a) [] (gs' a)"
    using rollback_records [where ?gs0.0 = gs0 and rs = "undoRecords (undoBuffer t)" and gs = gs, OF run(3,4,2)] run(1)
    by (auto simp: run_ok_def records_at_def)
  have "group_inv (gs' a)" for a by (rule rolled_back_inv [OF gs'(2) run(3)])
  moreover have "row_visible ts i r (gs' a) = row_visible ts i r (gs0 a)" if "valid_reader ts i" for ts i r a
    by (simp add: group_inv_visible [OF calculation that] group_inv_visible [OF run(3) that]
        rolled_back_sees(2) [OF gs'(2) run(3)])
  ultimately show ?thesis using gs' rolled_back_sees(1) [OF gs'(2) run(3)]
    by (auto simp: reverseIterate_undoRecords)
qed

theorem rollback_restores_witness:
  "\<exists>t gs gs'. tx_steps (example_tx, example_groups) (t, gs) \<and> records_at 0 t \<noteq> [] \<and>
     reverseIterate rollbackVersionInfo (undoBuffer t) gs = Inr gs' \<and> numRows (gs' 0) = 0"
proof -
  obtain t g where s: "tx_steps (example_tx, example_groups) (t, example_groups(0 := g))"
    and "records_at 0 t = [InsertInfoRecord 0 0 1, DeleteInfoRecord 0 0 1]" using example_steps_delete by blast
  with rollback_restores [OF example_start s] show ?thesis
    by (fastforce simp: example_groups_def new_ChunkedNodeGroup_def)
qed

text \<open>(C3) No dirty reads: while a transaction runs, a reader that is another transaction and whose start
  timestamp precedes its identifier sees the rows as they were when the transaction started.\<close>

theorem no_dirty_reads:
  assumes start: "tx_start tx t0 gs0" and steps: "tx_steps (t0, gs0) (t, gs)"
    and reader: "valid_reader ts i" "i \<noteq> tx" "ts < tx"
  shows "row_visible ts i r (gs a) = row_visible ts i r (gs0 a)"
proof -
  note run = tx_start_run [OF start steps]
  have w: "written tx (gs0 a) (records_at a t) (gs a)" and ok: "records_ok a (gs0 a) (records_at a t)"
    using run(1) by (auto simp: run_ok_def)
  have "\<not> sees ts i tx" using reader by (auto simp: sees_def)
  moreover have "row_del (g_vs (gs0 a)) r = INVALID_TRANSACTION" if "r \<in> deleted_rows (records_at a t)"
    using records_ok_deleted [OF ok that] run(3) by (simp add: group_inv_def row_del_clean)
  ultimately have "sees_row ts i r (gs a) = sees_row ts i r (gs0 a)"
    using reader(1) unfolding written_sees [OF w run(3)] by (auto simp: sees_row_def)
  with reader(1) run(3) w show ?thesis by (simp add: row_visible_sees written_def group_inv_def)
qed

theorem no_dirty_reads_witness:
  "\<exists>t gs. tx_steps (example_tx, example_groups) (t, gs) \<and> records_at 0 t \<noteq> [] \<and>
     row_visible 5 (START_TRANSACTION_ID + 2) 0 (gs 0) = row_visible 5 (START_TRANSACTION_ID + 2) 0 (example_groups 0)"
proof -
  obtain t g where s: "tx_steps (example_tx, example_groups) (t, example_groups(0 := g))"
    and rec: "records_at 0 t = [InsertInfoRecord 0 0 1]" using example_steps by blast
  have "row_visible 5 (START_TRANSACTION_ID + 2) 0 ((example_groups(0 := g)) 0) =
      row_visible 5 (START_TRANSACTION_ID + 2) 0 (example_groups 0)"
    by (rule no_dirty_reads [OF example_start s])
      (simp_all add: valid_reader_def INVALID_TRANSACTION_def START_TRANSACTION_ID_def)
  with s rec show ?thesis by (metis list.distinct(1))
qed

text \<open>(C4) Read your own writes: the transaction sees the rows it saw when it started and those it has
  appended, without those it has deleted.\<close>

theorem own_writes_visible:
  assumes start: "tx_start tx t0 gs0" and steps: "tx_steps (t0, gs0) (t, gs)" and reader: "valid_reader ts tx"
  shows "row_visible ts tx r (gs a) \<longleftrightarrow>
    (row_visible ts tx r (gs0 a) \<or>
       numRows (gs0 a) \<le> r \<and> r < numRows (gs0 a) + inserted_rows (records_at a t)) \<and>
    r \<notin> deleted_rows (records_at a t)"
proof -
  note run = tx_start_run [OF start steps]
  have w: "written tx (gs0 a) (records_at a t) (gs a)" using run(1) by (auto simp: run_ok_def)
  have raw: "row_del (g_vs (gs0 a)) r = INVALID_TRANSACTION" if "numRows (gs0 a) \<le> r"
    using run(3) that by (simp add: group_inv_def row_del_clean)
  have "sees_row ts tx r (gs a) \<longleftrightarrow>
    (sees_row ts tx r (gs0 a) \<or> numRows (gs0 a) \<le> r \<and> r < numRows (gs0 a) + inserted_rows (records_at a t)) \<and>
    r \<notin> deleted_rows (records_at a t)"
    using reader raw unfolding written_sees [OF w run(3)]
    by (cases "r < numRows (gs0 a)") (auto simp: sees_row_def sees_def valid_reader_def)
  with reader run(3) w show ?thesis by (simp add: row_visible_sees written_def group_inv_def)
qed

theorem own_writes_visible_witness:
  "(\<exists>t gs. tx_steps (example_tx, example_groups) (t, gs) \<and> row_visible 5 (START_TRANSACTION_ID + 1) 0 (gs 0)) \<and>
   (\<exists>t gs. tx_steps (example_tx, example_groups) (t, gs) \<and> numRows (gs 0) = 1 \<and>
      \<not> row_visible 5 (START_TRANSACTION_ID + 1) 0 (gs 0))"
proof
  have r: "valid_reader 5 (START_TRANSACTION_ID + 1)"
    by (simp add: valid_reader_def INVALID_TRANSACTION_def START_TRANSACTION_ID_def)
  obtain t g where s: "tx_steps (example_tx, example_groups) (t, example_groups(0 := g))"
    and rec: "records_at 0 t = [InsertInfoRecord 0 0 1]" using example_steps by blast
  from own_writes_visible [OF example_start s r, of 0 0]
  have "row_visible 5 (START_TRANSACTION_ID + 1) 0 ((example_groups(0 := g)) 0)"
    by (simp add: rec example_groups_def new_ChunkedNodeGroup_def)
  with s show "\<exists>t gs. tx_steps (example_tx, example_groups) (t, gs) \<and> row_visible 5 (START_TRANSACTION_ID + 1) 0 (gs 0)" by blast
  obtain t' g' where d: "tx_steps (example_tx, example_groups) (t', example_groups(0 := g'))" "numRows g' = 1"
    and rec': "records_at 0 t' = [InsertInfoRecord 0 0 1, DeleteInfoRecord 0 0 1]" using example_steps_delete by blast
  from own_writes_visible [OF example_start d(1) r, of 0 0]
  have "\<not> row_visible 5 (START_TRANSACTION_ID + 1) 0 ((example_groups(0 := g')) 0)" by (simp add: rec')
  with d show "\<exists>t gs. tx_steps (example_tx, example_groups) (t, gs) \<and> numRows (gs 0) = 1 \<and>
      \<not> row_visible 5 (START_TRANSACTION_ID + 1) 0 (gs 0)" by (metis fun_upd_same)
qed

text \<open>(C2) Commit: committing the undo buffer of a transaction with a timestamp does not fail and keeps the
  invariant of every group; a snapshot taken before that timestamp does not change, and a later one
  has the rows the transaction appended and lacks those it deleted.\<close>

theorem commit_snapshots:
  assumes start: "tx_start tx t0 gs0" and steps: "tx_steps (t0, gs0) (t, gs)"
    and c: "c \<noteq> INVALID_TRANSACTION"
  shows "\<exists>gs'. iterate (commitVersionInfo c) (undoBuffer t) gs = Inr gs' \<and>
    (\<forall>a. group_inv (gs' a) \<and>
       (\<forall>ts i r. valid_reader ts i \<and> i \<noteq> c \<and> ts < c \<longrightarrow>
          row_visible ts i r (gs' a) = row_visible ts i r (gs0 a)) \<and>
       (\<forall>ts i r. valid_reader ts i \<and> c \<le> ts \<longrightarrow> row_visible ts i r (gs' a) =
          ((row_visible ts i r (gs0 a) \<or>
             numRows (gs0 a) \<le> r \<and> r < numRows (gs0 a) + inserted_rows (records_at a t)) \<and>
           r \<notin> deleted_rows (records_at a t))))"
proof -
  note run = tx_start_run [OF start steps]
  have "committing tx c (gs0 a) (filter (record_of a) ([] @ undoRecords (undoBuffer t))) (filter (record_of a) []) (gs a)" for a
    using run(1) by (auto simp: run_ok_def records_at_def intro: written_committing)
  with commit_records [where ?gs0.0 = gs0 and todo = "undoRecords (undoBuffer t)" and ?done = "[]" and gs = gs,
      OF run(4,2) c] run(1)
  obtain gs' where gs': "foldM (commitVersionInfo c) (undoRecords (undoBuffer t)) gs = Inr gs'"
    "\<And>a. committing tx c (gs0 a) (records_at a t) (records_at a t) (gs' a)"
    by (auto simp: run_ok_def records_at_def)
  have ok: "records_ok a (gs0 a) (records_at a t)" for a using run(1) by (auto simp: run_ok_def)
  have inv': "group_inv (gs' a)" for a by (rule committed_inv [OF gs'(2) run(3) ok c])
  have del: "row_del (g_vs (gs0 a)) r = INVALID_TRANSACTION"
    if "numRows (gs0 a) \<le> r \<or> r \<in> deleted_rows (records_at a t)" for a r
    using records_ok_deleted [OF ok] that run(3) [of a] by (auto simp: group_inv_def row_del_clean)
  have vis: "row_visible ts i r (gs' a) = sees_row ts i r (gs' a)"
    "row_visible ts i r (gs0 a) = sees_row ts i r (gs0 a)" if "valid_reader ts i" for ts i r a
    by (rule group_inv_visible [OF inv' that], rule group_inv_visible [OF run(3) that])
  have "sees_row ts i r (gs' a) = sees_row ts i r (gs0 a)"
    if "valid_reader ts i" "i \<noteq> c" "ts < c" for ts i r a
  proof -
    have "\<not> sees ts i c" using that by (auto simp: sees_def)
    with that(1) del [of a r] show ?thesis
      unfolding committed_sees [OF gs'(2) run(3)] by (auto simp: sees_row_def)
  qed
  moreover have "sees_row ts i r (gs' a) = ((sees_row ts i r (gs0 a) \<or>
       numRows (gs0 a) \<le> r \<and> r < numRows (gs0 a) + inserted_rows (records_at a t)) \<and>
       r \<notin> deleted_rows (records_at a t))" if "valid_reader ts i" "c \<le> ts" for ts i r a
  proof -
    have "sees ts i c" using that by (auto simp: sees_def)
    with that(1) del [of a r] show ?thesis
      unfolding committed_sees [OF gs'(2) run(3)]
      by (cases "r < numRows (gs0 a)") (auto simp: sees_row_def)
  qed
  ultimately show ?thesis using gs'(1) inv' vis by (auto simp: iterate_undoRecords)
qed

theorem commit_snapshots_witness:
  "\<exists>t gs gs'. tx_steps (example_tx, example_groups) (t, gs) \<and>
     iterate (commitVersionInfo 6) (undoBuffer t) gs = Inr gs' \<and>
     row_visible 6 (START_TRANSACTION_ID + 2) 0 (gs' 0) \<and> \<not> row_visible 5 (START_TRANSACTION_ID + 2) 0 (gs' 0)"
proof -
  obtain t g where s: "tx_steps (example_tx, example_groups) (t, example_groups(0 := g))"
    and rec: "records_at 0 t = [InsertInfoRecord 0 0 1]" using example_steps by blast
  have r: "valid_reader 6 (START_TRANSACTION_ID + 2)" "valid_reader 5 (START_TRANSACTION_ID + 2)"
    "START_TRANSACTION_ID + 2 \<noteq> (6 :: transaction_t)"
    by (simp_all add: valid_reader_def INVALID_TRANSACTION_def START_TRANSACTION_ID_def)
  have "\<not> row_visible 5 (START_TRANSACTION_ID + 2) 0 (example_groups 0)"
    by (simp add: row_visible_def example_groups_def new_ChunkedNodeGroup_def)
  moreover have "numRows (example_groups 0) = 0" by (simp add: example_groups_def new_ChunkedNodeGroup_def)
  moreover have "(6 :: transaction_t) \<noteq> INVALID_TRANSACTION" by (simp add: INVALID_TRANSACTION_def)
  from commit_snapshots [OF example_start s this] obtain gs'
    where gs': "iterate (commitVersionInfo 6) (undoBuffer t) (example_groups(0 := g)) = Inr gs'"
    and old: "\<And>ts i r. valid_reader ts i \<and> i \<noteq> 6 \<and> ts < 6 \<longrightarrow>
        row_visible ts i r (gs' 0) = row_visible ts i r (example_groups 0)"
    and new: "\<And>ts i r. valid_reader ts i \<and> 6 \<le> ts \<longrightarrow> row_visible ts i r (gs' 0) =
        ((row_visible ts i r (example_groups 0) \<or> numRows (example_groups 0) \<le> r \<and>
          r < numRows (example_groups 0) + inserted_rows (records_at 0 t)) \<and> r \<notin> deleted_rows (records_at 0 t))"
    by blast
  ultimately have "row_visible 6 (START_TRANSACTION_ID + 2) 0 (gs' 0)"
    "\<not> row_visible 5 (START_TRANSACTION_ID + 2) 0 (gs' 0)"
    using r old [of 5 "START_TRANSACTION_ID + 2" 0] new [of 6 "START_TRANSACTION_ID + 2" 0] by (simp_all add: rec)
  with s gs' show ?thesis by blast
qed

end
