(* ===== verification/Numeric_Text.thy ===== *)
theory Numeric_Text
  imports Kuzu_Prelude
begin

text \<open>
  Decimal numerals: \<^verbatim>\<open>NumericHelper\<close> of \<^verbatim>\<open>src/src/include/common/types/cast_helpers.h\<close>, which formats numbers two
  digits at a time from the right, and the character classes of \<^verbatim>\<open>src/src/include/common/string_utils.h\<close>. The
  numeral \<open>decimal n\<close> of a number and its reading \<open>read_decimal\<close> are the reference the formatting
  routines are compared with. A routine that writes its digits in front of a pointer is a function that puts
  them in front of the text that follows.
\<close>

subsection \<open>Characters\<close>

definition CharacterIsDigit :: "char \<Rightarrow> bool" where
  "CharacterIsDigit c \<longleftrightarrow> 48 \<le> (of_char c :: nat) \<and> (of_char c :: nat) \<le> 57"

definition isSpace :: "char \<Rightarrow> bool" where
  "isSpace c \<longleftrightarrow> c = CHR '' '' \<or> c = CHR 0x09 \<or> c = CHR 0x0A \<or> c = CHR 0x0B \<or> c = CHR 0x0C \<or> c = CHR 0x0D"

text \<open>The value of a digit, \<^verbatim>\<open>c - '0'\<close>.\<close>

definition digit_value :: "char \<Rightarrow> int" where
  "digit_value c = int (of_char c) - 48"

definition digit_char :: "nat \<Rightarrow> char" where
  "digit_char n = char_of (48 + n)"

definition toLower :: "string \<Rightarrow> string" where
  "toLower input = map (\<lambda>c. if 65 \<le> (of_char c :: nat) \<and> (of_char c :: nat) \<le> 90
                            then char_of (of_char c + 32 :: nat) else c) input"

subsection \<open>Formatting\<close>

definition digits :: string where
  "digits = ''0001020304050607080910111213141516171819'' @ ''2021222324252627282930313233343536373839'' @
     ''4041424344454647484950515253545556575859'' @ ''6061626364656667686970717273747576777879'' @
     ''8081828384858687888990919293949596979899''"

function FormatUnsigned :: "nat \<Rightarrow> string \<Rightarrow> string" where
  "FormatUnsigned v ptr =
     (if v \<ge> 100
      then let index = v mod 100 * 2
           in FormatUnsigned (v div 100) (digits ! index # digits ! (index + 1) # ptr)
      else if v < 10 then digit_char v # ptr
      else let index = v * 2 in digits ! index # digits ! (index + 1) # ptr)"
  by pat_completeness auto

termination FormatUnsigned
  by (relation "measure fst") auto

declare FormatUnsigned.simps [simp del]

definition getUnsignedInt64Length :: "nat \<Rightarrow> nat" where
  "getUnsignedInt64Length v =
     (if v \<ge> 10000000000 then
        if v \<ge> 1000000000000000
        then 16 + of_bool (v \<ge> 10000000000000000) + of_bool (v \<ge> 100000000000000000) +
             of_bool (v \<ge> 1000000000000000000) + of_bool (v \<ge> 10000000000000000000)
        else 11 + of_bool (v \<ge> 100000000000) + of_bool (v \<ge> 1000000000000) +
             of_bool (v \<ge> 10000000000000) + of_bool (v \<ge> 100000000000000)
      else
        if v \<ge> 100000
        then 6 + of_bool (v \<ge> 1000000) + of_bool (v \<ge> 10000000) + of_bool (v \<ge> 100000000) +
             of_bool (v \<ge> 1000000000)
        else 1 + of_bool (v \<ge> 10) + of_bool (v \<ge> 100) + of_bool (v \<ge> 1000) +
             of_bool (v \<ge> 10000))"

subsection \<open>Numerals\<close>

fun decimal :: "nat \<Rightarrow> string" where
  "decimal n = (if n = 0 then [] else decimal (n div 10) @ [digit_char (n mod 10)])"

declare decimal.simps [simp del]

definition decimal_int :: "int \<Rightarrow> string" where
  "decimal_int v = (if v = 0 then ''0'' else if v < 0 then ''-'' @ decimal (nat (- v)) else decimal (nat v))"

definition read_decimal :: "string \<Rightarrow> nat" where
  "read_decimal s = foldl (\<lambda>v c. 10 * v + nat (digit_value c)) 0 s"

definition read_decimal_int :: "string \<Rightarrow> int" where
  "read_decimal_int s = (if s \<noteq> [] \<and> hd s = CHR ''-'' then - int (read_decimal (tl s)) else int (read_decimal s))"

lemma digit_value_char [simp]: "n < 10 \<Longrightarrow> digit_value (digit_char n) = int n"
  by (simp add: digit_value_def digit_char_def of_char_of)

lemma CharacterIsDigit_char [simp]: "n < 10 \<Longrightarrow> CharacterIsDigit (digit_char n)"
  by (simp add: CharacterIsDigit_def digit_char_def of_char_of)

lemma digit_char_0: "digit_char 0 = CHR ''0''"
  unfolding digit_char_def using char_of_char [of "CHR ''0''", where ?'a = nat] by simp

lemma decimal_0 [simp]: "decimal 0 = []"
  by (simp add: decimal.simps)

lemma decimal_eq_Nil [simp]: "decimal n = [] \<longleftrightarrow> n = 0"
  by (simp add: decimal.simps [of n])

lemma decimal_digits: "\<forall>c \<in> set (decimal n). CharacterIsDigit c"
  by (induction n rule: decimal.induct) (subst decimal.simps, auto)

lemma read_decimal_snoc [simp]: "n < 10 \<Longrightarrow> read_decimal (s @ [digit_char n]) = 10 * read_decimal s + n"
  by (simp add: read_decimal_def)

lemma read_decimal_decimal [simp]: "read_decimal (decimal n) = n"
proof (induction n rule: decimal.induct)
  case (1 n)
  show ?case
  proof (cases "n = 0")
    case False
    then have "read_decimal (decimal n) = 10 * read_decimal (decimal (n div 10)) + n mod 10"
      by (subst decimal.simps) simp
    with 1 False show ?thesis by simp
  qed (simp add: read_decimal_def)
qed

lemma digit_char_0_iff: "n < 10 \<Longrightarrow> digit_char n = CHR ''0'' \<longleftrightarrow> n = 0"
  using digit_value_char [of n] digit_value_char [of 0] digit_char_0 by (metis of_nat_eq_iff zero_less_numeral)

lemma hd_decimal: "n \<noteq> 0 \<Longrightarrow> hd (decimal n) \<noteq> CHR ''0''"
proof (induction n rule: decimal.induct)
  case (1 n)
  show ?case
  proof (cases "n div 10 = 0")
    case True
    then have "decimal n = [digit_char (n mod 10)]" using 1(2) by (subst decimal.simps) simp
    then show ?thesis using True 1(2) digit_char_0_iff [of "n mod 10"] by auto
  next
    case False
    then show ?thesis using 1 by (subst decimal.simps) simp
  qed
qed

lemma not_sign_digit: "CharacterIsDigit c \<Longrightarrow> c \<noteq> CHR ''-''"
  by (auto simp: CharacterIsDigit_def)

lemma read_decimal_int: "read_decimal_int (decimal_int v) = v"
proof -
  have "hd (decimal n) \<noteq> CHR ''-''" if "n \<noteq> 0" for n
    using that decimal_digits [of n] not_sign_digit by (metis decimal_eq_Nil list.set_sel(1))
  from this [of "nat v"] show ?thesis
    using read_decimal_snoc [of 0 "[]"]
    by (auto simp: read_decimal_int_def decimal_int_def digit_char_0 read_decimal_def [of "[]"])
qed

lemma digits_codes:
  "map of_char digits = concat (map (\<lambda>n. [48 + n div 10, 48 + n mod 10 :: nat]) [0..<100])"
  by (simp add: digits_def upt_rec)

lemma nth_concat_pairs:
  "n < length xs \<Longrightarrow>
   concat (map (\<lambda>n. [f n, g n]) xs) ! (n * 2) = f (xs ! n) \<and> concat (map (\<lambda>n. [f n, g n]) xs) ! (n * 2 + 1) = g (xs ! n)"
  by (induction xs arbitrary: n) (auto simp: nth_Cons split: nat.splits)

lemma digits_nth:
  assumes "n < 100"
  shows "digits ! (n * 2) = digit_char (n div 10) \<and> digits ! (n * 2 + 1) = digit_char (n mod 10)"
proof -
  have len: "length digits = 200" by (simp add: digits_def)
  have "of_char (digits ! (n * 2)) = (48 + n div 10 :: nat)" "of_char (digits ! (n * 2 + 1)) = (48 + n mod 10 :: nat)"
    using assms nth_concat_pairs [of n "[0..<100]" "\<lambda>n. 48 + n div 10" "\<lambda>n. 48 + n mod 10"]
    unfolding digits_codes [symmetric] by (simp_all add: len)
  then show ?thesis unfolding digit_char_def by (metis char_of_char)
qed

lemma decimal_two:
  assumes "10 \<le> n"
  shows "decimal n = decimal (n div 100) @ [digit_char (n mod 100 div 10), digit_char (n mod 100 mod 10)]"
proof -
  have "decimal n = decimal (n div 10) @ [digit_char (n mod 10)]" using assms by (subst decimal.simps) simp
  also have "decimal (n div 10) = decimal (n div 10 div 10) @ [digit_char (n div 10 mod 10)]"
    using assms by (subst decimal.simps) simp
  also have "n div 10 div 10 = n div 100" using div_mult2_eq [of n 10 10] by simp
  finally show ?thesis using mod_mult2_eq [of n 10 10] by simp
qed

lemma decimal_digit: "0 < n \<Longrightarrow> n < 10 \<Longrightarrow> decimal n = [digit_char n]"
  by (subst decimal.simps) simp

lemma FormatUnsigned_decimal: "FormatUnsigned n ptr = (if n = 0 then ''0'' else decimal n) @ ptr"
proof (induction n ptr rule: FormatUnsigned.induct)
  case (1 n ptr)
  consider "n \<ge> 100" | "n < 10" | "10 \<le> n" "n < 100" by linarith
  then show ?case
  proof cases
    case 1
    then have "n div 100 \<noteq> 0" by simp
    with 1 "1.IH" [OF 1 refl] show ?thesis
      using digits_nth [of "n mod 100"] by (subst FormatUnsigned.simps) (simp add: decimal_two)
  next
    case 2
    then show ?thesis by (subst FormatUnsigned.simps) (simp add: decimal_digit digit_char_0)
  next
    case 3
    then show ?thesis using digits_nth [of n] by (subst FormatUnsigned.simps) (simp add: decimal_two)
  qed
qed

lemma length_decimal: "10 ^ k \<le> n \<Longrightarrow> n < 10 ^ Suc k \<Longrightarrow> length (decimal n) = Suc k"
proof (induction k arbitrary: n)
  case 0
  then show ?case by (simp add: decimal_digit)
next
  case (Suc k)
  then have "length (decimal (n div 10)) = Suc k" by (intro Suc.IH) auto
  moreover have "n \<noteq> 0" using Suc.prems by auto
  ultimately show ?case by (subst decimal.simps) simp
qed

lemma decimal_length_exists: "0 < n \<Longrightarrow> \<exists>k. 10 ^ k \<le> n \<and> n < 10 ^ Suc k" for n :: nat
proof (induction n rule: less_induct)
  case (less n)
  show ?case
  proof (cases "n < 10")
    case True
    with less.prems show ?thesis by (intro exI [of _ 0]) simp
  next
    case False
    then have "n div 10 < n" "0 < n div 10" by auto
    from less.IH [OF this] obtain k where "10 ^ k \<le> n div 10" "n div 10 < 10 ^ Suc k" by blast
    then show ?thesis by (intro exI [of _ "Suc k"]) auto
  qed
qed

lemma getUnsignedInt64Length_decimal:
  assumes "n < 2 ^ 64"
  shows "getUnsignedInt64Length n = length (if n = 0 then ''0'' else decimal n)"
proof (cases "n = 0")
  case False
  then obtain k where k: "10 ^ k \<le> n" "n < 10 ^ Suc k" using decimal_length_exists by auto
  then have len: "length (decimal n) = Suc k" by (rule length_decimal)
  have "k < 20"
  proof (rule ccontr)
    assume "\<not> k < 20"
    then have "(10 :: nat) ^ 20 \<le> 10 ^ k" by (intro power_increasing) simp_all
    with k(1) assms show False by simp
  qed
  then have "k \<in> {0, 1, 2, 3, 4, 5, 6, 7, 8, 9, 10, 11, 12, 13, 14, 15, 16, 17, 18, 19}"
    unfolding insert_iff empty_iff by presburger
  with k have "getUnsignedInt64Length n = Suc k" by (elim insertE emptyE) (simp_all add: getUnsignedInt64Length_def)
  with len False show ?thesis by simp
qed (simp add: getUnsignedInt64Length_def)

end
