(* ===== verification/Int128.thy ===== *)
theory Int128
  imports Numeric_Text "HOL-Library.Signed_Division"
begin

text \<open>
  128-bit integers: \<^verbatim>\<open>int128_t\<close> and \<^verbatim>\<open>Int128_t\<close> of \<^verbatim>\<open>src/src/include/common/types/int128_t.h\<close> and
  \<^verbatim>\<open>src/src/common/types/int128_t.cpp\<close>, with the decimal tables of
  \<^verbatim>\<open>src/src/include/function/cast/functions/numeric_limits.h\<close>. A value is a pair of 64-bit words,
  the low one unsigned and the high one signed; \<open>int128_val\<close> is the integer it stands for, and
  every operation is shown to compute the operation on integers, or to throw when the result is out of
  range. Conversions from and to floating point are not modelled. Signed arithmetic on the
  high word wraps, as the compiled code does. This theory holds the model, comparison, negation, addition and
  subtraction; the theories \<^verbatim>\<open>Int128_Mult\<close>, \<^verbatim>\<open>Int128_Division\<close> and \<^verbatim>\<open>Int128_Bits\<close> show the rest.
\<close>

unbundle bit_operations_syntax

subsection \<open>Values\<close>

record int128_t =
  low :: "64 word"
  high :: "64 word"

definition int128 :: "64 word \<Rightarrow> 64 word \<Rightarrow> int128_t" where
  "int128 l h = \<lparr>low = l, high = h\<rparr>"

definition INT64_MIN :: "64 word" where "INT64_MIN = 0x8000000000000000"
definition INT64_MAX :: "64 word" where "INT64_MAX = 0x7fffffffffffffff"
definition UINT64_MAX :: "64 word" where "UINT64_MAX = 0xffffffffffffffff"

definition int128_val :: "int128_t \<Rightarrow> int" where
  "int128_val x = sint (high x) * 2 ^ 64 + uint (low x)"

subsection \<open>Comparison\<close>

definition Int128_Equals :: "int128_t \<Rightarrow> int128_t \<Rightarrow> bool" where
  "Int128_Equals lhs rhs \<longleftrightarrow> low lhs = low rhs \<and> high lhs = high rhs"

definition Int128_notEquals :: "int128_t \<Rightarrow> int128_t \<Rightarrow> bool" where
  "Int128_notEquals lhs rhs \<longleftrightarrow> low lhs \<noteq> low rhs \<or> high lhs \<noteq> high rhs"

definition Int128_greaterThan :: "int128_t \<Rightarrow> int128_t \<Rightarrow> bool" where
  "Int128_greaterThan lhs rhs \<longleftrightarrow>
     sint (high lhs) > sint (high rhs) \<or> high lhs = high rhs \<and> low lhs > low rhs"

definition Int128_greaterThanOrEquals :: "int128_t \<Rightarrow> int128_t \<Rightarrow> bool" where
  "Int128_greaterThanOrEquals lhs rhs \<longleftrightarrow>
     sint (high lhs) > sint (high rhs) \<or> high lhs = high rhs \<and> low lhs \<ge> low rhs"

definition Int128_lessThan :: "int128_t \<Rightarrow> int128_t \<Rightarrow> bool" where
  "Int128_lessThan lhs rhs \<longleftrightarrow>
     sint (high lhs) < sint (high rhs) \<or> high lhs = high rhs \<and> low lhs < low rhs"

definition Int128_lessThanOrEquals :: "int128_t \<Rightarrow> int128_t \<Rightarrow> bool" where
  "Int128_lessThanOrEquals lhs rhs \<longleftrightarrow>
     sint (high lhs) < sint (high rhs) \<or> high lhs = high rhs \<and> low lhs \<le> low rhs"

subsection \<open>Negation, addition and subtraction\<close>

definition negateInPlace :: "int128_t \<Rightarrow> int128_t result" where
  "negateInPlace input =
     (if high input = INT64_MIN \<and> low input = 0
      then Inl (StdOverflowError ''INT128 is out of range: cannot negate INT128_MIN'')
      else let l = UINT64_MAX + 1 - low input
           in Inr (int128 l (- high input - 1 + of_bool (l = 0))))"

text \<open>The in-place operations return their flag and the value they leave in the left operand.\<close>

definition addInPlace :: "int128_t \<Rightarrow> int128_t \<Rightarrow> bool \<times> int128_t" where
  "addInPlace lhs rhs =
     (let overflow = of_bool (low lhs + low rhs < low lhs);
          failed = (if 0 \<le> sint (high rhs)
                    then sint (high lhs) > sint (INT64_MAX - high rhs - overflow)
                    else sint (high lhs) < sint (INT64_MIN - high rhs - overflow))
      in if failed then (False, lhs)
         else let res = int128 (low lhs + low rhs) (high lhs + high rhs + overflow)
              in (\<not> (high res = INT64_MIN \<and> low res = 0), res))"

definition subInPlace :: "int128_t \<Rightarrow> int128_t \<Rightarrow> bool \<times> int128_t" where
  "subInPlace lhs rhs =
     (let underflow = of_bool (low lhs - low rhs > low lhs);
          failed = (if 0 \<le> sint (high rhs)
                    then sint (high lhs) < sint (INT64_MIN + high rhs + underflow)
                    else sint (high lhs) > sint INT64_MIN \<and>
                         sint (high lhs - 1) \<ge> sint (INT64_MAX + high rhs + underflow))
      in if failed then (False, lhs)
         else let res = int128 (low lhs - low rhs) (high lhs - high rhs - underflow)
              in (\<not> (high res = INT64_MIN \<and> low res = 0), res))"

definition Int128_Add :: "int128_t \<Rightarrow> int128_t \<Rightarrow> int128_t result" where
  "Int128_Add lhs rhs =
     (case addInPlace lhs rhs of
        (True, res) \<Rightarrow> Inr res
      | (False, _) \<Rightarrow> Inl (OverflowException ''INT128 is out of range: cannot add.''))"

definition Int128_Sub :: "int128_t \<Rightarrow> int128_t \<Rightarrow> int128_t result" where
  "Int128_Sub lhs rhs =
     (case subInPlace lhs rhs of
        (True, res) \<Rightarrow> Inr res
      | (False, _) \<Rightarrow> Inl (OverflowException ''INT128 is out of range: cannot subtract.''))"

subsection \<open>Multiplication\<close>

text \<open>The compiler intrinsic \<^verbatim>\<open>__builtin_mul_overflow\<close> on \<^verbatim>\<open>__uint128_t\<close>: whether the product overflows,
  and the product modulo \<open>2 ^ 128\<close>.\<close>

definition builtin_mul_overflow :: "128 word \<Rightarrow> 128 word \<Rightarrow> bool \<times> 128 word" where
  "builtin_mul_overflow a b = (2 ^ 128 \<le> uint a * uint b, a * b)"

text \<open>The magnitude product, as compiled with a native 128-bit type. \<open>None\<close> is \<^verbatim>\<open>return false\<close>.\<close>

definition multiply_native :: "int128_t \<Rightarrow> int128_t \<Rightarrow> int128_t option" where
  "multiply_native lhs rhs =
     (let left = ucast (low lhs) + push_bit 64 (scast (high lhs)) :: 128 word;
          right = ucast (low rhs) + push_bit 64 (scast (high rhs));
          (overflow, result_i128) = builtin_mul_overflow left right
      in if overflow then None
         else let h = ucast (drop_bit 64 result_i128) :: 64 word
              in if h AND 0x8000000000000000 \<noteq> 0 then None
                 else Some (int128 (ucast (result_i128 AND 0xffffffffffffffff)) h))"

text \<open>The magnitude product without a native type, by 32-bit digits.\<close>

definition multiply_digits ::
  "64 word \<Rightarrow> 64 word \<Rightarrow> 64 word \<Rightarrow> 64 word \<Rightarrow> 64 word \<Rightarrow> 64 word \<Rightarrow> 64 word \<Rightarrow> 64 word \<Rightarrow> int128_t option" where
  "multiply_digits t0 t1 t2 t3 b0 b1 b2 b3 =
     (if t0 * b0 \<noteq> 0 \<or> t0 * b1 \<noteq> 0 \<or> t0 * b2 \<noteq> 0 \<or> t1 * b0 \<noteq> 0 \<or> t2 * b0 \<noteq> 0 \<or> t1 * b1 \<noteq> 0
      then None
      else if (t0 * b3) AND 0xffffffff80000000 \<noteq> 0 \<or> (t1 * b2) AND 0xffffffff80000000 \<noteq> 0 \<or>
              (t2 * b1) AND 0xffffffff80000000 \<noteq> 0 \<or> (t3 * b0) AND 0xffffffff80000000 \<noteq> 0
      then None
      else
        let m = 0xffffffff;
            fourth32 = t3 * b3 AND m;
            third32 = (t3 * b2 AND m) + drop_bit 32 (t3 * b3);
            second32 = (t3 * b1 AND m) + drop_bit 32 (t3 * b2);
            first32 = (t3 * b0 AND m) + drop_bit 32 (t3 * b1);
            third32 = third32 + (t2 * b3 AND m);
            second32 = second32 + ((t2 * b2 AND m) + drop_bit 32 (t2 * b3));
            first32 = first32 + ((t2 * b1 AND m) + drop_bit 32 (t2 * b2));
            second32 = second32 + (t1 * b3 AND m);
            first32 = first32 + ((t1 * b2 AND m) + drop_bit 32 (t1 * b3));
            first32 = first32 + (t0 * b3 AND m);
            third32 = third32 + drop_bit 32 fourth32;
            second32 = second32 + drop_bit 32 third32;
            first32 = first32 + drop_bit 32 second32
        in if first32 AND 0xffffff80000000 \<noteq> 0 then None
           else
             let fourth32 = fourth32 AND m; third32 = third32 AND m;
                 second32 = second32 AND m; first32 = first32 AND m
             in Some (int128 (push_bit 32 third32 OR fourth32) (push_bit 32 first32 OR second32)))"

definition multiply_portable :: "int128_t \<Rightarrow> int128_t \<Rightarrow> int128_t option" where
  "multiply_portable lhs rhs =
     multiply_digits
       (drop_bit 32 (high lhs)) (high lhs AND 0xffffffff) (drop_bit 32 (low lhs)) (low lhs AND 0xffffffff)
       (drop_bit 32 (high rhs)) (high rhs AND 0xffffffff) (drop_bit 32 (low rhs)) (low rhs AND 0xffffffff)"

text \<open>\<^verbatim>\<open>tryMultiply\<close> with either magnitude product: the signs are taken off first and put back last.\<close>

definition tryMultiply ::
  "(int128_t \<Rightarrow> int128_t \<Rightarrow> int128_t option) \<Rightarrow> int128_t \<Rightarrow> int128_t \<Rightarrow> int128_t option result" where
  "tryMultiply magnitude lhs rhs =
     (let lhs_negative = sint (high lhs) < 0; rhs_negative = sint (high rhs) < 0 in
      rbind (if lhs_negative then negateInPlace lhs else Inr lhs) (\<lambda>lhs.
      rbind (if rhs_negative then negateInPlace rhs else Inr rhs) (\<lambda>rhs.
        case magnitude lhs rhs of
          None \<Rightarrow> Inr None
        | Some res \<Rightarrow>
            if lhs_negative \<noteq> rhs_negative
            then rbind (negateInPlace res) (\<lambda>res. Inr (Some res))
            else Inr (Some res))))"

definition Int128_Mul :: "int128_t \<Rightarrow> int128_t \<Rightarrow> int128_t result" where
  "Int128_Mul lhs rhs =
     rbind (tryMultiply multiply_native lhs rhs)
       (\<lambda>r. case r of
              Some res \<Rightarrow> Inr res
            | None \<Rightarrow> Inl (OverflowException ''INT128 is out of range: cannot multiply.''))"

subsection \<open>Division\<close>

text \<open>\<^verbatim>\<open>PositiveInt128BitsAmount\<close> counts the shifts that empty the high word, or the low word when the high
  word is zero.\<close>

function shift_count :: "64 word \<Rightarrow> nat \<Rightarrow> nat" where
  "shift_count w res = (if w \<noteq> 0 then shift_count (drop_bit 1 w) (res + 1) else res)"
  by pat_completeness auto

lemma unat_drop_bit_less: "(w :: 64 word) \<noteq> 0 \<Longrightarrow> unat (drop_bit 1 w) < unat w"
  using unat_gt_0 [of w] by (simp only: unat_drop_bit_eq) (simp add: drop_bit_eq_div)

termination shift_count
  by (relation "measure (\<lambda>(w, _). unat w)") (rule wf_measure, simp only: in_measure prod.case, rule unat_drop_bit_less)

declare shift_count.simps [simp del]

definition PositiveInt128BitsAmount :: "int128_t \<Rightarrow> nat" where
  "PositiveInt128BitsAmount input =
     (if high input \<noteq> 0 then shift_count (high input) 64 else shift_count (low input) 0)"

definition PositiveInt128IsBitSet :: "int128_t \<Rightarrow> nat \<Rightarrow> bool" where
  "PositiveInt128IsBitSet input b =
     (if b < 64 then low input AND push_bit b 1 \<noteq> 0 else high input AND push_bit (b - 64) 1 \<noteq> 0)"

definition PositiveInt128LeftShift :: "int128_t \<Rightarrow> nat \<Rightarrow> int128_t" where
  "PositiveInt128LeftShift lhs amount =
     int128 (push_bit amount (low lhs)) (push_bit amount (high lhs) + drop_bit (64 - amount) (low lhs))"

fun divModPositive_loop ::
  "int128_t \<Rightarrow> 64 word \<Rightarrow> nat \<Rightarrow> int128_t \<Rightarrow> 64 word \<Rightarrow> int128_t \<times> 64 word" where
  "divModPositive_loop lhs rhs 0 result remainder = (result, remainder)"
| "divModPositive_loop lhs rhs (Suc i) result remainder =
     (let result = PositiveInt128LeftShift result 1;
          remainder = push_bit 1 remainder;
          remainder = (if PositiveInt128IsBitSet lhs i then remainder + 1 else remainder)
      in if remainder \<ge> rhs
         then let remainder = remainder - rhs;
                  l = low result + 1;
                  result = int128 l (if l = 0 then high result + 1 else high result)
              in divModPositive_loop lhs rhs i result remainder
         else divModPositive_loop lhs rhs i result remainder)"

definition divModPositive :: "int128_t \<Rightarrow> 64 word \<Rightarrow> int128_t \<times> 64 word" where
  "divModPositive lhs rhs =
     divModPositive_loop lhs rhs (PositiveInt128BitsAmount lhs) (int128 0 0) 0"

fun divMod_loop ::
  "int128_t \<Rightarrow> int128_t \<Rightarrow> nat \<Rightarrow> int128_t \<Rightarrow> int128_t \<Rightarrow> (int128_t \<times> int128_t) result" where
  "divMod_loop lhs rhs 0 div_result remainder = Inr (div_result, remainder)"
| "divMod_loop lhs rhs (Suc x) div_result remainder =
     (let div_result = PositiveInt128LeftShift div_result 1;
          remainder = PositiveInt128LeftShift remainder 1;
          remainder = (if PositiveInt128IsBitSet lhs x then snd (addInPlace remainder (int128 1 0))
                       else remainder)
      in if Int128_greaterThanOrEquals remainder rhs
         then rbind (Int128_Sub remainder rhs) (\<lambda>remainder.
                divMod_loop lhs rhs x (snd (addInPlace div_result (int128 1 0))) remainder)
         else divMod_loop lhs rhs x div_result remainder)"

definition divMod :: "int128_t \<Rightarrow> int128_t \<Rightarrow> (int128_t \<times> int128_t) result" where
  "divMod lhs rhs =
     (let lhs_negative = sint (high lhs) < 0; rhs_negative = sint (high rhs) < 0 in
      rbind (if lhs_negative then negateInPlace lhs else Inr lhs) (\<lambda>lhs.
      rbind (if rhs_negative then negateInPlace rhs else Inr rhs) (\<lambda>rhs.
      rbind (divMod_loop lhs rhs (PositiveInt128BitsAmount lhs) (int128 0 0) (int128 0 0))
        (\<lambda>(div_result, remainder).
      rbind (if lhs_negative \<noteq> rhs_negative then negateInPlace div_result else Inr div_result)
        (\<lambda>div_result.
      rbind (if lhs_negative then negateInPlace remainder else Inr remainder)
        (\<lambda>remainder. Inr (div_result, remainder)))))))"

definition Int128_Div :: "int128_t \<Rightarrow> int128_t \<Rightarrow> int128_t result" where
  "Int128_Div lhs rhs =
     (if high rhs = 0 \<and> low rhs = 0 then Inl (RuntimeException ''Divide by zero.'')
      else rbind (divMod lhs rhs) (\<lambda>(q, _). Inr q))"

definition Int128_Mod :: "int128_t \<Rightarrow> int128_t \<Rightarrow> int128_t result" where
  "Int128_Mod lhs rhs =
     (if high rhs = 0 \<and> low rhs = 0 then Inl (RuntimeException ''Modulo by zero.'')
      else rbind (divMod lhs rhs) (\<lambda>(_, r). Inr r))"

text \<open>The decimal digits are taken off from the right until the value is zero.\<close>

partial_function (option) ToString_loop :: "int128_t \<Rightarrow> string \<Rightarrow> string option" where
  "ToString_loop input result =
     (if low input = 0 \<and> high input = 0 then Some result
      else let (input, remainder) = divModPositive input 10
           in ToString_loop input (digit_char (unat remainder) # result))"

definition Int128_ToString :: "int128_t \<Rightarrow> string result" where
  "Int128_ToString input =
     (let negative = sint (high input) < 0 in
      rbind (if negative then negateInPlace input else Inr input) (\<lambda>input.
      rbind (returned (ToString_loop input [])) (\<lambda>res.
        let res = (if res = [] then ''0'' else res)
        in Inr (if negative then ''-'' @ res else res))))"

subsection \<open>Bitwise operations\<close>

definition Int128_Xor :: "int128_t \<Rightarrow> int128_t \<Rightarrow> int128_t" where
  "Int128_Xor lhs rhs = int128 (low lhs XOR low rhs) (high lhs XOR high rhs)"

definition Int128_BinaryAnd :: "int128_t \<Rightarrow> int128_t \<Rightarrow> int128_t" where
  "Int128_BinaryAnd lhs rhs = int128 (low lhs AND low rhs) (high lhs AND high rhs)"

definition Int128_BinaryOr :: "int128_t \<Rightarrow> int128_t \<Rightarrow> int128_t" where
  "Int128_BinaryOr lhs rhs = int128 (low lhs OR low rhs) (high lhs OR high rhs)"

definition Int128_BinaryNot :: "int128_t \<Rightarrow> int128_t" where
  "Int128_BinaryNot val = int128 (NOT (low val)) (NOT (high val))"

definition Int128_LeftShift :: "int128_t \<Rightarrow> nat \<Rightarrow> int128_t" where
  "Int128_LeftShift lhs amount =
     (if amount \<ge> 64 then int128 0 (push_bit (amount - 64) (low lhs))
      else if amount = 0 then lhs
      else int128 (push_bit amount (low lhs))
             (push_bit amount (high lhs) OR drop_bit (64 - amount) (low lhs)))"

definition Int128_RightShift :: "int128_t \<Rightarrow> nat \<Rightarrow> int128_t" where
  "Int128_RightShift lhs amount =
     (if amount \<ge> 64
      then int128 (signed_drop_bit (amount - 64) (high lhs)) (signed_drop_bit 63 (high lhs))
      else if amount = 0 then lhs
      else int128 (drop_bit amount (low lhs) OR push_bit (64 - amount) (high lhs))
             (signed_drop_bit amount (high lhs)))"

subsection \<open>Conversions\<close>

text \<open>The cast template, with the maximum of the destination type; \<open>None\<close> is \<^verbatim>\<open>return false\<close>. The value
  stored in the destination is given as an integer.\<close>

definition TryCastInt128Template :: "bool \<Rightarrow> 64 word \<Rightarrow> int128_t \<Rightarrow> int option result" where
  "TryCastInt128Template SIGNED maximum input =
     (if high input = 0 then
        if low input \<le> maximum then Inr (Some (uint (low input))) else Inr None
      else if high input = -1 then
        if \<not> SIGNED then
          rbind (Int128_ToString input) (\<lambda>s.
            Inl (OverflowException (''Cast failed. Cannot cast '' @ s @ '' to unsigned type.'')))
        else if low input \<ge> UINT64_MAX - maximum
             then Inr (Some (- uint (UINT64_MAX - low input) - 1))
             else Inr None
      else Inr None)"

definition tryCast_int8 :: "int128_t \<Rightarrow> int option result" where
  "tryCast_int8 input = TryCastInt128Template True 0x7f input"

definition tryCast_int16 :: "int128_t \<Rightarrow> int option result" where
  "tryCast_int16 input = TryCastInt128Template True 0x7fff input"

definition tryCast_int32 :: "int128_t \<Rightarrow> int option result" where
  "tryCast_int32 input = TryCastInt128Template True 0x7fffffff input"

definition tryCast_int64 :: "int128_t \<Rightarrow> int option result" where
  "tryCast_int64 input = TryCastInt128Template True 0x7fffffffffffffff input"

definition tryCast_uint8 :: "int128_t \<Rightarrow> int option result" where
  "tryCast_uint8 input = TryCastInt128Template False 0xff input"

definition tryCast_uint16 :: "int128_t \<Rightarrow> int option result" where
  "tryCast_uint16 input = TryCastInt128Template False 0xffff input"

definition tryCast_uint32 :: "int128_t \<Rightarrow> int option result" where
  "tryCast_uint32 input = TryCastInt128Template False 0xffffffff input"

definition tryCast_uint64 :: "int128_t \<Rightarrow> int option result" where
  "tryCast_uint64 input = TryCastInt128Template False 0xffffffffffffffff input"

text \<open>A value of an integer type of at most 64 bits, widened.\<close>

definition tryCastToTemplate :: "int \<Rightarrow> int128_t" where
  "tryCastToTemplate v = int128 (word_of_int v) (if v < 0 then -1 else 0)"

subsection \<open>Powers of ten\<close>

definition powerOf10 :: "int128_t result list" where
  "powerOf10 =
     (let c = tryCastToTemplate; big = c 1000000000000000000 in
      [Inr (c 1), Inr (c 10), Inr (c 100), Inr (c 1000), Inr (c 10000), Inr (c 100000),
       Inr (c 1000000), Inr (c 10000000), Inr (c 100000000), Inr (c 1000000000),
       Inr (c 10000000000), Inr (c 100000000000), Inr (c 1000000000000), Inr (c 10000000000000),
       Inr (c 100000000000000), Inr (c 1000000000000000), Inr (c 10000000000000000),
       Inr (c 100000000000000000), Inr (c 1000000000000000000),
       Int128_Mul big (c 10), Int128_Mul big (c 100), Int128_Mul big (c 1000),
       Int128_Mul big (c 10000), Int128_Mul big (c 100000), Int128_Mul big (c 1000000),
       Int128_Mul big (c 10000000), Int128_Mul big (c 100000000), Int128_Mul big (c 1000000000),
       Int128_Mul big (c 10000000000), Int128_Mul big (c 100000000000),
       Int128_Mul big (c 1000000000000), Int128_Mul big (c 10000000000000),
       Int128_Mul big (c 100000000000000), Int128_Mul big (c 1000000000000000),
       Int128_Mul big (c 10000000000000000), Int128_Mul big (c 100000000000000000),
       Int128_Mul big (c 1000000000000000000),
       rbind (Int128_Mul big (c 1000000000000000000)) (\<lambda>p. Int128_Mul p (c 10)),
       rbind (Int128_Mul big (c 1000000000000000000)) (\<lambda>p. Int128_Mul p (c 100))])"

definition pow10Sequence :: "int128_t list" where
  "pow10Sequence =
     [int128 1 0, int128 10 0, int128 100 0, int128 1000 0, int128 10000 0, int128 100000 0,
      int128 1000000 0, int128 10000000 0, int128 100000000 0, int128 1000000000 0,
      int128 10000000000 0, int128 100000000000 0, int128 1000000000000 0,
      int128 10000000000000 0, int128 100000000000000 0, int128 1000000000000000 0,
      int128 10000000000000000 0, int128 100000000000000000 0, int128 1000000000000000000 0,
      int128 10000000000000000000 0,
      int128 7766279631452241920 5,
      int128 3875820019684212736 54,
      int128 1864712049423024128 542,
      int128 200376420520689664 5421,
      int128 2003764205206896640 54210,
      int128 1590897978359414784 542101,
      int128 15908979783594147840 5421010,
      int128 11515845246265065472 54210108,
      int128 4477988020393345024 542101086,
      int128 7886392056514347008 5421010862,
      int128 5076944270305263616 54210108624,
      int128 13875954555633532928 542101086242,
      int128 9632337040368467968 5421010862427,
      int128 4089650035136921600 54210108624275,
      int128 4003012203950112768 542101086242752,
      int128 3136633892082024448 5421010862427522,
      int128 12919594847110692864 54210108624275221,
      int128 68739955140067328 542101086242752217,
      int128 687399551400673280 5421010862427522170]"

text \<open>\<^verbatim>\<open>NumericLimits<int128_t>\<close>.\<close>

definition NumericLimits_int128_minimum :: int128_t where
  "NumericLimits_int128_minimum = int128 INT64_MIN 1"

definition NumericLimits_int128_maximum :: int128_t where
  "NumericLimits_int128_maximum = int128 INT64_MAX UINT64_MAX"

subsection \<open>Values as integers\<close>

lemma sint_of_int: "- (2 ^ 63) \<le> k \<Longrightarrow> k < 2 ^ 63 \<Longrightarrow> sint (word_of_int k :: 64 word) = k"
  using signed_take_bit_int_eq_self [of 63 k] by (simp add: signed_of_int)

lemma sint_bounds: "- (2 ^ 63) \<le> sint (w :: 64 word)" "sint (w :: 64 word) < 2 ^ 63"
  using sint_greater_eq [of w] sint_less [of w] by simp_all

lemma uint_bounds: "0 \<le> uint (w :: 64 word)" "uint (w :: 64 word) < 2 ^ 64"
  using uint_lt2p [of w] by simp_all

lemma int128_sel [simp]: "low (int128 l h) = l" "high (int128 l h) = h"
  by (simp_all add: int128_def)

lemma int128_eqI: "low x = low y \<Longrightarrow> high x = high y \<Longrightarrow> x = (y :: int128_t)"
  by simp

lemma int128_range_aux:
  "- (2 ^ 63) \<le> h \<Longrightarrow> h < 2 ^ 63 \<Longrightarrow> 0 \<le> l \<Longrightarrow> l < 2 ^ 64 \<Longrightarrow>
   - (2 ^ 127) \<le> h * 2 ^ 64 + l \<and> h * 2 ^ 64 + l < (2 ^ 127 :: int)"
  by simp

lemma div_mod_less_iff:
  assumes "0 < (B :: int)"
  shows "a < b \<longleftrightarrow> a div B < b div B \<or> a div B = b div B \<and> a mod B < b mod B"
proof (cases "a div B" "b div B" rule: linorder_cases)
  case less
  then have "(a div B + 1) * B \<le> b div B * B" using assms by (intro mult_right_mono) auto
  then have "a div B * B + B \<le> b div B * B" by (simp add: distrib_right)
  moreover have "a = a div B * B + a mod B" "b = b div B * B + b mod B" by simp_all
  moreover have "a mod B < B" "0 \<le> b mod B" using assms by simp_all
  ultimately have "a < b" by linarith
  with less show ?thesis by simp
next
  case equal
  have "a = a div B * B + a mod B" "b = b div B * B + b mod B" by simp_all
  with equal show ?thesis by (metis add_less_cancel_left order_less_irrefl)
next
  case greater
  then have "b < a" by (meson assms linorder_not_less zdiv_mono1)
  with greater show ?thesis by simp
qed

lemma div_less_iff: "0 < (B :: int) \<Longrightarrow> v div B < q \<longleftrightarrow> v < q * B"
proof -
  assume B: "0 < B"
  then have "0 \<le> v mod B" by simp
  with div_mod_less_iff [OF B, of v "q * B"] B show ?thesis by auto
qed

lemma int128_val_bounds: "- (2 ^ 127) \<le> int128_val x" "int128_val x < 2 ^ 127"
  unfolding int128_val_def using sint_bounds [of "high x"] uint_bounds [of "low x"] int128_range_aux by blast+

lemma int128_val_parts:
  "int128_val x div 2 ^ 64 = sint (high x)" "int128_val x mod 2 ^ 64 = uint (low x)"
  using uint_bounds [of "low x"] by (simp_all add: int128_val_def)

definition int128_of :: "int \<Rightarrow> int128_t" where
  "int128_of v = int128 (word_of_int v) (word_of_int (v div 2 ^ 64))"

lemma two_64 [simp]: "(18446744073709551616 :: 64 word) = 0"
  by simp

lemma UINT64_MAX_Suc: "UINT64_MAX + 1 = 0"
  by (simp add: UINT64_MAX_def)

lemma int128_of_split:
  "0 \<le> l \<Longrightarrow> l < 2 ^ 64 \<Longrightarrow> int128_of (h * 2 ^ 64 + l) = int128 (word_of_int l) (word_of_int h)"
  by (simp add: int128_of_def word_of_int_eq_iff take_bit_eq_mod)

lemma word_of_int_carry: "(word_of_int (h * 2 ^ 64 + l) :: 64 word) = word_of_int l"
  by (simp add: word_of_int_eq_iff take_bit_eq_mod)

lemma int128_of_val [simp]: "int128_of (int128_val x) = x"
proof (rule int128_eqI)
  have "(word_of_int (int128_val x) :: 64 word) = word_of_int (int128_val x mod 2 ^ 64)"
    by (simp add: word_of_int_eq_iff take_bit_eq_mod)
  then show "low (int128_of (int128_val x)) = low x"
    unfolding int128_val_parts by (simp add: int128_of_def)
  show "high (int128_of (int128_val x)) = high x"
    unfolding int128_of_def int128_sel int128_val_parts by simp
qed

lemma int128_val_of: "- (2 ^ 127) \<le> v \<Longrightarrow> v < 2 ^ 127 \<Longrightarrow> int128_val (int128_of v) = v"
proof -
  assume "- (2 ^ 127) \<le> v" "v < 2 ^ 127"
  then have "- (2 ^ 63) \<le> v div 2 ^ 64" "v div 2 ^ 64 < 2 ^ 63" by auto
  then have "sint (word_of_int (v div 2 ^ 64) :: 64 word) = v div 2 ^ 64" by (rule sint_of_int)
  then show ?thesis unfolding int128_val_def int128_of_def int128_sel
    by (simp add: uint_word_of_int)
qed

lemma int128_val_inject: "int128_val x = int128_val y \<longleftrightarrow> x = y"
  by (metis int128_of_val)

lemma int128_val_0: "int128_val (int128 0 0) = 0" "int128_val (int128 1 0) = 1"
  by (simp_all add: int128_val_def)

lemma int128_zero_iff: "low x = 0 \<and> high x = 0 \<longleftrightarrow> int128_val x = 0"
  unfolding int128_val_0(1) [symmetric] int128_val_inject by (auto intro: int128_eqI)

lemma sint_limits: "sint INT64_MIN = - (2 ^ 63)" "sint INT64_MAX = 2 ^ 63 - 1"
  by (simp_all add: INT64_MIN_def INT64_MAX_def)

lemma int128_min_iff: "high x = INT64_MIN \<and> low x = 0 \<longleftrightarrow> int128_val x = - (2 ^ 127)"
proof -
  have "int128_val (int128 0 INT64_MIN) = - (2 ^ 127)" by (simp add: int128_val_def sint_limits)
  then have "int128_val x = - (2 ^ 127) \<longleftrightarrow> x = int128 0 INT64_MIN" by (metis int128_val_inject)
  then show ?thesis by (auto intro: int128_eqI)
qed

lemma int128_neg_iff: "sint (high x) < 0 \<longleftrightarrow> int128_val x < 0"
proof -
  have "sint (high x) < 0 \<longleftrightarrow> int128_val x div 2 ^ 64 < 0" by (simp only: int128_val_parts)
  also have "\<dots> \<longleftrightarrow> int128_val x < 0" by (rule pos_imp_zdiv_neg_iff) simp
  finally show ?thesis .
qed

lemma int128_less_iff: "sint (high x) < sint (high y) \<or> high x = high y \<and> low x < low y \<longleftrightarrow>
    int128_val x < int128_val y"
proof -
  have "(int128_val x < int128_val y) = (int128_val x div 2 ^ 64 < int128_val y div 2 ^ 64 \<or>
      int128_val x div 2 ^ 64 = int128_val y div 2 ^ 64 \<and> int128_val x mod 2 ^ 64 < int128_val y mod 2 ^ 64)"
    by (rule div_mod_less_iff) simp
  then show ?thesis unfolding int128_val_parts word_less_def by (metis signed_word_eqI)
qed

lemma Int128_compare:
  "Int128_Equals x y \<longleftrightarrow> int128_val x = int128_val y"
  "Int128_notEquals x y \<longleftrightarrow> int128_val x \<noteq> int128_val y"
  "Int128_greaterThan x y \<longleftrightarrow> int128_val x > int128_val y"
  "Int128_greaterThanOrEquals x y \<longleftrightarrow> int128_val x \<ge> int128_val y"
  "Int128_lessThan x y \<longleftrightarrow> int128_val x < int128_val y"
  "Int128_lessThanOrEquals x y \<longleftrightarrow> int128_val x \<le> int128_val y"
proof -
  have eq: "low x = low y \<and> high x = high y \<longleftrightarrow> int128_val x = int128_val y"
    unfolding int128_val_inject by (blast intro: int128_eqI)
  note less = int128_less_iff [of x y] int128_less_iff [of y x]
  show "Int128_Equals x y \<longleftrightarrow> int128_val x = int128_val y" unfolding Int128_Equals_def by (rule eq)
  show "Int128_notEquals x y \<longleftrightarrow> int128_val x \<noteq> int128_val y"
    unfolding Int128_notEquals_def using eq by blast
  show "Int128_greaterThan x y \<longleftrightarrow> int128_val x > int128_val y"
    unfolding Int128_greaterThan_def using less by metis
  show "Int128_lessThan x y \<longleftrightarrow> int128_val x < int128_val y"
    unfolding Int128_lessThan_def using less by metis
  show "Int128_greaterThanOrEquals x y \<longleftrightarrow> int128_val x \<ge> int128_val y"
    unfolding Int128_greaterThanOrEquals_def order_le_less using eq less by metis
  show "Int128_lessThanOrEquals x y \<longleftrightarrow> int128_val x \<le> int128_val y"
    unfolding Int128_lessThanOrEquals_def order_le_less using eq less by metis
qed

lemma negateInPlace_val:
  "negateInPlace x =
     (if int128_val x = - (2 ^ 127)
      then Inl (StdOverflowError ''INT128 is out of range: cannot negate INT128_MIN'')
      else Inr (int128_of (- int128_val x)))"
proof -
  let ?l = "UINT64_MAX + 1 - low x"
  have l: "?l = - low x" by (simp add: UINT64_MAX_Suc)
  have "int128_of (- int128_val x) = int128 ?l (- high x - 1 + of_bool (?l = 0))"
  proof (cases "low x = 0")
    case True
    then have "- int128_val x = - sint (high x) * 2 ^ 64 + 0" by (simp add: int128_val_def)
    then show ?thesis using True int128_of_split [of 0 "- sint (high x)"]
      by (simp add: UINT64_MAX_Suc wi_hom_syms)
  next
    case False
    then have "uint (low x) \<noteq> 0" by (simp add: unsigned_eq_0_iff)
    then have "0 < uint (low x)" using uint_bounds [of "low x"] by linarith
    moreover have "- int128_val x = (- sint (high x) - 1) * 2 ^ 64 + (2 ^ 64 - uint (low x))"
      by (simp add: int128_val_def)
    moreover have "word_of_int (2 ^ 64 - uint (low x)) = - low x"
      using word_of_int_carry [of 1 "- uint (low x)"] by (simp add: wi_hom_syms)
    ultimately show ?thesis
      using False int128_of_split [of "2 ^ 64 - uint (low x)" "- sint (high x) - 1"]
        order_less_imp_le [OF uint_bounds(2) [of "low x"]] by (simp add: UINT64_MAX_Suc wi_hom_syms)
  qed
  then show ?thesis by (simp add: negateInPlace_def Let_def int128_min_iff)
qed

lemma carry_iff: "x + y < (x :: 64 word) \<longleftrightarrow> 2 ^ 64 \<le> uint x + uint y"
  using uint_bounds [of x] uint_bounds [of y]
  by (simp add: word_less_def uint_plus_if_size size_word_def)

lemma borrow_iff: "x < x - (y :: 64 word) \<longleftrightarrow> uint x < uint y"
  using uint_bounds [of x] uint_bounds [of y]
  by (simp add: word_less_def uint_sub_if_size size_word_def)

lemma int128_of_add:
  "int128_of (int128_val x + int128_val y) =
     int128 (low x + low y) (high x + high y + of_bool (low x + low y < low x))"
proof (cases "low x + low y < low x")
  case True
  have "int128_val x + int128_val y =
      (sint (high x) + sint (high y) + 1) * 2 ^ 64 + (uint (low x) + uint (low y) - 2 ^ 64)"
    by (simp add: int128_val_def)
  moreover have "word_of_int (uint (low x) + uint (low y) - 2 ^ 64) = low x + low y"
    using word_of_int_carry [of "- 1" "uint (low x) + uint (low y)"] by (simp add: wi_hom_syms)
  ultimately show ?thesis
    using True int128_of_split [of "uint (low x) + uint (low y) - 2 ^ 64" "sint (high x) + sint (high y) + 1"]
      uint_bounds(2) [of "low x"] uint_bounds(2) [of "low y"]
    by (simp add: carry_iff wi_hom_syms)
next
  case False
  have "int128_val x + int128_val y =
      (sint (high x) + sint (high y)) * 2 ^ 64 + (uint (low x) + uint (low y))"
    by (simp add: int128_val_def distrib_right)
  then show ?thesis
    using False int128_of_split [of "uint (low x) + uint (low y)" "sint (high x) + sint (high y)"]
    by (simp add: carry_iff wi_hom_syms)
qed

lemma uint_sub_bounds: "0 \<le> uint x - uint y + 2 ^ 64" "uint x - uint y < 2 ^ 64" for x y :: "64 word"
  using uint_bounds [of x] uint_bounds [of y] by linarith+

lemma int128_of_sub:
  "int128_of (int128_val x - int128_val y) =
     int128 (low x - low y) (high x - high y - of_bool (low x < low x - low y))"
proof (cases "low x < low x - low y")
  case True
  have "int128_val x - int128_val y =
      (sint (high x) - sint (high y) - 1) * 2 ^ 64 + (uint (low x) - uint (low y) + 2 ^ 64)"
    by (simp add: int128_val_def)
  moreover have "word_of_int (uint (low x) - uint (low y) + 2 ^ 64) = low x - low y"
    using word_of_int_carry [of 1 "uint (low x) - uint (low y)"] by (simp add: wi_hom_syms)
  ultimately show ?thesis
    using True int128_of_split [of "uint (low x) - uint (low y) + 2 ^ 64" "sint (high x) - sint (high y) - 1"]
      uint_sub_bounds [of "low x" "low y"]
    by (simp add: borrow_iff wi_hom_syms)
next
  case False
  have "int128_val x - int128_val y =
      (sint (high x) - sint (high y)) * 2 ^ 64 + (uint (low x) - uint (low y))"
    by (simp add: int128_val_def left_diff_distrib)
  then show ?thesis
    using False int128_of_split [of "uint (low x) - uint (low y)" "sint (high x) - sint (high y)"]
      uint_sub_bounds [of "low x" "low y"]
    by (simp add: borrow_iff wi_hom_syms)
qed

text \<open>The overflow tests on the high words decide whether the sum fits.\<close>

lemma sint_diff_of_bool:
  "0 \<le> sint h \<Longrightarrow> sint (INT64_MAX - h - of_bool b) = 2 ^ 63 - 1 - sint h - of_bool b"
  "sint h < 0 \<Longrightarrow> sint (INT64_MIN - h - of_bool b) = - (2 ^ 63) - sint h - of_bool b"
  "0 \<le> sint h \<Longrightarrow> sint (INT64_MIN + h + of_bool b) = - (2 ^ 63) + sint h + of_bool b"
  "sint h < 0 \<Longrightarrow> sint (INT64_MAX + h + of_bool b) = 2 ^ 63 - 1 + sint h + of_bool b"
proof -
  note bounds = sint_bounds [of h]
  have eq: "INT64_MAX - h - of_bool b = word_of_int (2 ^ 63 - 1 - sint h - of_bool b)"
    "INT64_MIN - h - of_bool b = word_of_int (- (2 ^ 63) - sint h - of_bool b)"
    "INT64_MIN + h + of_bool b = word_of_int (- (2 ^ 63) + sint h + of_bool b)"
    "INT64_MAX + h + of_bool b = word_of_int (2 ^ 63 - 1 + sint h + of_bool b)"
    by (simp_all add: INT64_MAX_def INT64_MIN_def)
  show "0 \<le> sint h \<Longrightarrow> sint (INT64_MAX - h - of_bool b) = 2 ^ 63 - 1 - sint h - of_bool b"
    unfolding eq by (rule sint_of_int) (use bounds in \<open>auto simp: of_bool_def\<close>)
  show "sint h < 0 \<Longrightarrow> sint (INT64_MIN - h - of_bool b) = - (2 ^ 63) - sint h - of_bool b"
    unfolding eq by (rule sint_of_int) (use bounds in \<open>auto simp: of_bool_def\<close>)
  show "0 \<le> sint h \<Longrightarrow> sint (INT64_MIN + h + of_bool b) = - (2 ^ 63) + sint h + of_bool b"
    unfolding eq by (rule sint_of_int) (use bounds in \<open>auto simp: of_bool_def\<close>)
  show "sint h < 0 \<Longrightarrow> sint (INT64_MAX + h + of_bool b) = 2 ^ 63 - 1 + sint h + of_bool b"
    unfolding eq by (rule sint_of_int) (use bounds in \<open>auto simp: of_bool_def\<close>)
qed

lemma of_bool_le_1: "0 \<le> (of_bool b :: int)" "(of_bool b :: int) \<le> 1"
  by simp_all

lemma div_range_iff:
  "- (2 ^ 63) \<le> (v :: int) div 2 ^ 64 \<longleftrightarrow> - (2 ^ 127) \<le> v" "v div 2 ^ 64 < 2 ^ 63 \<longleftrightarrow> v < 2 ^ 127"
  using div_less_iff [of "2 ^ 64" v "- (2 ^ 63)"] div_less_iff [of "2 ^ 64" v "2 ^ 63"] by (simp_all add: not_less [symmetric])

lemma int128_add_div:
  "(int128_val x + int128_val y) div 2 ^ 64 = sint (high x) + sint (high y) + of_bool (low x + low y < low x)"
proof -
  have "int128_val x + int128_val y = (sint (high x) + sint (high y)) * 2 ^ 64 + (uint (low x) + uint (low y))"
    by (simp add: int128_val_def distrib_right)
  moreover have "(uint (low x) + uint (low y)) div 2 ^ 64 = of_bool (low x + low y < low x)"
  proof (cases "low x + low y < low x")
    case True
    then show ?thesis using uint_bounds(2) [of "low x"] uint_bounds(2) [of "low y"]
        int_div_pos_eq [of "uint (low x) + uint (low y)" "2 ^ 64" 1 "uint (low x) + uint (low y) - 2 ^ 64"]
      by (simp add: carry_iff)
  next
    case False
    then show ?thesis using int_div_pos_eq [of "uint (low x) + uint (low y)" "2 ^ 64" 0 "uint (low x) + uint (low y)"]
      by (simp add: carry_iff)
  qed
  ultimately show ?thesis by simp
qed

lemma int128_sub_div:
  "(int128_val x - int128_val y) div 2 ^ 64 = sint (high x) - sint (high y) - of_bool (low x < low x - low y)"
proof -
  have "int128_val x - int128_val y = (sint (high x) - sint (high y)) * 2 ^ 64 + (uint (low x) - uint (low y))"
    by (simp add: int128_val_def left_diff_distrib)
  moreover have "(uint (low x) - uint (low y)) div 2 ^ 64 = - of_bool (low x < low x - low y)"
  proof (cases "low x < low x - low y")
    case True
    then show ?thesis using uint_sub_bounds [of "low x" "low y"]
        int_div_pos_eq [of "uint (low x) - uint (low y)" "2 ^ 64" "-1" "uint (low x) - uint (low y) + 2 ^ 64"]
      by (simp add: borrow_iff)
  next
    case False
    then show ?thesis using uint_sub_bounds [of "low x" "low y"]
        int_div_pos_eq [of "uint (low x) - uint (low y)" "2 ^ 64" 0 "uint (low x) - uint (low y)"]
      by (simp add: borrow_iff)
  qed
  ultimately show ?thesis by simp
qed

definition int128_fits :: "int \<Rightarrow> bool" where
  "int128_fits v \<longleftrightarrow> - (2 ^ 127) < v \<and> v < 2 ^ 127"

lemma int128_fits_iff:
  "int128_fits v \<longleftrightarrow> - (2 ^ 63) \<le> v div 2 ^ 64 \<and> v div 2 ^ 64 < 2 ^ 63 \<and> v \<noteq> - (2 ^ 127)"
  unfolding div_range_iff int128_fits_def by linarith

lemma in_place_result:
  assumes res: "r = (if failed then (False, x) else (int128_val (int128_of v) \<noteq> - (2 ^ 127), int128_of v))"
    and failed: "failed \<longleftrightarrow> \<not> (- (2 ^ 63) \<le> v div 2 ^ 64 \<and> v div 2 ^ 64 < 2 ^ 63)"
  shows "fst r \<longleftrightarrow> int128_fits v" "fst r \<Longrightarrow> int128_val (snd r) = v"
proof -
  have val: "\<not> failed \<Longrightarrow> int128_val (int128_of v) = v"
    unfolding failed div_range_iff by (rule int128_val_of) blast+
  show "fst r \<longleftrightarrow> int128_fits v"
    unfolding int128_fits_iff using failed val by (simp only: res split: if_split) auto
  show "fst r \<Longrightarrow> int128_val (snd r) = v"
    using val by (simp only: res split: if_splits) auto
qed

lemma addInPlace_val:
  "fst (addInPlace x y) \<longleftrightarrow> int128_fits (int128_val x + int128_val y)"
  "fst (addInPlace x y) \<Longrightarrow> int128_val (snd (addInPlace x y)) = int128_val x + int128_val y"
proof -
  let ?v = "int128_val x + int128_val y" and ?c = "low x + low y < low x"
  let ?failed = "if 0 \<le> sint (high y) then sint (high x) > sint (INT64_MAX - high y - of_bool ?c)
    else sint (high x) < sint (INT64_MIN - high y - of_bool ?c)"
  have failed: "?failed \<longleftrightarrow> \<not> (- (2 ^ 63) \<le> ?v div 2 ^ 64 \<and> ?v div 2 ^ 64 < 2 ^ 63)"
  proof (cases "0 \<le> sint (high y)")
    case True
    with sint_bounds [of "high x"] of_bool_le_1 [of ?c] show ?thesis
      unfolding int128_add_div if_P [OF True] sint_diff_of_bool(1) [OF True] by linarith
  next
    case False
    with sint_bounds [of "high x"] of_bool_le_1 [of ?c] show ?thesis
      unfolding int128_add_div if_not_P [OF False] sint_diff_of_bool(2) [OF False [unfolded not_le]] by linarith
  qed
  have res: "addInPlace x y = (if ?failed then (False, x) else (int128_val (int128_of ?v) \<noteq> - (2 ^ 127), int128_of ?v))"
    unfolding addInPlace_def Let_def int128_of_add int128_min_iff [symmetric] by (simp only: int128_sel)
  show "fst (addInPlace x y) \<longleftrightarrow> int128_fits ?v" by (rule in_place_result(1) [OF res failed])
  show "fst (addInPlace x y) \<Longrightarrow> int128_val (snd (addInPlace x y)) = ?v" by (rule in_place_result(2) [OF res failed])
qed

lemma subInPlace_val:
  "fst (subInPlace x y) \<longleftrightarrow> int128_fits (int128_val x - int128_val y)"
  "fst (subInPlace x y) \<Longrightarrow> int128_val (snd (subInPlace x y)) = int128_val x - int128_val y"
proof -
  let ?v = "int128_val x - int128_val y" and ?c = "low x - low y > low x"
  let ?failed = "if 0 \<le> sint (high y) then sint (high x) < sint (INT64_MIN + high y + of_bool ?c)
    else sint (high x) > sint INT64_MIN \<and> sint (high x - 1) \<ge> sint (INT64_MAX + high y + of_bool ?c)"
  have pred: "sint (high x - 1) = sint (high x) - 1" if "sint (high x) > sint INT64_MIN"
    using sint_of_int [of "sint (high x) - 1"] that sint_bounds [of "high x"] by (simp add: sint_limits)
  have failed: "?failed \<longleftrightarrow> \<not> (- (2 ^ 63) \<le> ?v div 2 ^ 64 \<and> ?v div 2 ^ 64 < 2 ^ 63)"
  proof (cases "0 \<le> sint (high y)")
    case True
    with sint_bounds [of "high x"] of_bool_le_1 [of ?c] show ?thesis
      unfolding int128_sub_div if_P [OF True] sint_diff_of_bool(3) [OF True] by linarith
  next
    case False
    with sint_bounds [of "high x"] sint_bounds [of "high y"] of_bool_le_1 [of ?c] pred show ?thesis
      unfolding int128_sub_div if_not_P [OF False] sint_diff_of_bool(4) [OF False [unfolded not_le]] sint_limits
      by linarith
  qed
  have res: "subInPlace x y = (if ?failed then (False, x) else (int128_val (int128_of ?v) \<noteq> - (2 ^ 127), int128_of ?v))"
    unfolding subInPlace_def Let_def int128_of_sub int128_min_iff [symmetric] by (simp only: int128_sel)
  show "fst (subInPlace x y) \<longleftrightarrow> int128_fits ?v" by (rule in_place_result(1) [OF res failed])
  show "fst (subInPlace x y) \<Longrightarrow> int128_val (snd (subInPlace x y)) = ?v" by (rule in_place_result(2) [OF res failed])
qed

lemma Int128_Add_val:
  "Int128_Add x y = (if int128_fits (int128_val x + int128_val y) then Inr (int128_of (int128_val x + int128_val y))
     else Inl (OverflowException ''INT128 is out of range: cannot add.''))"
proof (cases "fst (addInPlace x y)")
  case True
  then have "snd (addInPlace x y) = int128_of (int128_val x + int128_val y)"
    by (simp flip: addInPlace_val(2))
  with True show ?thesis unfolding addInPlace_val(1) [symmetric] by (auto simp: Int128_Add_def split: prod.split)
next
  case False
  then show ?thesis unfolding addInPlace_val(1) [symmetric] by (auto simp: Int128_Add_def split: prod.split bool.split)
qed

lemma Int128_Sub_val:
  "Int128_Sub x y = (if int128_fits (int128_val x - int128_val y) then Inr (int128_of (int128_val x - int128_val y))
     else Inl (OverflowException ''INT128 is out of range: cannot subtract.''))"
proof (cases "fst (subInPlace x y)")
  case True
  then have "snd (subInPlace x y) = int128_of (int128_val x - int128_val y)"
    by (simp flip: subInPlace_val(2))
  with True show ?thesis unfolding subInPlace_val(1) [symmetric] by (auto simp: Int128_Sub_def split: prod.split)
next
  case False
  then show ?thesis unfolding subInPlace_val(1) [symmetric] by (auto simp: Int128_Sub_def split: prod.split bool.split)
qed

lemma abs_val:
  assumes "int128_val z \<noteq> - (2 ^ 127)"
  shows "(if sint (high z) < 0 then negateInPlace z else Inr z) = Inr (int128_of \<bar>int128_val z\<bar>)"
    "int128_val (int128_of \<bar>int128_val z\<bar>) = \<bar>int128_val z\<bar>"
  using assms int128_val_bounds [of z] int128_val_of [of "\<bar>int128_val z\<bar>"]
  by (auto simp: int128_neg_iff negateInPlace_val abs_if)

subsection \<open>Properties\<close>

text \<open>(C17) Addition, subtraction and negation of 128-bit integers are exact: the result is the integer
  result whenever it lies strictly between -2^127 and 2^127, and an overflow exception is thrown
  otherwise.\<close>

theorem int128_add_sub_exact:
  "Int128_Add x y =
     (if - (2 ^ 127) < int128_val x + int128_val y \<and> int128_val x + int128_val y < 2 ^ 127
      then Inr (int128_of (int128_val x + int128_val y))
      else Inl (OverflowException ''INT128 is out of range: cannot add.'')) \<and>
   Int128_Sub x y =
     (if - (2 ^ 127) < int128_val x - int128_val y \<and> int128_val x - int128_val y < 2 ^ 127
      then Inr (int128_of (int128_val x - int128_val y))
      else Inl (OverflowException ''INT128 is out of range: cannot subtract.'')) \<and>
   negateInPlace x =
     (if int128_val x = - (2 ^ 127)
      then Inl (StdOverflowError ''INT128 is out of range: cannot negate INT128_MIN'')
      else Inr (int128_of (- int128_val x)))"
  by (simp only: Int128_Add_val Int128_Sub_val int128_fits_def negateInPlace_val)

text \<open>The limits that \<^verbatim>\<open>NumericLimits<int128_t>\<close> gives have their words exchanged: the minimum is a large positive
  number, and the maximum is negative.\<close>

theorem NumericLimits_int128_exchanged:
  "int128_val NumericLimits_int128_minimum = 2 ^ 64 + 2 ^ 63 \<and>
   int128_val NumericLimits_int128_maximum = - (2 ^ 63) - 1"
  by (simp add: NumericLimits_int128_minimum_def NumericLimits_int128_maximum_def int128_val_def
      INT64_MIN_def INT64_MAX_def UINT64_MAX_def)

end
