(* ===== verification/Int128_Mult.thy ===== *)
theory Int128_Mult
  imports Int128
begin

text \<open>
  Multiplication of 128-bit integers: both the product by a native 128-bit type and the portable product by 32-bit
  digits meet one contract, the locale \<open>magnitude_product\<close>, over which the signed multiplication is shown
  exact.
\<close>

unbundle bit_operations_syntax

subsection \<open>Multiplication\<close>

lemma uint_drop_bit: "uint (drop_bit n (w :: 'a :: len word)) = uint w div 2 ^ n"
proof -
  have "take_bit LENGTH('a) (uint w) = uint w"
    by (rule take_bit_int_eq_self) (simp, rule uint_lt2p)
  then show ?thesis unfolding unsigned_drop_bit_eq by (simp only: drop_bit_eq_div)
qed

lemma uint_wide:
  assumes "0 \<le> int128_val x"
  shows "uint (ucast (low x) + push_bit 64 (scast (high x)) :: 128 word) = int128_val x"
proof -
  have "(ucast (low x) + push_bit 64 (scast (high x)) :: 128 word) = word_of_int (int128_val x)"
    by (simp add: int128_val_def push_bit_eq_mult)
  moreover have "int128_val x < 2 ^ 128" using int128_val_bounds(2) [of x] by simp
  ultimately show ?thesis using assms by (simp add: uint_word_of_int)
qed

lemma and_sign_bit: "(w :: 64 word) AND 0x8000000000000000 \<noteq> 0 \<longleftrightarrow> 2 ^ 63 \<le> uint w"
proof -
  have "(0x8000000000000000 :: 64 word) = push_bit 63 1" by (simp add: push_bit_eq_mult)
  then have "w AND 0x8000000000000000 \<noteq> 0 \<longleftrightarrow> bit w 63"
    by (simp only: bit_iff_and_push_bit_not_eq_0)
  also have "\<dots> \<longleftrightarrow> odd (uint w div 2 ^ 63)"
    using bit_uint_iff [of w 63] by (simp add: bit_iff_odd [of "uint w"])
  also have "\<dots> \<longleftrightarrow> 2 ^ 63 \<le> uint w"
  proof (cases "2 ^ 63 \<le> uint w")
    case True
    then have "uint w div 2 ^ 63 = 1"
      using uint_bounds(2) [of w] int_div_pos_eq [of "uint w" "2 ^ 63" 1 "uint w - 2 ^ 63"] by simp
    with True show ?thesis by simp
  qed (simp add: div_pos_pos_trivial)
  finally show ?thesis .
qed

lemma ucast_low_half:
  assumes "uint (w :: 128 word) = p"
  shows "(ucast (w AND 0xffffffffffffffff) :: 64 word) = word_of_int p"
proof (rule bit_word_eqI)
  fix n assume "n < LENGTH(64)"
  then have n: "n < 64" by simp
  have m: "(0xffffffffffffffff :: 128 word) = mask 64" by (simp add: mask_eq_exp_minus_1)
  have "bit w n \<longleftrightarrow> bit p n" using n bit_uint_iff [of w n] by (simp add: assms)
  with n show "bit (ucast (w AND 0xffffffffffffffff) :: 64 word) n = bit (word_of_int p :: 64 word) n"
    unfolding m by (simp add: bit_ucast_iff bit_and_iff bit_mask_iff bit_word_of_int_iff)
qed

lemma multiply_native_val:
  assumes "0 \<le> int128_val x" "0 \<le> int128_val y"
  shows "multiply_native x y =
    (if int128_val x * int128_val y < 2 ^ 127 then Some (int128_of (int128_val x * int128_val y)) else None)"
proof -
  let ?p = "int128_val x * int128_val y"
  let ?l = "ucast (low x) + push_bit 64 (scast (high x)) :: 128 word"
  let ?r = "ucast (low y) + push_bit 64 (scast (high y)) :: 128 word"
  have p: "0 \<le> ?p" using assms by simp
  have uint: "uint ?l * uint ?r = ?p" by (simp only: uint_wide assms)
  have prod: "uint (?l * ?r) = ?p mod 2 ^ 128"
    using uint_word_ariths(3) [of ?l ?r] unfolding uint by simp
  show ?thesis
  proof (cases "?p < 2 ^ 128")
    case False
    then show ?thesis
      by (simp add: multiply_native_def builtin_mul_overflow_def Let_def uint)
  next
    case True
    with p have prod: "uint (?l * ?r) = ?p" by (simp add: prod)
    let ?h = "ucast (drop_bit 64 (?l * ?r)) :: 64 word"
    have "?p div 2 ^ 64 < 2 ^ 64" using True div_less_iff [of "2 ^ 64" ?p "2 ^ 64"] by simp
    then have h: "uint ?h = ?p div 2 ^ 64" and h': "?h = word_of_int (?p div 2 ^ 64)"
    proof -
      have d: "uint (drop_bit 64 (?l * ?r)) = ?p div 2 ^ 64"
        by (simp only: uint_drop_bit prod)
      assume a: "?p div 2 ^ 64 < 2 ^ 64"
      have "0 \<le> ?p div 2 ^ 64" using p by (simp add: pos_imp_zdiv_nonneg_iff)
      with a show "uint ?h = ?p div 2 ^ 64"
        by (simp only: unsigned_ucast_eq d) (simp add: take_bit_int_eq_self)
      then show "?h = word_of_int (?p div 2 ^ 64)" by (metis word_of_int_uint)
    qed
    have l: "(ucast (?l * ?r AND 0xffffffffffffffff) :: 64 word) = word_of_int ?p"
      by (rule ucast_low_half [OF prod])
    have "2 ^ 63 \<le> ?p div 2 ^ 64 \<longleftrightarrow> 2 ^ 127 \<le> ?p" using div_range_iff(2) [of ?p] by linarith
    with True show ?thesis
      unfolding multiply_native_def builtin_mul_overflow_def Let_def prod.case uint and_sign_bit h
      by (simp add: l h' int128_of_def)
  qed
qed

lemma uint_and_mask32: "uint ((w :: 64 word) AND 0xffffffff) = uint w mod 2 ^ 32"
proof -
  have m: "(0xffffffff :: 64 word) = mask 32" by (simp add: mask_eq_exp_minus_1)
  have "uint (take_bit 32 w) = take_bit 32 (uint w)" by (simp add: unsigned_take_bit_eq)
  then show ?thesis unfolding m take_bit_eq_mask [symmetric] by (simp only: take_bit_eq_mod)
qed

lemma uint_add_no_carry: "uint a = x \<Longrightarrow> uint b = y \<Longrightarrow> x + y < 2 ^ 64 \<Longrightarrow> uint (a + b :: 64 word) = x + y"
  by (simp add: uint_plus_if_size size_word_def)

lemma bits_above_iff: "(\<forall>n. k \<le> n \<longrightarrow> \<not> bit w n) \<longleftrightarrow> uint (w :: 64 word) < 2 ^ k"
proof -
  have "(\<forall>n. k \<le> n \<longrightarrow> \<not> bit w n) \<longleftrightarrow> drop_bit k w = 0"
  proof (safe)
    assume "\<forall>n. k \<le> n \<longrightarrow> \<not> bit w n"
    then show "drop_bit k w = 0" by (intro bit_word_eqI) (simp add: bit_drop_bit_eq)
  next
    fix n assume "drop_bit k w = 0" "k \<le> n" "bit w n"
    moreover have "bit (drop_bit k w) (n - k) = bit w n" using \<open>k \<le> n\<close> by (simp add: bit_drop_bit_eq)
    ultimately show False by simp
  qed
  also have "\<dots> \<longleftrightarrow> uint (drop_bit k w) = 0" by (simp add: unsigned_eq_0_iff)
  also have "\<dots> \<longleftrightarrow> uint w div 2 ^ k < 1"
  proof -
    have "0 \<le> uint w div 2 ^ k" by (simp add: pos_imp_zdiv_nonneg_iff)
    then show ?thesis unfolding uint_drop_bit by linarith
  qed
  also have "\<dots> \<longleftrightarrow> uint w < 2 ^ k" by (simp add: div_less_iff)
  finally show ?thesis .
qed

lemma bit_imp_le_length_64: "bit (w :: 64 word) n \<Longrightarrow> n < 64"
  using bit_imp_le_length [of w n] by simp

lemma and_high_bits: "(w :: 64 word) AND 0xffffffff80000000 \<noteq> 0 \<longleftrightarrow> \<not> uint w < 2 ^ 31"
proof -
  have m: "(0xffffffff80000000 :: 64 word) = NOT (mask 31)" by (simp add: mask_eq_exp_minus_1)
  have "w AND 0xffffffff80000000 = 0 \<longleftrightarrow> (\<forall>n. 31 \<le> n \<longrightarrow> \<not> bit w n)"
    unfolding m bit_eq_iff by (simp add: bit_simps) (meson bit_imp_le_length_64 not_le)
  then show ?thesis unfolding bits_above_iff by blast
qed

lemma and_carry_bits:
  assumes "uint w < 2 ^ 56"
  shows "(w :: 64 word) AND 0xffffff80000000 \<noteq> 0 \<longleftrightarrow> \<not> uint w < 2 ^ 31"
proof -
  have m: "(0xffffff80000000 :: 64 word) = mask 56 AND NOT (mask 31)" by (simp add: mask_eq_exp_minus_1)
  have w: "\<forall>n. 56 \<le> n \<longrightarrow> \<not> bit w n" using assms unfolding bits_above_iff .
  have "w AND 0xffffff80000000 = 0 \<longleftrightarrow> (\<forall>n. 31 \<le> n \<longrightarrow> \<not> bit w n)"
    unfolding m bit_eq_iff using w by (simp add: bit_simps) (meson bit_imp_le_length_64 not_le)
  then show ?thesis unfolding bits_above_iff by blast
qed

lemma uint_or_shifted:
  assumes "uint a < 2 ^ 32" "uint b < 2 ^ 32"
  shows "push_bit 32 a OR b = (word_of_int (uint a * 2 ^ 32 + uint b) :: 64 word)"
proof -
  have "\<not> bit b n" if "32 \<le> n" for n using assms(2) that unfolding bits_above_iff [symmetric] by blast
  then have "push_bit 32 a AND b = 0" by (auto simp: bit_eq_iff bit_simps)
  then have "push_bit 32 a OR b = push_bit 32 a + b" by (simp add: disjunctive_add_eq_or)
  then show ?thesis by (simp add: push_bit_eq_mult mult.commute)
qed

text \<open>The integer identity behind the multiplication by digits: products of digits are split at the base \<open>K\<close> and
  the carries are moved up.\<close>

lemma digit_product:
  fixes K :: int
  assumes zero: "a0 * b0 = 0" "a0 * b1 = 0" "a0 * b2 = 0" "a1 * b0 = 0" "a2 * b0 = 0" "a1 * b1 = 0"
    and third: "third = a3 * b2 mod K + a3 * b3 div K + a2 * b3 mod K"
    and second: "second = a3 * b1 mod K + a3 * b2 div K + (a2 * b2 mod K + a2 * b3 div K) + a1 * b3 mod K + third div K"
    and first: "first = a3 * b0 + a3 * b1 div K + (a2 * b1 + a2 * b2 div K) + (a1 * b2 + a1 * b3 div K) + a0 * b3 +
      second div K"
  shows "(((a0 * K + a1) * K + a2) * K + a3) * (((b0 * K + b1) * K + b2) * K + b3) =
    ((first * K + second mod K) * K + third mod K) * K + a3 * b3 mod K"
proof -
  define f0 where "f0 = a3 * b0 + a2 * b1 + a1 * b2 + a0 * b3"
  define s0 where "s0 = a3 * b1 + a2 * b2 + a1 * b3"
  define t0 where "t0 = a3 * b2 + a2 * b3"
  have "(((a0 * K + a1) * K + a2) * K + a3) * (((b0 * K + b1) * K + b2) * K + b3) =
      (a0 * b0) * K ^ 6 + (a0 * b1 + a1 * b0) * K ^ 5 + (a0 * b2 + a1 * b1 + a2 * b0) * K ^ 4 +
      f0 * K ^ 3 + s0 * K ^ 2 + t0 * K + a3 * b3"
    unfolding f0_def s0_def t0_def by (simp add: algebra_simps power_numeral_reduce)
  also have "\<dots> = f0 * K ^ 3 + s0 * K ^ 2 + t0 * K + a3 * b3" by (simp add: zero)
  also have "\<dots> = ((first * K + second mod K) * K + third mod K) * K + a3 * b3 mod K"
    unfolding minus_div_mult_eq_mod [symmetric] f0_def s0_def t0_def
    unfolding first unfolding second unfolding third minus_div_mult_eq_mod [symmetric]
    by (simp add: algebra_simps power_numeral_reduce)
  finally show ?thesis .
qed

lemma uint_mult_digits:
  assumes "uint a < 2 ^ 32" "uint b < 2 ^ 32"
  shows "uint (a * b :: 64 word) = uint a * uint b"
proof -
  have "uint a * uint b \<le> (2 ^ 32 - 1) * (2 ^ 32 - 1)" using assms by (intro mult_mono) auto
  then have "uint a * uint b < 2 ^ 64" by simp
  then show ?thesis unfolding uint_mult_lem [symmetric] by simp
qed

lemma digit_le:
  fixes K :: int
  assumes "0 < K" "0 \<le> a0" "0 \<le> a1" "0 \<le> a2" "0 \<le> a3"
  shows "a0 * K ^ 3 \<le> ((a0 * K + a1) * K + a2) * K + a3" "a1 * K ^ 2 \<le> ((a0 * K + a1) * K + a2) * K + a3"
    "a2 * K \<le> ((a0 * K + a1) * K + a2) * K + a3" "a3 \<le> ((a0 * K + a1) * K + a2) * K + a3"
  using assms by (simp_all add: algebra_simps power_numeral_reduce)

lemma digit_product_ge:
  fixes K :: int
  assumes "0 < K" "0 \<le> a" "0 \<le> b" "a * K ^ i \<le> x" "b * K ^ j \<le> y" "c \<le> a * b"
  shows "c * K ^ (i + j) \<le> x * y"
proof -
  have "c * K ^ (i + j) \<le> a * b * K ^ (i + j)" using assms by (intro mult_right_mono) auto
  also have "\<dots> = (a * K ^ i) * (b * K ^ j)" by (simp add: power_add)
  also have "\<dots> \<le> x * y" using assms by (intro mult_mono) (auto intro: order_trans [OF _ assms(4)])
  finally show ?thesis .
qed

lemma uint_sum_list:
  "\<forall>w \<in> set ws. uint (w :: 64 word) < 2 ^ 32 \<Longrightarrow> length ws \<le> 1024 \<Longrightarrow>
   uint (sum_list ws) = sum_list (map uint ws) \<and> sum_list (map uint ws) \<le> int (length ws) * 2 ^ 32"
proof (induction ws)
  case (Cons w ws)
  then have "uint (sum_list ws) = sum_list (map uint ws)" "sum_list (map uint ws) \<le> int (length ws) * 2 ^ 32"
    "uint w < 2 ^ 32" "length ws \<le> 1024" by auto
  moreover from this have "uint w + sum_list (map uint ws) < 2 ^ 64" by simp
  ultimately show ?case using uint_add_no_carry [OF refl \<open>uint (sum_list ws) = _\<close>, of w] by simp
qed simp

text \<open>The value the portable multiplication leaves in its four digits.\<close>

lemma multiply_digits_merge:
  fixes t0 t1 t2 t3 b0 b1 b2 b3 :: "64 word"
  defines "X \<equiv> ((uint t0 * 2 ^ 32 + uint t1) * 2 ^ 32 + uint t2) * 2 ^ 32 + uint t3"
    and "Y \<equiv> ((uint b0 * 2 ^ 32 + uint b1) * 2 ^ 32 + uint b2) * 2 ^ 32 + uint b3"
  defines "third \<equiv> (t3 * b2 AND 0xffffffff) + drop_bit 32 (t3 * b3) + (t2 * b3 AND 0xffffffff) +
      drop_bit 32 (t3 * b3 AND 0xffffffff)"
  defines "second \<equiv> (t3 * b1 AND 0xffffffff) + drop_bit 32 (t3 * b2) +
      ((t2 * b2 AND 0xffffffff) + drop_bit 32 (t2 * b3)) + (t1 * b3 AND 0xffffffff) + drop_bit 32 third"
  defines "first \<equiv> (t3 * b0 AND 0xffffffff) + drop_bit 32 (t3 * b1) +
      ((t2 * b1 AND 0xffffffff) + drop_bit 32 (t2 * b2)) + ((t1 * b2 AND 0xffffffff) + drop_bit 32 (t1 * b3)) +
      (t0 * b3 AND 0xffffffff) + drop_bit 32 second"
  assumes t: "uint t0 < 2 ^ 32" "uint t1 < 2 ^ 32" "uint t2 < 2 ^ 32" "uint t3 < 2 ^ 32"
    and b: "uint b0 < 2 ^ 32" "uint b1 < 2 ^ 32" "uint b2 < 2 ^ 32" "uint b3 < 2 ^ 32"
    and zero: "t0 * b0 = 0" "t0 * b1 = 0" "t0 * b2 = 0" "t1 * b0 = 0" "t2 * b0 = 0" "t1 * b1 = 0"
    and small: "uint (t0 * b3) < 2 ^ 31" "uint (t1 * b2) < 2 ^ 31" "uint (t2 * b1) < 2 ^ 31" "uint (t3 * b0) < 2 ^ 31"
  shows "X * Y = ((uint first * 2 ^ 32 + uint second mod 2 ^ 32) * 2 ^ 32 + uint third mod 2 ^ 32) * 2 ^ 32 +
      uint (t3 * b3) mod 2 ^ 32" "uint first < 2 ^ 56"
proof -
  note m = uint_mult_digits
  have hi: "uint (drop_bit 32 w) < 2 ^ 32" for w :: "64 word"
    unfolding uint_drop_bit using uint_bounds(2) [of w] by (subst div_less_iff) simp_all
  have lo: "uint (w AND 0xffffffff) < 2 ^ 32" for w :: "64 word" unfolding uint_and_mask32 by simp
  have same: "uint (w AND 0xffffffff) = uint w" if "uint w < 2 ^ 31" for w :: "64 word"
    unfolding uint_and_mask32 using that by simp
  have f4: "uint (drop_bit 32 (t3 * b3 AND 0xffffffff)) = 0"
    unfolding uint_drop_bit using lo [of "t3 * b3"] by (simp add: div_pos_pos_trivial)
  let ?th = "[t3 * b2 AND 0xffffffff, drop_bit 32 (t3 * b3), t2 * b3 AND 0xffffffff,
      drop_bit 32 (t3 * b3 AND 0xffffffff)]"
  have "third = sum_list ?th" by (simp add: third_def)
  with uint_sum_list [of ?th] have "uint third = sum_list (map uint ?th)" using hi lo by simp
  then have third: "uint third = uint t3 * uint b2 mod 2 ^ 32 + uint t3 * uint b3 div 2 ^ 32 + uint t2 * uint b3 mod 2 ^ 32"
    by (simp only: list.map sum_list.Cons sum_list.Nil f4 uint_and_mask32 [of "t3 * b2"] uint_and_mask32 [of "t2 * b3"]
        uint_drop_bit [of 32 "t3 * b3"] m t b add.assoc add_0_right)
  let ?se = "[t3 * b1 AND 0xffffffff, drop_bit 32 (t3 * b2), t2 * b2 AND 0xffffffff, drop_bit 32 (t2 * b3),
      t1 * b3 AND 0xffffffff, drop_bit 32 third]"
  have "second = sum_list ?se" by (simp add: second_def)
  with uint_sum_list [of ?se] have "uint second = sum_list (map uint ?se)" using hi lo by simp
  then have second: "uint second = uint t3 * uint b1 mod 2 ^ 32 + uint t3 * uint b2 div 2 ^ 32 +
     (uint t2 * uint b2 mod 2 ^ 32 + uint t2 * uint b3 div 2 ^ 32) + uint t1 * uint b3 mod 2 ^ 32 + uint third div 2 ^ 32"
    by (simp only: list.map sum_list.Cons sum_list.Nil uint_and_mask32 uint_drop_bit m t b add.assoc add_0_right)
  let ?fi = "[t3 * b0 AND 0xffffffff, drop_bit 32 (t3 * b1), t2 * b1 AND 0xffffffff, drop_bit 32 (t2 * b2),
      t1 * b2 AND 0xffffffff, drop_bit 32 (t1 * b3), t0 * b3 AND 0xffffffff, drop_bit 32 second]"
  have sm: "uint (t3 * b0 AND 0xffffffff) = uint t3 * uint b0" "uint (t2 * b1 AND 0xffffffff) = uint t2 * uint b1"
    "uint (t1 * b2 AND 0xffffffff) = uint t1 * uint b2" "uint (t0 * b3 AND 0xffffffff) = uint t0 * uint b3"
    by (simp_all only: small [THEN same] m t b)
  have fs: "first = sum_list ?fi" by (simp add: first_def)
  have "\<forall>w \<in> set ?fi. uint w < 2 ^ 32" using hi lo by simp
  then have sum: "uint (sum_list ?fi) = sum_list (map uint ?fi) \<and> sum_list (map uint ?fi) \<le> int (length ?fi) * 2 ^ 32"
    by (rule uint_sum_list) simp
  have fi: "uint first = sum_list (map uint ?fi)" unfolding fs by (rule conjunct1 [OF sum])
  have bound: "uint first < 2 ^ 56" unfolding fi by (rule order_le_less_trans [OF conjunct2 [OF sum]]) simp
  from fi have first: "uint first = uint t3 * uint b0 + uint t3 * uint b1 div 2 ^ 32 +
     (uint t2 * uint b1 + uint t2 * uint b2 div 2 ^ 32) + (uint t1 * uint b2 + uint t1 * uint b3 div 2 ^ 32) +
     uint t0 * uint b3 + uint second div 2 ^ 32"
    by (simp only: list.map sum_list.Cons sum_list.Nil sm uint_drop_bit m t b add.assoc add_0_right)
  have "uint t0 * uint b0 = 0" "uint t0 * uint b1 = 0" "uint t0 * uint b2 = 0" "uint t1 * uint b0 = 0"
    "uint t2 * uint b0 = 0" "uint t1 * uint b1 = 0"
    using zero m t b by (metis unsigned_0)+
  from digit_product [OF this third second first] show "X * Y = ((uint first * 2 ^ 32 + uint second mod 2 ^ 32) *
      2 ^ 32 + uint third mod 2 ^ 32) * 2 ^ 32 + uint (t3 * b3) mod 2 ^ 32"
    unfolding X_def Y_def by (simp only: m t b)
  show "uint first < 2 ^ 56" by (rule bound)
qed

lemma int128_digits:
  assumes "0 \<le> int128_val x"
  shows "int128_val x = ((uint (drop_bit 32 (high x)) * 2 ^ 32 + uint (high x AND 0xffffffff)) * 2 ^ 32 +
      uint (drop_bit 32 (low x))) * 2 ^ 32 + uint (low x AND 0xffffffff)"
proof -
  have "\<not> sint (high x) < 0" using assms unfolding int128_neg_iff by simp
  moreover have "uint (word_of_int (sint (high x)) :: 64 word) = sint (high x) mod 2 ^ 64" by (simp only: uint_word_of_int) simp
  ultimately have "sint (high x) = uint (high x)" using sint_bounds(2) [of "high x"] by simp
  then show ?thesis unfolding int128_val_def uint_drop_bit uint_and_mask32 div_mult_mod_eq by simp
qed

lemma multiply_digits_result:
  assumes first: "uint first < 2 ^ 56"
    and p: "p = ((uint first * 2 ^ 32 + uint second mod 2 ^ 32) * 2 ^ 32 + uint third mod 2 ^ 32) * 2 ^ 32 +
      uint fourth mod 2 ^ 32"
  shows "(if first AND 0xffffff80000000 \<noteq> 0 then None
     else Some (int128 (push_bit 32 (third AND 0xffffffff) OR ((fourth AND 0xffffffff) AND 0xffffffff))
       (push_bit 32 (first AND 0xffffffff) OR (second AND 0xffffffff)))) =
    (if p < 2 ^ 127 then Some (int128_of p) else None)"
proof -
  let ?L = "uint third mod 2 ^ 32 * 2 ^ 32 + uint fourth mod 2 ^ 32"
  let ?H = "uint first * 2 ^ 32 + uint second mod 2 ^ 32"
  have L: "0 \<le> ?L" "?L < 2 ^ 64"
    using pos_mod_bound [of "2 ^ 32" "uint third"] pos_mod_bound [of "2 ^ 32" "uint fourth"]
    by (simp_all add: field_simps)
  have p': "p = ?H * 2 ^ 64 + ?L" by (simp add: p)
  have "p div 2 ^ 64 = ?H" using int_div_pos_eq [OF p' [unfolded mult.commute [of ?H]]] L by simp
  then have "p < 2 ^ 127 \<longleftrightarrow> ?H < 2 ^ 63" using div_range_iff(2) [of p] by simp
  also have "\<dots> \<longleftrightarrow> uint first < 2 ^ 31"
    using div_less_iff [of "2 ^ 32" ?H "2 ^ 31"] by simp
  finally have less: "p < 2 ^ 127 \<longleftrightarrow> uint first < 2 ^ 31" .
  have small: "uint (w AND 0xffffffff) < 2 ^ 32" for w :: "64 word" unfolding uint_and_mask32 by simp
  show ?thesis
  proof (cases "uint first < 2 ^ 31")
    case True
    then have "uint first mod 2 ^ 32 = uint first" by simp
    then have "int128_of p = int128 (push_bit 32 (third AND 0xffffffff) OR ((fourth AND 0xffffffff) AND 0xffffffff))
       (push_bit 32 (first AND 0xffffffff) OR (second AND 0xffffffff))"
      unfolding p' int128_of_split [OF L] uint_or_shifted [OF small small] by (simp only: uint_and_mask32) simp
    with True less and_carry_bits [OF first] show ?thesis by simp
  qed (use less and_carry_bits [OF first] in simp)
qed

lemma multiply_digits_val:
  fixes t0 t1 t2 t3 b0 b1 b2 b3 :: "64 word"
  defines "X \<equiv> ((uint t0 * 2 ^ 32 + uint t1) * 2 ^ 32 + uint t2) * 2 ^ 32 + uint t3"
    and "Y \<equiv> ((uint b0 * 2 ^ 32 + uint b1) * 2 ^ 32 + uint b2) * 2 ^ 32 + uint b3"
  assumes t: "uint t0 < 2 ^ 32" "uint t1 < 2 ^ 32" "uint t2 < 2 ^ 32" "uint t3 < 2 ^ 32"
    and b: "uint b0 < 2 ^ 32" "uint b1 < 2 ^ 32" "uint b2 < 2 ^ 32" "uint b3 < 2 ^ 32"
  shows "multiply_digits t0 t1 t2 t3 b0 b1 b2 b3 = (if X * Y < 2 ^ 127 then Some (int128_of (X * Y)) else None)"
proof -
  have le: "uint t0 * (2 ^ 32) ^ 3 \<le> X" "uint t1 * (2 ^ 32) ^ 2 \<le> X" "uint t2 * (2 ^ 32) ^ 1 \<le> X"
      "uint t3 * (2 ^ 32) ^ 0 \<le> X" "uint b0 * (2 ^ 32) ^ 3 \<le> Y" "uint b1 * (2 ^ 32) ^ 2 \<le> Y"
      "uint b2 * (2 ^ 32) ^ 1 \<le> Y" "uint b3 * (2 ^ 32) ^ 0 \<le> Y"
    unfolding X_def Y_def power_one_right power_0 mult_1_right by (rule digit_le; simp)+
  have ge: "c * (2 ^ 32) ^ (i + j) \<le> X * Y"
    if "uint a * (2 ^ 32) ^ i \<le> X" "uint b * (2 ^ 32) ^ j \<le> Y" "uint a < 2 ^ 32" "uint b < 2 ^ 32" "c \<le> uint (a * b)"
    for a b :: "64 word" and i j c
    by (rule digit_product_ge [OF _ _ _ that(1,2)]) (use that in \<open>simp_all add: uint_mult_digits\<close>)
  have pos: "w \<noteq> 0 \<longleftrightarrow> 1 \<le> uint w" for w :: "64 word"
  proof -
    have "uint w = 0 \<longleftrightarrow> w = 0" by (rule unsigned_eq_0_iff)
    then show ?thesis using uint_bounds(1) [of w] by linarith
  qed
  have ge1: "2 ^ 127 \<le> X * Y"
    if "a * b \<noteq> 0" "4 \<le> i + j" "uint a * (2 ^ 32) ^ i \<le> X" "uint b * (2 ^ 32) ^ j \<le> Y" "uint a < 2 ^ 32" "uint b < 2 ^ 32"
    for a b :: "64 word" and i j
  proof -
    have "(2 ^ 127 :: int) \<le> (2 ^ 32) ^ 4" by simp
    also have "\<dots> \<le> (2 ^ 32) ^ (i + j)" using that(2) by (rule power_increasing) simp
    finally show ?thesis using ge [OF that(3-6), of 1] that(1) unfolding pos by linarith
  qed
  have ge2: "2 ^ 127 \<le> X * Y"
    if "\<not> uint (a * b) < 2 ^ 31" "i + j = 3" "uint a * (2 ^ 32) ^ i \<le> X" "uint b * (2 ^ 32) ^ j \<le> Y" "uint a < 2 ^ 32" "uint b < 2 ^ 32"
    for a b :: "64 word" and i j
    using ge [OF that(3-6), of "2 ^ 31"] that(1,2) by simp
  consider "t0 * b0 \<noteq> 0 \<or> t0 * b1 \<noteq> 0 \<or> t0 * b2 \<noteq> 0 \<or> t1 * b0 \<noteq> 0 \<or> t2 * b0 \<noteq> 0 \<or> t1 * b1 \<noteq> 0"
    | "\<not> uint (t0 * b3) < 2 ^ 31 \<or> \<not> uint (t1 * b2) < 2 ^ 31 \<or> \<not> uint (t2 * b1) < 2 ^ 31 \<or> \<not> uint (t3 * b0) < 2 ^ 31"
    | "t0 * b0 = 0" "t0 * b1 = 0" "t0 * b2 = 0" "t1 * b0 = 0" "t2 * b0 = 0" "t1 * b1 = 0"
      "uint (t0 * b3) < 2 ^ 31" "uint (t1 * b2) < 2 ^ 31" "uint (t2 * b1) < 2 ^ 31" "uint (t3 * b0) < 2 ^ 31"
    by blast
  then show ?thesis
  proof cases
    case 1
    then have "2 ^ 127 \<le> X * Y"
      using ge1 [OF _ _ le(1) le(5) t(1) b(1)] ge1 [OF _ _ le(1) le(6) t(1) b(2)] ge1 [OF _ _ le(1) le(7) t(1) b(3)]
        ge1 [OF _ _ le(2) le(5) t(2) b(1)] ge1 [OF _ _ le(3) le(5) t(3) b(1)] ge1 [OF _ _ le(2) le(6) t(2) b(2)]
      by (elim disjE) simp_all
    then show ?thesis using 1 unfolding multiply_digits_def by simp
  next
    case 2
    then have "2 ^ 127 \<le> X * Y"
      using ge2 [OF _ _ le(1) le(8) t(1) b(4)] ge2 [OF _ _ le(2) le(7) t(2) b(3)]
        ge2 [OF _ _ le(3) le(6) t(3) b(2)] ge2 [OF _ _ le(4) le(5) t(4) b(1)]
      by (elim disjE) simp_all
    then show ?thesis using 2 unfolding multiply_digits_def and_high_bits by simp
  next
    case 3
    show ?thesis
      unfolding multiply_digits_def Let_def and_high_bits
      using multiply_digits_result [OF multiply_digits_merge(2,1) [OF t b 3]] 3
      by (simp only: X_def Y_def simp_thms if_False)
  qed
qed

lemma multiply_portable_val:
  assumes "0 \<le> int128_val x" "0 \<le> int128_val y"
  shows "multiply_portable x y =
    (if int128_val x * int128_val y < 2 ^ 127 then Some (int128_of (int128_val x * int128_val y)) else None)"
proof -
  have hi: "uint (drop_bit 32 w) < 2 ^ 32" for w :: "64 word"
    unfolding uint_drop_bit using uint_bounds(2) [of w] by (subst div_less_iff) simp_all
  have lo: "uint (w AND 0xffffffff) < 2 ^ 32" for w :: "64 word" unfolding uint_and_mask32 by simp
  show ?thesis unfolding multiply_portable_def multiply_digits_val [OF hi lo hi lo hi lo hi lo]
      int128_digits [OF assms(1), symmetric] int128_digits [OF assms(2), symmetric] ..
qed

text \<open>The contract both magnitude products meet, and what the signed multiplication computes over it.\<close>

locale magnitude_product =
  fixes mul :: "int128_t \<Rightarrow> int128_t \<Rightarrow> int128_t option"
  assumes mul_val: "0 \<le> int128_val x \<Longrightarrow> 0 \<le> int128_val y \<Longrightarrow> mul x y =
    (if int128_val x * int128_val y < 2 ^ 127 then Some (int128_of (int128_val x * int128_val y)) else None)"
begin

lemma tryMultiply_min:
  "int128_val x = - (2 ^ 127) \<or> int128_val y = - (2 ^ 127) \<Longrightarrow>
   tryMultiply mul x y = Inl (StdOverflowError ''INT128 is out of range: cannot negate INT128_MIN'')"
  by (auto simp: tryMultiply_def Let_def int128_neg_iff negateInPlace_val)

lemma tryMultiply_val:
  assumes "int128_val x \<noteq> - (2 ^ 127)" "int128_val y \<noteq> - (2 ^ 127)"
  shows "tryMultiply mul x y = Inr (if int128_fits (int128_val x * int128_val y)
    then Some (int128_of (int128_val x * int128_val y)) else None)"
proof -
  let ?p = "int128_val x * int128_val y"
  note abs = abs_val
  have neg: "(sint (high x) < 0) \<noteq> (sint (high y) < 0) \<longleftrightarrow> ?p < 0 \<or>
      (?p = 0 \<and> (int128_val x < 0) \<noteq> (int128_val y < 0))"
    unfolding int128_neg_iff by (auto simp: mult_less_0_iff zero_less_mult_iff not_less)
  have fits: "\<bar>?p\<bar> < 2 ^ 127 \<longleftrightarrow> int128_fits ?p" unfolding int128_fits_def by linarith
  have mul: "mul (int128_of \<bar>int128_val x\<bar>) (int128_of \<bar>int128_val y\<bar>) =
      (if int128_fits ?p then Some (int128_of \<bar>?p\<bar>) else None)"
    using abs(2) [OF assms(1)] abs(2) [OF assms(2)] by (simp add: mul_val fits abs_mult flip: fits)
  have "int128_val (int128_of \<bar>?p\<bar>) = \<bar>?p\<bar>" if "int128_fits ?p"
    using that unfolding fits [symmetric] by (intro int128_val_of) auto
  then show ?thesis
    unfolding tryMultiply_def Let_def abs(1) [OF assms(1)] abs(1) [OF assms(2)] rbind_simps mul neg
    by (auto simp: negateInPlace_val int128_fits_def abs_if)
qed

end

interpretation native: magnitude_product multiply_native
  by unfold_locales (rule multiply_native_val)

interpretation portable: magnitude_product multiply_portable
  by unfold_locales (rule multiply_portable_val)

lemma Int128_Mul_val:
  "Int128_Mul x y =
    (if int128_val x = - (2 ^ 127) \<or> int128_val y = - (2 ^ 127)
     then Inl (StdOverflowError ''INT128 is out of range: cannot negate INT128_MIN'')
     else if int128_fits (int128_val x * int128_val y) then Inr (int128_of (int128_val x * int128_val y))
     else Inl (OverflowException ''INT128 is out of range: cannot multiply.''))"
  by (simp add: Int128_Mul_def native.tryMultiply_min native.tryMultiply_val)

subsection \<open>Properties\<close>

text \<open>(C14) Multiplication is exact or throws, and the portable multiplication by 32-bit digits agrees with the
  one that uses a native 128-bit type on every pair of operands.\<close>

theorem int128_multiply_exact:
  "Int128_Mul x y =
     (if int128_val x = - (2 ^ 127) \<or> int128_val y = - (2 ^ 127)
      then Inl (StdOverflowError ''INT128 is out of range: cannot negate INT128_MIN'')
      else if - (2 ^ 127) < int128_val x * int128_val y \<and> int128_val x * int128_val y < 2 ^ 127
      then Inr (int128_of (int128_val x * int128_val y))
      else Inl (OverflowException ''INT128 is out of range: cannot multiply.'')) \<and>
   tryMultiply multiply_portable x y = tryMultiply multiply_native x y"
proof
  show "Int128_Mul x y =
     (if int128_val x = - (2 ^ 127) \<or> int128_val y = - (2 ^ 127)
      then Inl (StdOverflowError ''INT128 is out of range: cannot negate INT128_MIN'')
      else if - (2 ^ 127) < int128_val x * int128_val y \<and> int128_val x * int128_val y < 2 ^ 127
      then Inr (int128_of (int128_val x * int128_val y))
      else Inl (OverflowException ''INT128 is out of range: cannot multiply.''))"
    by (simp only: Int128_Mul_val int128_fits_def)
  show "tryMultiply multiply_portable x y = tryMultiply multiply_native x y"
    by (cases "int128_val x = - (2 ^ 127) \<or> int128_val y = - (2 ^ 127)")
      (simp_all only: portable.tryMultiply_min native.tryMultiply_min portable.tryMultiply_val
        native.tryMultiply_val de_Morgan_disj simp_thms)
qed

end
