(* ===== verification/Int128_Division.thy ===== *)
theory Int128_Division
  imports Int128_Mult
begin

text \<open>
  Division of 128-bit integers by shifting and subtracting, and their decimal printing.
\<close>

unbundle bit_operations_syntax

subsection \<open>Division\<close>

lemma shift_count_add: "shift_count w (k + r) = shift_count w k + r"
proof (induction w k rule: shift_count.induct)
  case (1 w k)
  show ?case
  proof (cases "w = 0")
    case False
    with 1 have "shift_count (drop_bit 1 w) (k + 1 + r) = shift_count (drop_bit 1 w) (k + 1) + r" by blast
    with False show ?thesis by (subst (1 2) shift_count.simps) (simp add: ac_simps)
  qed (simp add: shift_count.simps [of 0])
qed

lemma shift_count_less: "uint w < 2 ^ shift_count w 0"
proof (induction "unat w" arbitrary: w rule: less_induct)
  case less
  show ?case
  proof (cases "w = 0")
    case False
    have "uint (drop_bit 1 w) < 2 ^ shift_count (drop_bit 1 w) 0"
      by (rule less) (rule unat_drop_bit_less [OF False])
    moreover have "shift_count w 0 = shift_count (drop_bit 1 w) 0 + 1"
      using False shift_count_add [of "drop_bit 1 w" 0 1] by (subst shift_count.simps) simp
    ultimately show ?thesis unfolding uint_drop_bit by simp
  qed (simp add: shift_count.simps [of 0])
qed

lemma shift_count_le: "uint w < 2 ^ n \<Longrightarrow> shift_count w 0 \<le> n"
proof (induction n arbitrary: w)
  case 0
  then have "uint w = 0" using uint_bounds(1) [of w] unfolding power_0 by linarith
  then have "w = 0" by (simp add: unsigned_eq_0_iff)
  then show ?case by (simp add: shift_count.simps [of 0])
next
  case (Suc n)
  show ?case
  proof (cases "w = 0")
    case False
    have "uint (drop_bit 1 w) < 2 ^ n" unfolding uint_drop_bit using Suc.prems by simp
    then have "shift_count (drop_bit 1 w) 0 \<le> n" by (rule Suc.IH)
    moreover have "shift_count w 0 = shift_count (drop_bit 1 w) 0 + 1"
      using False shift_count_add [of "drop_bit 1 w" 0 1] by (subst shift_count.simps) simp
    ultimately show ?thesis by simp
  qed (simp add: shift_count.simps [of 0])
qed

lemma sint_eq_uint: "0 \<le> sint (w :: 64 word) \<Longrightarrow> sint w = uint w"
proof -
  assume "0 \<le> sint w"
  moreover have "uint (word_of_int (sint w) :: 64 word) = sint w mod 2 ^ 64" by (simp only: uint_word_of_int) simp
  ultimately show ?thesis using sint_bounds(2) [of w] by simp
qed

lemma high_nonneg: "0 \<le> int128_val x \<Longrightarrow> 0 \<le> sint (high x)"
  using int128_neg_iff [of x] by linarith

lemma PositiveInt128BitsAmount_val:
  assumes "0 \<le> int128_val x"
  shows "int128_val x < 2 ^ PositiveInt128BitsAmount x" "PositiveInt128BitsAmount x \<le> 127"
proof -
  have h: "sint (high x) = uint (high x)" by (rule sint_eq_uint [OF high_nonneg [OF assms]])
  have c: "shift_count w 64 = 64 + shift_count w 0" for w using shift_count_add [of w 0 64] by simp
  show "int128_val x < 2 ^ PositiveInt128BitsAmount x"
  proof (cases "high x = 0")
    case True
    then show ?thesis using shift_count_less [of "low x"] by (simp add: PositiveInt128BitsAmount_def int128_val_def)
  next
    case False
    have "int128_val x div 2 ^ 64 < 2 ^ shift_count (high x) 0"
      unfolding int128_val_parts h by (rule shift_count_less)
    then show ?thesis using False unfolding PositiveInt128BitsAmount_def c
      by (simp add: div_less_iff power_add mult.commute)
  qed
  have "shift_count (low x) 0 \<le> 64" by (rule shift_count_le) (rule uint_bounds(2))
  moreover have "shift_count (high x) 0 \<le> 63"
    by (rule shift_count_le) (use sint_bounds(2) [of "high x"] h in simp)
  ultimately show "PositiveInt128BitsAmount x \<le> 127" by (simp add: PositiveInt128BitsAmount_def c)
qed

lemma bit_int128_val: "bit (int128_val x) n \<longleftrightarrow> (if n < 64 then bit (low x) n else bit (sint (high x)) (n - 64))"
proof -
  have "push_bit 64 (sint (high x)) AND uint (low x) = 0"
    by (auto simp: bit_eq_iff bit_simps dest: bit_imp_le_length)
  then have "int128_val x = push_bit 64 (sint (high x)) OR uint (low x)"
    by (simp add: int128_val_def push_bit_eq_mult flip: disjunctive_add_eq_or)
  then show ?thesis by (auto simp: bit_simps dest: bit_imp_le_length_64)
qed

lemma PositiveInt128IsBitSet_val:
  "n < 128 \<Longrightarrow> PositiveInt128IsBitSet x n \<longleftrightarrow> bit (int128_val x) n"
  unfolding PositiveInt128IsBitSet_def bit_iff_and_push_bit_not_eq_0 [symmetric] bit_int128_val
  by (auto simp: bit_sint_iff)

lemma double_split: "2 * l = l div B * (2 * B) + l mod B * 2" for l B :: int
proof -
  have "l div B * B + l mod B = l" by (rule div_mult_mod_eq)
  moreover have "l div B * (2 * B) = 2 * (l div B * B)" by simp
  ultimately show ?thesis by linarith
qed

lemma PositiveInt128LeftShift_val:
  assumes "0 \<le> int128_val x" "int128_val x < 2 ^ 126"
  shows "PositiveInt128LeftShift x 1 = int128_of (2 * int128_val x)"
proof -
  let ?l = "uint (low x)"
  have "2 * int128_val x = (2 * sint (high x) + ?l div 2 ^ 63) * 2 ^ 64 + ?l mod 2 ^ 63 * 2"
    unfolding int128_val_def using double_split [of ?l "2 ^ 63"] by simp
  then have "int128_of (2 * int128_val x) = int128 (word_of_int (?l mod 2 ^ 63 * 2)) (word_of_int (2 * sint (high x) + ?l div 2 ^ 63))"
    by (simp only:) (rule int128_of_split, simp_all)
  moreover have "word_of_int (?l mod 2 ^ 63 * 2) = push_bit 1 (low x)"
  proof -
    have "push_bit 1 (low x) = word_of_int (2 * ?l)" by (simp add: push_bit_eq_mult)
    also have "2 * ?l = ?l div 2 ^ 63 * 2 ^ 64 + ?l mod 2 ^ 63 * 2" using double_split [of ?l "2 ^ 63"] by simp
    finally show ?thesis unfolding word_of_int_carry ..
  qed
  moreover have "word_of_int (2 * sint (high x) + ?l div 2 ^ 63) = push_bit 1 (high x) + drop_bit 63 (low x)"
  proof -
    have "word_of_int (?l div 2 ^ 63) = drop_bit 63 (low x)" unfolding uint_drop_bit [symmetric] by simp
    then show ?thesis by (simp add: push_bit_eq_mult)
  qed
  ultimately show ?thesis by (simp add: PositiveInt128LeftShift_def)
qed

lemma PositiveInt128LeftShift_double:
  "0 \<le> int128_val x \<Longrightarrow> int128_val x < 2 ^ 126 \<Longrightarrow> int128_val (PositiveInt128LeftShift x 1) = 2 * int128_val x"
  by (simp only: PositiveInt128LeftShift_val) (simp add: int128_val_of)

lemma div_half: "(a :: int) div 2 ^ n = 2 * (a div 2 ^ Suc n) + of_bool (bit a n)"
proof -
  have "a div 2 ^ Suc n = (a div 2 ^ n) div 2" by (simp add: power_Suc2 zdiv_zmult2_eq del: power_Suc)
  moreover have "of_bool (bit a n) = (a div 2 ^ n) mod 2" by (simp add: bit_iff_odd mod_2_eq_odd)
  ultimately show ?thesis by simp
qed

text \<open>One round of long division: from the quotient and remainder of the first bits to those of one more bit.\<close>

lemma long_division_step:
  fixes a d :: int
  assumes "q * d + r = a div 2 ^ Suc n" "0 \<le> r" "r < d" "0 \<le> q"
  defines "r1 \<equiv> 2 * r + of_bool (bit a n)"
  shows "r1 \<ge> d \<Longrightarrow> (2 * q + 1) * d + (r1 - d) = a div 2 ^ n \<and> 0 \<le> r1 - d \<and> r1 - d < d"
    "\<not> r1 \<ge> d \<Longrightarrow> 2 * q * d + r1 = a div 2 ^ n \<and> 0 \<le> r1 \<and> r1 < d"
  using assms(2-4) unfolding div_half [of a n] assms(1) [symmetric] r1_def by (auto simp: algebra_simps)

lemma addInPlace_one:
  "0 \<le> int128_val x \<Longrightarrow> int128_val x < 2 ^ 127 - 1 \<Longrightarrow> int128_val (snd (addInPlace x (int128 1 0))) = int128_val x + 1"
  using addInPlace_val [of x "int128 1 0"] by (simp add: int128_val_0 int128_fits_def)

lemma divMod_loop_val:
  assumes "0 \<le> int128_val a" "0 < int128_val d" "n \<le> 127"
    and "int128_val q * int128_val d + int128_val r = int128_val a div 2 ^ n"
    and "0 \<le> int128_val q" "0 \<le> int128_val r" "int128_val r < int128_val d"
  shows "divMod_loop a d n q r = Inr (int128_of (int128_val a div int128_val d), int128_of (int128_val a mod int128_val d))"
  using assms(3-)
proof (induction n arbitrary: q r)
  case 0
  then have "int128_val a div int128_val d = int128_val q" "int128_val a mod int128_val d = int128_val r"
    using int_div_pos_eq [of "int128_val a" "int128_val d" "int128_val q" "int128_val r"]
      int_mod_pos_eq [of "int128_val a" "int128_val d" "int128_val q" "int128_val r"]
    by (simp_all add: mult.commute)
  then show ?case by simp
next
  case (Suc n)
  let ?a = "int128_val a" and ?d = "int128_val d"
  have nn: "0 \<le> ?a div 2 ^ n" using assms(1) by (simp add: pos_imp_zdiv_nonneg_iff)
  have less: "?a div 2 ^ n < 2 ^ 127"
    using int128_val_bounds(2) [of a] assms(1) by (auto simp: div_less_iff intro: order_less_le_trans)
  then have half: "?a div 2 ^ Suc n < 2 ^ 126" unfolding div_half [of ?a n] by (cases "bit ?a n") simp_all
  have "int128_val q \<le> int128_val q * ?d" using Suc.prems(3) assms(2) by (simp add: mult_le_cancel_left1)
  then have q: "int128_val q < 2 ^ 126" and r: "int128_val r < 2 ^ 126" using Suc.prems half by linarith+
  define r1 where "r1 = 2 * int128_val r + of_bool (bit ?a n)"
  have r1: "0 \<le> r1" "r1 < 2 ^ 127" using Suc.prems(4) r by (simp_all add: r1_def of_bool_def)
  have q2: "int128_val (PositiveInt128LeftShift q 1) = 2 * int128_val q"
    by (rule PositiveInt128LeftShift_double [OF Suc.prems(3) q])
  let ?rem = "if PositiveInt128IsBitSet a n then snd (addInPlace (PositiveInt128LeftShift r 1) (int128 1 0))
    else PositiveInt128LeftShift r 1"
  have "int128_val (PositiveInt128LeftShift r 1) = 2 * int128_val r"
    by (rule PositiveInt128LeftShift_double [OF Suc.prems(4) r])
  then have rem: "int128_val ?rem = r1"
    using Suc.prems(1,4) r addInPlace_one [of "PositiveInt128LeftShift r 1"]
    by (simp add: PositiveInt128IsBitSet_val r1_def)
  note step = long_division_step [OF Suc.prems(2,4,5,3), folded r1_def]
  show ?case
  proof (cases "r1 \<ge> ?d")
    case True
    have sub: "Int128_Sub ?rem d = Inr (int128_of (r1 - ?d))" "int128_val (int128_of (r1 - ?d)) = r1 - ?d"
      using True r1 assms(2) unfolding Int128_Sub_val rem by (simp_all add: int128_fits_def int128_val_of)
    have q3: "int128_val (snd (addInPlace (PositiveInt128LeftShift q 1) (int128 1 0))) = 2 * int128_val q + 1"
      using addInPlace_one [of "PositiveInt128LeftShift q 1"] q Suc.prems(3) unfolding q2 by simp
    show ?thesis
      using True Suc.IH [of "snd (addInPlace (PositiveInt128LeftShift q 1) (int128 1 0))" "int128_of (r1 - ?d)"]
        Suc.prems(1,3) step(1) [OF True]
      unfolding divMod_loop.simps Let_def Int128_compare rem if_P [OF True] sub(1) rbind_simps q3 sub(2) by simp
  next
    case False
    show ?thesis
      using False Suc.IH [of "PositiveInt128LeftShift q 1" ?rem] Suc.prems(1,3) step(2) [OF False]
      unfolding divMod_loop.simps Let_def Int128_compare rem if_not_P [OF False] q2 by simp
  qed
qed

lemma signed_quotient:
  fixes a b :: int
  shows "a sdiv b = (if (a < 0) \<noteq> (b < 0) then - (\<bar>a\<bar> div \<bar>b\<bar>) else \<bar>a\<bar> div \<bar>b\<bar>)"
    "a smod b = (if a < 0 then - (\<bar>a\<bar> mod \<bar>b\<bar>) else \<bar>a\<bar> mod \<bar>b\<bar>)"
proof -
  show "a sdiv b = (if (a < 0) \<noteq> (b < 0) then - (\<bar>a\<bar> div \<bar>b\<bar>) else \<bar>a\<bar> div \<bar>b\<bar>)"
    unfolding signed_divide_int_def by (auto simp: sgn_if)
  show "a smod b = (if a < 0 then - (\<bar>a\<bar> mod \<bar>b\<bar>) else \<bar>a\<bar> mod \<bar>b\<bar>)"
    unfolding signed_modulo_int_def by (auto simp: sgn_if)
qed

lemma divMod_val:
  assumes "int128_val x \<noteq> - (2 ^ 127)" "int128_val y \<noteq> - (2 ^ 127)" "int128_val y \<noteq> 0"
  shows "divMod x y = Inr (int128_of (int128_val x sdiv int128_val y), int128_of (int128_val x smod int128_val y))"
proof -
  let ?a = "\<bar>int128_val x\<bar>" and ?d = "\<bar>int128_val y\<bar>"
  let ?A = "int128_of ?a" and ?D = "int128_of ?d"
  note ab = abs_val(2) [OF assms(1)] abs_val(2) [OF assms(2)]
  have a: "0 \<le> int128_val ?A" "0 < int128_val ?D" unfolding ab using assms(3) by simp_all
  have "int128_val ?A div 2 ^ PositiveInt128BitsAmount ?A = 0"
    using PositiveInt128BitsAmount_val(1) [OF a(1)] a(1) by (simp add: div_pos_pos_trivial)
  then have loop: "divMod_loop ?A ?D (PositiveInt128BitsAmount ?A) (int128 0 0) (int128 0 0) =
      Inr (int128_of (?a div ?d), int128_of (?a mod ?d))"
    using divMod_loop_val [OF a PositiveInt128BitsAmount_val(2) [OF a(1)], of "int128 0 0" "int128 0 0"] a(2)
    by (simp add: int128_val_0 ab)
  have lt: "?a < 2 ^ 127" "?d < 2 ^ 127" using assms int128_val_bounds [of x] int128_val_bounds [of y] by auto
  have "0 \<le> ?a div ?d" "?a div ?d \<le> ?a" "0 \<le> ?a mod ?d" "?a mod ?d < ?d"
    using assms(3) zdiv_mono2 [of ?a 1 ?d] by (simp_all add: pos_imp_zdiv_nonneg_iff)
  with lt have v: "int128_val (int128_of (?a div ?d)) = ?a div ?d" "int128_val (int128_of (?a mod ?d)) = ?a mod ?d"
    by (auto intro!: int128_val_of)
  have neg: "negateInPlace (int128_of (?a div ?d)) = Inr (int128_of (- (?a div ?d)))"
    "negateInPlace (int128_of (?a mod ?d)) = Inr (int128_of (- (?a mod ?d)))"
    using \<open>0 \<le> ?a div ?d\<close> \<open>0 \<le> ?a mod ?d\<close> by (simp_all add: negateInPlace_val v)
  show ?thesis
    unfolding divMod_def Let_def abs_val(1) [OF assms(1)] abs_val(1) [OF assms(2)] rbind_simps loop prod.case
    unfolding signed_quotient int128_neg_iff
    by (cases "int128_val x < 0"; cases "int128_val y < 0")
      (simp_all only: neg rbind_simps if_True if_False simp_thms not_True_eq_False not_False_eq_True)
qed

subsection \<open>Decimal printing\<close>

lemma int128_val_increment:
  assumes "0 \<le> int128_val x" "int128_val x < 2 ^ 127 - 1"
  shows "int128_val (int128 (low x + 1) (if low x + 1 = 0 then high x + 1 else high x)) = int128_val x + 1"
proof -
  have "low x + 1 < low x \<longleftrightarrow> low x + 1 = 0"
  proof -
    have "low x + 1 = 0 \<longleftrightarrow> uint (low x + 1) = 0" by (rule unsigned_eq_0_iff [symmetric])
    also have "\<dots> \<longleftrightarrow> 2 ^ 64 \<le> uint (low x) + 1"
    proof -
      have "uint (low x) + 1 \<noteq> 0" using uint_bounds(1) [of "low x"] by linarith
      then show ?thesis using uint_bounds(2) [of "low x"] by (simp add: uint_plus_if_size size_word_def)
    qed
    finally show ?thesis by (simp add: carry_iff)
  qed
  then have "int128 (low x + 1) (if low x + 1 = 0 then high x + 1 else high x) = int128_of (int128_val x + 1)"
    using int128_of_add [of x "int128 1 0"] by (simp add: int128_val_0)
  then show ?thesis using assms by (simp add: int128_val_of)
qed

lemma divModPositive_loop_val:
  assumes "0 \<le> int128_val a" "0 < uint d" "uint d \<le> 2 ^ 63" "n \<le> 127"
    and "int128_val q * uint d + uint r = int128_val a div 2 ^ n" "0 \<le> int128_val q" "uint r < uint d"
  shows "divModPositive_loop a d n q r = (int128_of (int128_val a div uint d), word_of_int (int128_val a mod uint d))"
  using assms(4-)
proof (induction n arbitrary: q r)
  case 0
  then have "int128_val a div uint d = int128_val q" "int128_val a mod uint d = uint r"
    using int_div_pos_eq [of "int128_val a" "uint d" "int128_val q" "uint r"]
      int_mod_pos_eq [of "int128_val a" "uint d" "int128_val q" "uint r"]
    by (simp_all add: mult.commute)
  then show ?case by simp
next
  case (Suc n)
  let ?a = "int128_val a"
  have less: "?a div 2 ^ n < 2 ^ 127"
    using int128_val_bounds(2) [of a] assms(1) by (auto simp: div_less_iff intro: order_less_le_trans)
  then have half: "?a div 2 ^ Suc n < 2 ^ 126" unfolding div_half [of ?a n] by (cases "bit ?a n") simp_all
  have "int128_val q \<le> int128_val q * uint d" using Suc.prems(3) assms(2) by (simp add: mult_le_cancel_left1)
  then have q: "int128_val q < 2 ^ 126" using Suc.prems(2) half uint_bounds(1) [of r] by linarith
  define r1 where "r1 = 2 * uint r + of_bool (bit ?a n)"
  have q2: "int128_val (PositiveInt128LeftShift q 1) = 2 * int128_val q"
    by (rule PositiveInt128LeftShift_double [OF Suc.prems(3) q])
  let ?rem = "if PositiveInt128IsBitSet a n then push_bit 1 r + 1 else push_bit 1 r"
  have "?rem = word_of_int r1"
    using Suc.prems(1) by (simp add: PositiveInt128IsBitSet_val r1_def push_bit_eq_mult)
  moreover have "0 \<le> r1" "r1 < 2 ^ 64" using Suc.prems(4) assms(3) by (simp_all add: r1_def of_bool_def)
  ultimately have rem: "uint ?rem = r1" by (simp only: uint_word_of_int) simp
  note step = long_division_step [OF Suc.prems(2) uint_bounds(1) Suc.prems(4,3), folded r1_def]
  let ?q = "PositiveInt128LeftShift q 1"
  let ?q1 = "int128 (low ?q + 1) (if low ?q + 1 = 0 then high ?q + 1 else high ?q)"
  show ?case
  proof (cases "r1 \<ge> uint d")
    case True
    then have "uint d \<le> uint ?rem" by (simp only: rem)
    then have sub: "uint (?rem - d) = r1 - uint d" unfolding rem [symmetric] by (simp only: uint_sub_if_size if_True)
    have q1: "int128_val ?q1 = 2 * int128_val q + 1"
      using int128_val_increment [of ?q] q Suc.prems(3) unfolding q2 by simp
    have "divModPositive_loop a d (Suc n) q r = divModPositive_loop a d n ?q1 (?rem - d)"
      using True by (simp only: divModPositive_loop.simps Let_def word_le_def rem if_True)
    with Suc.IH [of ?q1 "?rem - d"] Suc.prems(1,3) step(1) [OF True] show ?thesis
      unfolding q1 sub by simp
  next
    case False
    then have "divModPositive_loop a d (Suc n) q r = divModPositive_loop a d n ?q ?rem"
      by (simp only: divModPositive_loop.simps Let_def word_le_def rem if_False)
    with Suc.IH [of ?q ?rem] Suc.prems(1,3) step(2) [OF False] show ?thesis
      unfolding q2 rem by simp
  qed
qed

lemma divModPositive_val:
  assumes "0 \<le> int128_val x" "0 < uint d" "uint d \<le> 2 ^ 63"
  shows "divModPositive x d = (int128_of (int128_val x div uint d), word_of_int (int128_val x mod uint d))"
proof -
  have "int128_val x div 2 ^ PositiveInt128BitsAmount x = 0"
    using PositiveInt128BitsAmount_val(1) [OF assms(1)] assms(1) by (simp add: div_pos_pos_trivial)
  then show ?thesis
    unfolding divModPositive_def
    using divModPositive_loop_val [OF assms PositiveInt128BitsAmount_val(2) [OF assms(1)], of "int128 0 0" 0] assms(2)
    by (simp add: int128_val_0)
qed

lemma ToString_loop_val:
  "0 \<le> int128_val x \<Longrightarrow> ToString_loop x acc = Some (decimal (nat (int128_val x)) @ acc)"
proof (induction "nat (int128_val x)" arbitrary: x acc rule: less_induct)
  case less
  show ?case
  proof (cases "int128_val x = 0")
    case True
    then show ?thesis by (subst ToString_loop.simps) (simp add: int128_zero_iff)
  next
    case False
    let ?v = "int128_val x"
    have dm: "divModPositive x 10 = (int128_of (?v div 10), word_of_int (?v mod 10))"
      using divModPositive_val [OF less.prems, of 10] by simp
    have v: "int128_val (int128_of (?v div 10)) = ?v div 10"
      using less.prems int128_val_bounds(2) [of x] by (intro int128_val_of) auto
    have "unat (word_of_int (?v mod 10) :: 64 word) = nat ?v mod 10"
    proof -
      have "unat (word_of_int (?v mod 10) :: 64 word) = nat (uint (word_of_int (?v mod 10) :: 64 word))" by simp
      also have "uint (word_of_int (?v mod 10) :: 64 word) = ?v mod 10"
        by (simp only: uint_word_of_int) simp
      finally show ?thesis using less.prems by (simp add: nat_mod_distrib)
    qed
    moreover have "ToString_loop (int128_of (?v div 10)) acc' = Some (decimal (nat (?v div 10)) @ acc')" for acc'
      using less.hyps [of "int128_of (?v div 10)" acc'] False less.prems by (simp add: v pos_imp_zdiv_nonneg_iff)
    ultimately show ?thesis
      using False less.prems decimal.simps [of "nat ?v"]
      by (subst ToString_loop.simps) (simp add: int128_zero_iff dm nat_div_distrib)
  qed
qed

lemma Int128_ToString_val:
  "Int128_ToString x =
    (if int128_val x = - (2 ^ 127)
     then Inl (StdOverflowError ''INT128 is out of range: cannot negate INT128_MIN'')
     else Inr (decimal_int (int128_val x)))"
proof (cases "int128_val x = - (2 ^ 127)")
  case True
  then show ?thesis by (simp add: Int128_ToString_def int128_neg_iff negateInPlace_val)
next
  case False
  have ret: "returned (ToString_loop (int128_of \<bar>int128_val x\<bar>) []) = Inr (decimal (nat \<bar>int128_val x\<bar>))"
    using ToString_loop_val [of "int128_of \<bar>int128_val x\<bar>" "[]"] abs_val(2) [OF False] by simp
  show ?thesis using False
    unfolding Int128_ToString_def Let_def abs_val(1) [OF False] rbind_simps ret
    unfolding int128_neg_iff by (auto simp: decimal_int_def)
qed

lemma divMod_min:
  "int128_val x = - (2 ^ 127) \<or> int128_val y = - (2 ^ 127) \<Longrightarrow>
   divMod x y = Inl (StdOverflowError ''INT128 is out of range: cannot negate INT128_MIN'')"
  by (auto simp: divMod_def Let_def int128_neg_iff negateInPlace_val)

subsection \<open>Properties\<close>

text \<open>(C15) Division by shifting and subtracting computes the quotient and remainder of truncated division;
  dividing by zero throws.\<close>

theorem int128_division_truncates:
  "Int128_Div x y =
     (if int128_val y = 0 then Inl (RuntimeException ''Divide by zero.'')
      else if int128_val x = - (2 ^ 127) \<or> int128_val y = - (2 ^ 127)
      then Inl (StdOverflowError ''INT128 is out of range: cannot negate INT128_MIN'')
      else Inr (int128_of (int128_val x sdiv int128_val y))) \<and>
   Int128_Mod x y =
     (if int128_val y = 0 then Inl (RuntimeException ''Modulo by zero.'')
      else if int128_val x = - (2 ^ 127) \<or> int128_val y = - (2 ^ 127)
      then Inl (StdOverflowError ''INT128 is out of range: cannot negate INT128_MIN'')
      else Inr (int128_of (int128_val x smod int128_val y)))"
proof -
  have z: "high y = 0 \<and> low y = 0 \<longleftrightarrow> int128_val y = 0" using int128_zero_iff [of y] by blast
  show ?thesis
    by (simp add: Int128_Div_def Int128_Mod_def z divMod_val divMod_min)
qed

text \<open>(C16) Printing: the text of a 128-bit integer is its decimal notation, with a minus sign in front of a negative value and
  no leading zeros, and it reads back to the value. The smallest value, which cannot be negated, is the only one that is not
  printed: the printer throws.\<close>

theorem int128_to_string_round_trip:
  "Int128_ToString x =
     (if int128_val x = - (2 ^ 127)
      then Inl (StdOverflowError ''INT128 is out of range: cannot negate INT128_MIN'')
      else Inr (decimal_int (int128_val x))) \<and>
   read_decimal_int (decimal_int (int128_val x)) = int128_val x \<and>
   (int128_val x = 0 \<longrightarrow> decimal_int (int128_val x) = ''0'') \<and>
   (0 < int128_val x \<longrightarrow> hd (decimal_int (int128_val x)) \<noteq> CHR ''0'') \<and>
   (int128_val x < 0 \<longrightarrow> decimal_int (int128_val x) = CHR ''-'' # decimal_int (- int128_val x))"
  unfolding Int128_ToString_val read_decimal_int by (simp add: decimal_int_def hd_decimal)

theorem int128_to_string_round_trip_witness:
  "Int128_ToString (int128 0 5) = Inr (decimal_int 92233720368547758080) \<and>
   hd (decimal_int 92233720368547758080) \<noteq> CHR ''0''"
  using int128_to_string_round_trip [of "int128 0 5"] by (simp add: int128_val_def)

end
