(* ===== verification/Int128_Bits.thy ===== *)
theory Int128_Bits
  imports Int128_Division
begin

text \<open>
  Shifts, bitwise operations and casts of 128-bit integers, and the tables of powers of ten.
\<close>

unbundle bit_operations_syntax

subsection \<open>Bitwise operations and shifts\<close>

lemma bit_sint_min: "bit (sint (w :: 64 word)) j = bit w (min 63 j)"
proof (cases "j < 64")
  case True
  then have "min 63 j = j" by simp
  with True show ?thesis by (simp add: bit_sint_iff)
next
  case False
  then show ?thesis by (auto simp: bit_sint_iff dest: bit_imp_le_length_64)
qed

lemma int128_val_bitwise:
  "int128_val (Int128_Xor x y) = int128_val x XOR int128_val y"
  "int128_val (Int128_BinaryAnd x y) = int128_val x AND int128_val y"
  "int128_val (Int128_BinaryOr x y) = int128_val x OR int128_val y"
  "int128_val (Int128_BinaryNot x) = NOT (int128_val x)"
  by (auto intro!: bit_eqI simp: bit_int128_val bit_simps Int128_Xor_def Int128_BinaryAnd_def Int128_BinaryOr_def
      Int128_BinaryNot_def)

lemma int128_val_of_wrap: "int128_val (int128_of v) = signed_take_bit 127 v"
proof (rule bit_eqI)
  fix k :: nat
  have "64 + min 63 (k - 64) = min 127 (k :: nat)" if "\<not> k < 64" using that by simp
  then show "bit (int128_val (int128_of v)) k = bit (signed_take_bit 127 v) k"
    unfolding bit_int128_val bit_sint_min int128_of_def drop_bit_eq_div [symmetric]
    by (auto simp: bit_simps)
qed

lemma or_eq_add_disjoint:
  assumes "n < 64" "0 < n"
  shows "push_bit n (h :: 64 word) OR drop_bit (64 - n) l = push_bit n h + drop_bit (64 - n) l"
proof -
  have "push_bit n h AND drop_bit (64 - n) l = 0"
    using assms by (auto simp: bit_eq_iff bit_simps dest: bit_imp_le_length_64)
  then show ?thesis by (simp add: disjunctive_add_eq_or)
qed

lemma pow_split: "k \<le> n \<Longrightarrow> (2 :: int) ^ n = 2 ^ (n - k) * 2 ^ k"
  by (metis le_add_diff_inverse2 power_add)

lemma div_sign: "- B \<le> s \<Longrightarrow> s < B \<Longrightarrow> s div B = (if s < 0 then - 1 else 0)" for s B :: int
  using int_div_pos_eq [of s B "- 1" "s + B"] by (simp add: div_pos_pos_trivial)

lemma div_pow_bounds: "- B \<le> v div 2 ^ n" "v div 2 ^ n < B" if "- B \<le> v" "v < B" "0 < B" for v B :: int
proof -
  have "B \<le> B * 2 ^ n" using that(3) by (simp add: mult_le_cancel_left1)
  then have "v < B * 2 ^ n" "\<not> v < - B * 2 ^ n" using that by linarith+
  then have "v div 2 ^ n < B" "\<not> v div 2 ^ n < - B" by (simp_all only: div_less_iff zero_less_power zero_less_numeral not_False_eq_True)
  then show "v div 2 ^ n < B" "- B \<le> v div 2 ^ n" by simp_all
qed

lemma signed_drop_bit_of: "signed_drop_bit k w = word_of_int (sint w div 2 ^ k)" for w :: "64 word"
proof -
  have "word_of_int (sint (signed_drop_bit k w)) = signed_drop_bit k w" by simp
  then show ?thesis unfolding sint_signed_drop_bit_eq drop_bit_eq_div by simp
qed

lemma Int128_LeftShift_of:
  assumes "n < 128"
  shows "Int128_LeftShift x n = int128_of (int128_val x * 2 ^ n)"
proof (cases "64 \<le> n")
  case True
  then have "int128_val x * 2 ^ n = (int128_val x * 2 ^ (n - 64)) * 2 ^ 64 + 0"
    unfolding pow_split [OF True] by (simp only: mult.assoc add_0_right)
  moreover have "word_of_int (int128_val x * 2 ^ (n - 64)) = push_bit (n - 64) (low x)"
    by (simp add: int128_val_def push_bit_eq_mult)
  moreover have "int128_of ((int128_val x * 2 ^ (n - 64)) * 2 ^ 64 + 0) =
      int128 (word_of_int 0) (word_of_int (int128_val x * 2 ^ (n - 64)))" by (rule int128_of_split) simp_all
  ultimately show ?thesis using True by (simp only: Int128_LeftShift_def if_True of_int_0)
next
  case False
  show ?thesis
  proof (cases "n = 0")
    case False
    have p: "(2 :: int) ^ 64 = 2 ^ n * 2 ^ (64 - n)" using \<open>\<not> 64 \<le> n\<close> by (simp flip: power_add)
    have "uint (low x) * 2 ^ n div 2 ^ 64 = uint (low x) div 2 ^ (64 - n)"
      unfolding p by (simp add: mult.commute)
    then have h: "int128_val x * 2 ^ n div 2 ^ 64 = sint (high x) * 2 ^ n + uint (drop_bit (64 - n) (low x))"
      unfolding int128_val_def uint_drop_bit distrib_right by (simp add: mult.assoc mult.commute [of "2 ^ 64"] mult.left_commute)
    show ?thesis
      unfolding int128_of_def h using False \<open>\<not> 64 \<le> n\<close>
      by (simp add: Int128_LeftShift_def or_eq_add_disjoint int128_val_def) (simp add: push_bit_eq_mult)
  qed (simp add: Int128_LeftShift_def)
qed

lemma Int128_LeftShift_val:
  "n < 128 \<Longrightarrow> int128_val (Int128_LeftShift x n) = signed_take_bit 127 (int128_val x * 2 ^ n)"
  by (simp add: Int128_LeftShift_of int128_val_of_wrap)

lemma Int128_RightShift_of: "Int128_RightShift x n = int128_of (int128_val x div 2 ^ n)"
proof (cases "64 \<le> n")
  case True
  let ?q = "sint (high x) div 2 ^ (n - 64)"
  have "int128_val x div 2 ^ n = int128_val x div (2 ^ 64 * 2 ^ (n - 64))"
    unfolding pow_split [OF True] by (simp only: mult.commute)
  then have q: "int128_val x div 2 ^ n = ?q"
    using zdiv_zmult2_eq [of "2 ^ (n - 64)" "int128_val x" "2 ^ 64"] unfolding int128_val_parts by simp
  have "- (2 ^ 63) \<le> ?q" "?q < 2 ^ 63" using div_pow_bounds [OF sint_bounds [of "high x"]] by simp_all
  then have "?q div 2 ^ 64 = (if ?q < 0 then - 1 else 0)" by (intro div_sign) simp_all
  moreover have "?q < 0 \<longleftrightarrow> sint (high x) < 0" by (simp add: pos_imp_zdiv_neg_iff)
  moreover have "sint (high x) div 2 ^ 63 = (if sint (high x) < 0 then - 1 else 0)"
    using sint_bounds [of "high x"] by (rule div_sign)
  ultimately have "?q div 2 ^ 64 = sint (high x) div 2 ^ 63" by presburger
  then show ?thesis using True unfolding q Int128_RightShift_def int128_of_def signed_drop_bit_of
    by (simp only: if_True)
next
  case False
  show ?thesis
  proof (cases "n = 0")
    case nz: False
    have p: "(2 :: int) ^ 64 = 2 ^ (64 - n) * 2 ^ n" using False by (intro pow_split) simp
    have v: "int128_val x div 2 ^ n = sint (high x) * 2 ^ (64 - n) + uint (drop_bit n (low x))"
      unfolding int128_val_def p uint_drop_bit
      using div_mult_self1 [of "2 ^ n" "uint (low x)" "sint (high x) * 2 ^ (64 - n)"]
      by (simp only: mult.assoc add.commute) simp
    have "int128_val x div 2 ^ n div 2 ^ 64 = int128_val x div (2 ^ 64 * 2 ^ n)"
      using zdiv_zmult2_eq [of "2 ^ 64" "int128_val x" "2 ^ n"] by (simp add: mult.commute)
    also have "\<dots> = sint (high x) div 2 ^ n"
      using zdiv_zmult2_eq [of "2 ^ n" "int128_val x" "2 ^ 64"] unfolding int128_val_parts by simp
    finally have h: "int128_val x div 2 ^ n div 2 ^ 64 = sint (high x) div 2 ^ n" .
    have "drop_bit n (low x) OR push_bit (64 - n) (high x) = push_bit (64 - n) (high x) OR drop_bit (64 - (64 - n)) (low x)"
      using False by (simp add: or.commute)
    also have "\<dots> = push_bit (64 - n) (high x) + drop_bit (64 - (64 - n)) (low x)"
      using nz False by (intro or_eq_add_disjoint) simp_all
    also have "\<dots> = word_of_int (int128_val x div 2 ^ n)" unfolding v using False by (simp add: push_bit_eq_mult)
    finally show ?thesis using False nz
      unfolding Int128_RightShift_def int128_of_def h signed_drop_bit_of by (simp only: if_False)
  qed (simp add: Int128_RightShift_def)
qed

lemma Int128_RightShift_val: "int128_val (Int128_RightShift x n) = int128_val x div 2 ^ n"
  unfolding Int128_RightShift_of using div_pow_bounds [OF int128_val_bounds [of x]] by (intro int128_val_of) simp_all

subsection \<open>Conversions and tables\<close>

lemma tryCastToTemplate_val:
  assumes "- (2 ^ 64) \<le> v" "v < 2 ^ 64"
  shows "int128_val (tryCastToTemplate v) = v"
proof -
  have "tryCastToTemplate v = int128_of v"
    using div_sign [OF assms] by (simp add: tryCastToTemplate_def int128_of_def)
  then show ?thesis using assms by (simp add: int128_val_of)
qed

lemma high_0_iff: "high x = 0 \<longleftrightarrow> 0 \<le> int128_val x \<and> int128_val x < 2 ^ 64"
  and high_minus1_iff: "high x = - 1 \<longleftrightarrow> - (2 ^ 64) \<le> int128_val x \<and> int128_val x < 0"
proof -
  have eq: "w = word_of_int k \<longleftrightarrow> sint w = k" if "- 1 \<le> k" "k \<le> 0" for w :: "64 word" and k
  proof
    assume "w = word_of_int k"
    with sint_of_int [of k] that show "sint w = k" by simp
  qed (use that in auto)
  show "high x = 0 \<longleftrightarrow> 0 \<le> int128_val x \<and> int128_val x < 2 ^ 64"
    using eq [of 0 "high x"] div_less_iff [of "2 ^ 64" "int128_val x" 0] div_less_iff [of "2 ^ 64" "int128_val x" 1]
    unfolding int128_val_parts by auto
  show "high x = - 1 \<longleftrightarrow> - (2 ^ 64) \<le> int128_val x \<and> int128_val x < 0"
    using eq [of "- 1" "high x"] div_less_iff [of "2 ^ 64" "int128_val x" 0] div_less_iff [of "2 ^ 64" "int128_val x" "- 1"]
    unfolding int128_val_parts by auto
qed

lemma uint_complement: "uint (UINT64_MAX - w) = 2 ^ 64 - 1 - uint w"
  using uint_bounds(2) [of w] by (simp add: UINT64_MAX_def uint_sub_if_size)

lemma TryCastInt128Template_signed:
  assumes "uint m < 2 ^ 63"
  shows "TryCastInt128Template True m x =
    Inr (if - uint m - 1 \<le> int128_val x \<and> int128_val x \<le> uint m then Some (int128_val x) else None)"
proof -
  consider "high x = 0" | "high x = - 1" | "high x \<noteq> 0" "high x \<noteq> - 1" by blast
  then show ?thesis
  proof cases
    case 1
    then have "int128_val x = uint (low x)" by (simp add: int128_val_def)
    moreover have "- uint m - 1 \<le> uint (low x)" using uint_bounds(1) [of "low x"] uint_bounds(1) [of m] by linarith
    ultimately show ?thesis using 1 by (simp add: TryCastInt128Template_def word_le_def)
  next
    case 2
    then have v: "int128_val x = uint (low x) - 2 ^ 64" by (simp add: int128_val_def)
    show ?thesis using 2 v uint_bounds(2) [of "low x"] assms
      by (auto simp: TryCastInt128Template_def word_le_def uint_complement)
  next
    case 3
    then have "\<not> (- (2 ^ 64) \<le> int128_val x \<and> int128_val x < 2 ^ 64)"
      unfolding high_0_iff high_minus1_iff by auto
    with 3 assms show ?thesis by (auto simp: TryCastInt128Template_def)
  qed
qed

lemma TryCastInt128Template_unsigned:
  "TryCastInt128Template False m x =
    (if - (2 ^ 64) \<le> int128_val x \<and> int128_val x < 0
     then Inl (OverflowException (''Cast failed. Cannot cast '' @ decimal_int (int128_val x) @ '' to unsigned type.''))
     else Inr (if 0 \<le> int128_val x \<and> int128_val x \<le> uint m then Some (int128_val x) else None))"
proof -
  consider "high x = 0" | "high x \<noteq> 0" "high x = - 1" | "high x \<noteq> 0" "high x \<noteq> - 1" by blast
  then show ?thesis
  proof cases
    case 1
    then have "int128_val x = uint (low x)" by (simp add: int128_val_def)
    with 1 show ?thesis by (simp add: TryCastInt128Template_def word_le_def)
  next
    case 2
    then have v: "- (2 ^ 64) \<le> int128_val x \<and> int128_val x < 0" unfolding high_minus1_iff by blast
    then have "Int128_ToString x = Inr (decimal_int (int128_val x))" by (simp add: Int128_ToString_val)
    with 2 show ?thesis unfolding if_P [OF v] by (simp add: TryCastInt128Template_def)
  next
    case 3
    then have n: "\<not> (- (2 ^ 64) \<le> int128_val x \<and> int128_val x < 0)" "\<not> (0 \<le> int128_val x \<and> int128_val x \<le> uint m)"
      using uint_bounds(2) [of m] unfolding high_0_iff high_minus1_iff by linarith+
    from 3 show ?thesis unfolding if_not_P [OF n(1)] if_not_P [OF n(2)] by (simp add: TryCastInt128Template_def)
  qed
qed

lemma powerOf10_val: "powerOf10 = map (\<lambda>i. Inr (int128_of (10 ^ i))) [0..<39]"
proof -
  have c: "tryCastToTemplate v = int128_of v" if "0 \<le> v" "v < 2 ^ 64" for v
    using tryCastToTemplate_val [of v] that by (metis int128_of_val order_trans neg_le_0_iff_le zero_le_power zero_le_numeral)
  have m: "Int128_Mul (int128_of a) (int128_of b) = Inr (int128_of (a * b))"
    if "0 \<le> a" "0 \<le> b" "a * b < 2 ^ 127" "a < 2 ^ 127" "b < 2 ^ 127" for a b
  proof -
    have "- (2 ^ 127) < a * b" using mult_nonneg_nonneg [OF that(1,2)] by (rule order_less_le_trans [rotated]) simp
    with that show ?thesis by (simp add: Int128_Mul_val int128_val_of int128_fits_def)
  qed
  show ?thesis
    unfolding powerOf10_def Let_def by (simp add: c m upt_rec)
qed

lemma pow10Sequence_val: "map int128_val pow10Sequence = map (\<lambda>i. 10 ^ i) [0..<39]"
  by (simp add: pow10Sequence_def int128_val_def upt_rec)

subsection \<open>Properties\<close>

text \<open>(C18) Shifts and bitwise operations act on the two's complement representation: a left shift multiplies
  modulo 2^128, a right shift divides rounding down.\<close>

theorem int128_shifts:
  assumes "n < 128"
  shows "int128_val (Int128_LeftShift x n) = signed_take_bit 127 (int128_val x * 2 ^ n) \<and>
    int128_val (Int128_RightShift x n) = int128_val x div 2 ^ n \<and>
    int128_val (Int128_Xor x y) = int128_val x XOR int128_val y \<and>
    int128_val (Int128_BinaryAnd x y) = int128_val x AND int128_val y \<and>
    int128_val (Int128_BinaryOr x y) = int128_val x OR int128_val y \<and>
    int128_val (Int128_BinaryNot x) = NOT (int128_val x)"
  using assms by (simp add: Int128_LeftShift_val Int128_RightShift_val int128_val_bitwise)

theorem int128_shifts_witness:
  "int128_val (Int128_RightShift (int128 0 (- 1)) 65) = - 1 \<and> int128_val (Int128_LeftShift (int128 3 0) 70) = 3 * 2 ^ 70"
  using int128_shifts [of 65 "int128 0 (- 1)"] int128_shifts [of 70 "int128 3 0"]
  by (simp add: int128_val_def signed_take_bit_int_eq_self)

text \<open>(C19) Casts to the integer types of at most 64 bits succeed exactly on the values of the type and keep the
  value; a negative value of magnitude at most 2^64 cast to an unsigned type throws.\<close>

theorem int128_casts:
  "tryCast_int8 x = Inr (if - (2 ^ 7) \<le> int128_val x \<and> int128_val x < 2 ^ 7 then Some (int128_val x) else None) \<and>
   tryCast_int16 x = Inr (if - (2 ^ 15) \<le> int128_val x \<and> int128_val x < 2 ^ 15 then Some (int128_val x) else None) \<and>
   tryCast_int32 x = Inr (if - (2 ^ 31) \<le> int128_val x \<and> int128_val x < 2 ^ 31 then Some (int128_val x) else None) \<and>
   tryCast_int64 x = Inr (if - (2 ^ 63) \<le> int128_val x \<and> int128_val x < 2 ^ 63 then Some (int128_val x) else None) \<and>
   (\<forall>(cast, n) \<in> {(tryCast_uint8, 8), (tryCast_uint16, 16), (tryCast_uint32, 32), (tryCast_uint64, 64 :: nat)}.
      cast x =
        (if - (2 ^ 64) \<le> int128_val x \<and> int128_val x < 0
         then Inl (OverflowException (''Cast failed. Cannot cast '' @ decimal_int (int128_val x) @ '' to unsigned type.''))
         else Inr (if 0 \<le> int128_val x \<and> int128_val x < 2 ^ n then Some (int128_val x) else None)))"
  by (simp add: tryCast_int8_def tryCast_int16_def tryCast_int32_def tryCast_int64_def tryCast_uint8_def
      tryCast_uint16_def tryCast_uint32_def tryCast_uint64_def TryCastInt128Template_signed
      TryCastInt128Template_unsigned)

theorem int128_casts_witness:
  "tryCast_uint8 (int128 255 0) = Inr (Some 255) \<and> tryCast_uint8 (int128 256 0) = Inr None \<and>
   tryCast_int8 (int128 (- 128) (- 1)) = Inr (Some (- 128))"
  using int128_casts [of "int128 255 0"] int128_casts [of "int128 256 0"] int128_casts [of "int128 (- 128) (- 1)"]
  by (simp add: int128_val_def)

text \<open>The two tables of powers of ten, one computed by multiplication and one written out, hold the powers of
  ten up to the largest that fits, 10^38.\<close>

theorem powers_of_ten:
  "powerOf10 = map (\<lambda>i. Inr (int128_of (10 ^ i))) [0..<39] \<and>
   map int128_val pow10Sequence = map (\<lambda>i. 10 ^ i) [0..<39]"
  by (simp only: powerOf10_val pow10Sequence_val)

end
