(* ===== verification/Checked_Arithmetic.thy ===== *)
theory Checked_Arithmetic
  imports Int128_Bits
begin

text \<open>
  Integer arithmetic with overflow checks: \<^verbatim>\<open>src/src/function/arithmetic/\<close>. The C++ code overloads every
  operation on the fixed-width types; here the type is an argument, and each overload is one equation. A value
  of a fixed-width type is an integer in the range of the type; \<open>wrap t\<close> is the conversion of an
  integer to the type. Where the code has a branch for compilers without overflow intrinsics, both
  branches are modelled and compared.
\<close>

unbundle bit_operations_syntax

datatype int_type = UINT8 | UINT16 | UINT32 | UINT64 | INT8 | INT16 | INT32 | INT64

fun NumericLimits_minimum :: "int_type \<Rightarrow> int" where
  "NumericLimits_minimum INT8 = - (2 ^ 7)"
| "NumericLimits_minimum INT16 = - (2 ^ 15)"
| "NumericLimits_minimum INT32 = - (2 ^ 31)"
| "NumericLimits_minimum INT64 = - (2 ^ 63)"
| "NumericLimits_minimum _ = 0"

fun NumericLimits_maximum :: "int_type \<Rightarrow> int" where
  "NumericLimits_maximum UINT8 = 2 ^ 8 - 1"
| "NumericLimits_maximum UINT16 = 2 ^ 16 - 1"
| "NumericLimits_maximum UINT32 = 2 ^ 32 - 1"
| "NumericLimits_maximum UINT64 = 2 ^ 64 - 1"
| "NumericLimits_maximum INT8 = 2 ^ 7 - 1"
| "NumericLimits_maximum INT16 = 2 ^ 15 - 1"
| "NumericLimits_maximum INT32 = 2 ^ 31 - 1"
| "NumericLimits_maximum INT64 = 2 ^ 63 - 1"

fun wrap :: "int_type \<Rightarrow> int \<Rightarrow> int" where
  "wrap UINT8 v = take_bit 8 v"
| "wrap UINT16 v = take_bit 16 v"
| "wrap UINT32 v = take_bit 32 v"
| "wrap UINT64 v = take_bit 64 v"
| "wrap INT8 v = signed_take_bit 7 v"
| "wrap INT16 v = signed_take_bit 15 v"
| "wrap INT32 v = signed_take_bit 31 v"
| "wrap INT64 v = signed_take_bit 63 v"

fun is_unsigned :: "int_type \<Rightarrow> bool" where
  "is_unsigned UINT8 = True"
| "is_unsigned UINT16 = True"
| "is_unsigned UINT32 = True"
| "is_unsigned UINT64 = True"
| "is_unsigned _ = False"

fun type_name :: "int_type \<Rightarrow> string" where
  "type_name UINT8 = ''UINT8''"
| "type_name UINT16 = ''UINT16''"
| "type_name UINT32 = ''UINT32''"
| "type_name UINT64 = ''UINT64''"
| "type_name INT8 = ''INT8''"
| "type_name INT16 = ''INT16''"
| "type_name INT32 = ''INT32''"
| "type_name INT64 = ''INT64''"

definition out_of_range :: "int_type \<Rightarrow> string \<Rightarrow> int \<Rightarrow> int \<Rightarrow> kuzu_error" where
  "out_of_range t op left right =
     OverflowException (''Value '' @ decimal_int left @ op @ decimal_int right @ '' is not within '' @
       type_name t @ '' range.'')"

text \<open>The compiler intrinsics on \<^verbatim>\<open>int64_t\<close>: \<open>None\<close> when the exact result does not fit.\<close>

definition builtin_overflow :: "int \<Rightarrow> int option" where
  "builtin_overflow exact =
     (if NumericLimits_minimum INT64 \<le> exact \<and> exact \<le> NumericLimits_maximum INT64 then Some exact else None)"

subsection \<open>Addition\<close>

definition addInPlaceWithOverflowCheck :: "int_type \<Rightarrow> int_type \<Rightarrow> int \<Rightarrow> int \<Rightarrow> int option" where
  "addInPlaceWithOverflowCheck SRC DST left right =
     (let uresult = wrap DST (wrap DST left + wrap DST right)
      in if uresult < NumericLimits_minimum SRC \<or> uresult > NumericLimits_maximum SRC then None
         else Some (wrap SRC uresult))"

definition AddInPlace_int64_portable :: "int \<Rightarrow> int \<Rightarrow> int option" where
  "AddInPlace_int64_portable left right =
     (let tmp = wrap INT64 (wrap UINT64 (wrap UINT64 left + wrap UINT64 right))
      in if (left < 0 \<and> right < 0 \<and> tmp \<ge> 0) \<or> (left \<ge> 0 \<and> right \<ge> 0 \<and> tmp < 0) then None
         else Some tmp)"

fun AddInPlace :: "int_type \<Rightarrow> int \<Rightarrow> int \<Rightarrow> int option" where
  "AddInPlace UINT8 left right = addInPlaceWithOverflowCheck UINT8 UINT16 left right"
| "AddInPlace UINT16 left right = addInPlaceWithOverflowCheck UINT16 UINT32 left right"
| "AddInPlace UINT32 left right = addInPlaceWithOverflowCheck UINT32 UINT64 left right"
| "AddInPlace UINT64 left right =
     (if NumericLimits_maximum UINT64 - left < right then None
      else addInPlaceWithOverflowCheck UINT64 UINT64 left right)"
| "AddInPlace INT8 left right = addInPlaceWithOverflowCheck INT8 INT16 left right"
| "AddInPlace INT16 left right = addInPlaceWithOverflowCheck INT16 INT32 left right"
| "AddInPlace INT32 left right = addInPlaceWithOverflowCheck INT32 INT64 left right"
| "AddInPlace INT64 left right = builtin_overflow (left + right)"

definition Add_operation :: "int_type \<Rightarrow> int \<Rightarrow> int \<Rightarrow> int result" where
  "Add_operation t left right =
     (case AddInPlace t left right of
        None \<Rightarrow> Inl (out_of_range t '' + '' left right)
      | Some res \<Rightarrow> Inr res)"

subsection \<open>Subtraction\<close>

definition SubtractInPlaceWithOverflowCheck :: "int_type \<Rightarrow> int_type \<Rightarrow> int \<Rightarrow> int \<Rightarrow> int option" where
  "SubtractInPlaceWithOverflowCheck SRC DST left right =
     (let uresult = wrap DST (wrap DST left - wrap DST right)
      in if uresult < NumericLimits_minimum SRC \<or> uresult > NumericLimits_maximum SRC then None
         else Some (wrap SRC uresult))"

definition SubtractInPlace_int64_portable :: "int \<Rightarrow> int \<Rightarrow> int option" where
  "SubtractInPlace_int64_portable left right =
     (if (if right < 0 then NumericLimits_maximum INT64 + right < left
          else NumericLimits_minimum INT64 + right > left)
      then None else Some (wrap INT64 (left - right)))"

fun SubtractInPlace :: "int_type \<Rightarrow> int \<Rightarrow> int \<Rightarrow> int option" where
  "SubtractInPlace UINT8 left right =
     (if right > left then None else SubtractInPlaceWithOverflowCheck UINT8 UINT16 left right)"
| "SubtractInPlace UINT16 left right =
     (if right > left then None else SubtractInPlaceWithOverflowCheck UINT16 UINT32 left right)"
| "SubtractInPlace UINT32 left right =
     (if right > left then None else SubtractInPlaceWithOverflowCheck UINT32 UINT64 left right)"
| "SubtractInPlace UINT64 left right =
     (if right > left then None else SubtractInPlaceWithOverflowCheck UINT64 UINT64 left right)"
| "SubtractInPlace INT8 left right = SubtractInPlaceWithOverflowCheck INT8 INT16 left right"
| "SubtractInPlace INT16 left right = SubtractInPlaceWithOverflowCheck INT16 INT32 left right"
| "SubtractInPlace INT32 left right = SubtractInPlaceWithOverflowCheck INT32 INT64 left right"
| "SubtractInPlace INT64 left right = builtin_overflow (left - right)"

definition Subtract_operation :: "int_type \<Rightarrow> int \<Rightarrow> int \<Rightarrow> int result" where
  "Subtract_operation t left right =
     (case SubtractInPlace t left right of
        None \<Rightarrow> Inl (out_of_range t '' - '' left right)
      | Some res \<Rightarrow> Inr res)"

subsection \<open>Multiplication\<close>

definition tryMultiplyWithOverflowCheck :: "int_type \<Rightarrow> int_type \<Rightarrow> int \<Rightarrow> int \<Rightarrow> int option" where
  "tryMultiplyWithOverflowCheck SRC DST left right =
     (let uresult = wrap DST (wrap DST left * wrap DST right)
      in if uresult < NumericLimits_minimum SRC \<or> uresult > NumericLimits_maximum SRC then None
         else Some (wrap SRC uresult))"

text \<open>The 64-bit unsigned product takes its operands by reference and exchanges them, so that the first is the
  smaller: the operands it leaves are part of the result.\<close>

definition TryMultiply_uint64 :: "int \<Rightarrow> int \<Rightarrow> int option \<times> int \<times> int" where
  "TryMultiply_uint64 left right =
     (let (left, right) = (if left > right then (right, left) else (left, right)) in
      if left > NumericLimits_maximum UINT32 then (None, left, right)
      else
        let c = wrap UINT32 (drop_bit 32 right);
            d = wrap UINT32 (NumericLimits_maximum UINT32 AND right);
            r = wrap UINT64 (left * c);
            s = wrap UINT64 (left * d)
        in if r > NumericLimits_maximum UINT32 then (None, left, right)
           else
             let r = wrap UINT64 (push_bit 32 r)
             in if NumericLimits_maximum UINT64 - s < r then (None, left, right)
                else (tryMultiplyWithOverflowCheck UINT64 UINT64 left right, left, right))"

definition TryMultiply_int64_portable :: "int \<Rightarrow> int \<Rightarrow> int option" where
  "TryMultiply_int64_portable left right =
     (if left = NumericLimits_minimum INT64 then
        if right = 0 then Some 0 else if right = 1 then Some left else None
      else if right = NumericLimits_minimum INT64 then
        if left = 0 then Some 0 else if left = 1 then Some right else None
      else
        let left_high_bits = drop_bit 32 \<bar>left\<bar>; left_low_bits = \<bar>left\<bar> AND 0xffffffff;
            right_high_bits = drop_bit 32 \<bar>right\<bar>; right_low_bits = \<bar>right\<bar> AND 0xffffffff;
            low_low = wrap UINT64 (left_low_bits * right_low_bits);
            overflow =
              (if left_high_bits = 0 then
                 right_high_bits \<noteq> 0 \<and>
                 wrap UINT64 (wrap UINT64 (left_low_bits * right_high_bits) + drop_bit 32 low_low)
                   AND 0xffffff80000000 \<noteq> 0
               else if right_high_bits = 0 then
                 wrap UINT64 (wrap UINT64 (left_high_bits * right_low_bits) + drop_bit 32 low_low)
                   AND 0xffffff80000000 \<noteq> 0
               else True)
        in if overflow then None else Some (wrap INT64 (left * right)))"

text \<open>The result of the product and the operands it leaves.\<close>

fun TryMultiply :: "int_type \<Rightarrow> int \<Rightarrow> int \<Rightarrow> int option \<times> int \<times> int" where
  "TryMultiply UINT8 left right = (tryMultiplyWithOverflowCheck UINT8 UINT16 left right, left, right)"
| "TryMultiply UINT16 left right = (tryMultiplyWithOverflowCheck UINT16 UINT32 left right, left, right)"
| "TryMultiply UINT32 left right = (tryMultiplyWithOverflowCheck UINT32 UINT64 left right, left, right)"
| "TryMultiply UINT64 left right = TryMultiply_uint64 left right"
| "TryMultiply INT8 left right = (tryMultiplyWithOverflowCheck INT8 INT16 left right, left, right)"
| "TryMultiply INT16 left right = (tryMultiplyWithOverflowCheck INT16 INT32 left right, left, right)"
| "TryMultiply INT32 left right = (tryMultiplyWithOverflowCheck INT32 INT64 left right, left, right)"
| "TryMultiply INT64 left right = (builtin_overflow (left * right), left, right)"

definition Multiply_operation :: "int_type \<Rightarrow> int \<Rightarrow> int \<Rightarrow> (int \<times> int \<times> int) result" where
  "Multiply_operation t left right =
     (case TryMultiply t left right of
        (None, left, right) \<Rightarrow> Inl (out_of_range t '' * '' left right)
      | (Some res, left, right) \<Rightarrow> Inr (res, left, right))"

subsection \<open>Division and remainder\<close>

definition tryDivideWithOverflowCheck :: "int_type \<Rightarrow> int_type \<Rightarrow> int \<Rightarrow> int \<Rightarrow> int option" where
  "tryDivideWithOverflowCheck SRC DST left right =
     (let uresult = wrap DST (wrap DST left sdiv wrap DST right)
      in if uresult < NumericLimits_minimum SRC \<or> uresult > NumericLimits_maximum SRC then None
         else Some (wrap SRC uresult))"

fun TryDivide :: "int_type \<Rightarrow> int \<Rightarrow> int \<Rightarrow> int option" where
  "TryDivide UINT8 left right = tryDivideWithOverflowCheck UINT8 UINT16 left right"
| "TryDivide UINT16 left right = tryDivideWithOverflowCheck UINT16 UINT32 left right"
| "TryDivide UINT32 left right = tryDivideWithOverflowCheck UINT32 UINT64 left right"
| "TryDivide UINT64 left right = tryDivideWithOverflowCheck UINT64 UINT64 left right"
| "TryDivide INT8 left right = tryDivideWithOverflowCheck INT8 INT16 left right"
| "TryDivide INT16 left right = tryDivideWithOverflowCheck INT16 INT32 left right"
| "TryDivide INT32 left right = tryDivideWithOverflowCheck INT32 INT64 left right"
| "TryDivide INT64 left right =
     (if left = NumericLimits_minimum INT64 \<and> right = -1 then None
      else tryDivideWithOverflowCheck INT64 INT64 left right)"

definition Divide_operation :: "int_type \<Rightarrow> int \<Rightarrow> int \<Rightarrow> int result" where
  "Divide_operation t left right =
     (if right = 0 then Inl (RuntimeException ''Divide by zero.'')
      else case TryDivide t left right of
             None \<Rightarrow> Inl (out_of_range t '' / '' left right)
           | Some res \<Rightarrow> Inr res)"

definition tryModuloWithOverflowCheck :: "int_type \<Rightarrow> int_type \<Rightarrow> int \<Rightarrow> int \<Rightarrow> int option" where
  "tryModuloWithOverflowCheck SRC DST left right =
     (if left = NumericLimits_minimum SRC \<and> right = -1 then None
      else Some (wrap SRC (wrap DST (wrap DST left smod wrap DST right))))"

text \<open>Only the signed types have a \<open>TryModulo\<close>.\<close>

fun TryModulo :: "int_type \<Rightarrow> int \<Rightarrow> int \<Rightarrow> int option" where
  "TryModulo INT8 left right = tryModuloWithOverflowCheck INT8 INT16 left right"
| "TryModulo INT16 left right = tryModuloWithOverflowCheck INT16 INT32 left right"
| "TryModulo INT32 left right = tryModuloWithOverflowCheck INT32 INT64 left right"
| "TryModulo INT64 left right =
     (if left = NumericLimits_minimum INT64 \<and> right = -1 then None
      else tryModuloWithOverflowCheck INT64 INT64 left right)"

definition Modulo_operation :: "int_type \<Rightarrow> int \<Rightarrow> int \<Rightarrow> int result" where
  "Modulo_operation t left right =
     (if right = 0 then Inl (RuntimeException ''Modulo by zero.'')
      else if is_unsigned t then Inr (wrap t (left smod right))
      else case TryModulo t left right of
             None \<Rightarrow> Inl (out_of_range t '' % '' left right)
           | Some res \<Rightarrow> Inr res)"

definition Modulo_int128 :: "int128_t \<Rightarrow> int128_t \<Rightarrow> int128_t result" where
  "Modulo_int128 left right = Int128_Mod left right"

subsection \<open>Negation and absolute value\<close>

text \<open>The signed types have overloads that check; the unsigned types use the templates of the headers, whose negation wraps.\<close>

definition Negate_template :: "int_type \<Rightarrow> int \<Rightarrow> int" where
  "Negate_template T input = wrap T (- input)"

definition Abs_template :: "int_type \<Rightarrow> int \<Rightarrow> int" where
  "Abs_template T input = (if is_unsigned T then input else wrap T \<bar>input\<bar>)"

definition NegateInPlaceWithOverflowCheck :: "int_type \<Rightarrow> int \<Rightarrow> int option" where
  "NegateInPlaceWithOverflowCheck SRC input =
     (if input = NumericLimits_minimum SRC then None else Some (wrap SRC (- input)))"

definition Negate_operation :: "int_type \<Rightarrow> int \<Rightarrow> int result" where
  "Negate_operation t input =
     (if is_unsigned t then Inr (Negate_template t input)
      else case NegateInPlaceWithOverflowCheck t input of
        None \<Rightarrow> Inl (OverflowException (''Value '' @ decimal_int input @
                       '' cannot be negated within '' @ type_name t @ '' range.''))
      | Some res \<Rightarrow> Inr res)"

definition AbsInPlaceWithOverflowCheck :: "int_type \<Rightarrow> int \<Rightarrow> int option" where
  "AbsInPlaceWithOverflowCheck SRC input =
     (if input = NumericLimits_minimum SRC then None else Some (wrap SRC \<bar>input\<bar>))"

definition Abs_operation :: "int_type \<Rightarrow> int \<Rightarrow> int result" where
  "Abs_operation t input =
     (if is_unsigned t then Inr (Abs_template t input)
      else case AbsInPlaceWithOverflowCheck t input of
        None \<Rightarrow> Inl (OverflowException (''Cannot take the absolute value of '' @ decimal_int input @
                       '' within '' @ type_name t @ '' range.''))
      | Some res \<Rightarrow> Inr res)"

definition Negate_int128 :: "int128_t \<Rightarrow> int128_t result" where
  "Negate_int128 input = negateInPlace input"

definition Abs_int128 :: "int128_t \<Rightarrow> int128_t result" where
  "Abs_int128 input =
     (if Int128_lessThan input (tryCastToTemplate 0) then negateInPlace input else Inr input)"

subsection \<open>Other integer functions\<close>

text \<open>The loop of \<^verbatim>\<open>Factorial\<close>, with its counter.\<close>

function Factorial_loop :: "int \<Rightarrow> int \<Rightarrow> int \<Rightarrow> int" where
  "Factorial_loop i input res =
     (if i \<le> input then Factorial_loop (i + 1) input (wrap INT64 (res * i)) else res)"
  by pat_completeness auto

termination Factorial_loop
  by (relation "measure (\<lambda>(i, input, _). nat (input + 1 - i))") auto

declare Factorial_loop.simps [simp del]

definition Factorial_operation :: "int \<Rightarrow> int" where
  "Factorial_operation input = Factorial_loop 2 input 1"

definition Sign_operation :: "int \<Rightarrow> int" where
  "Sign_operation input = of_bool (input > 0) - of_bool (input < 0)"

definition BitwiseXor_operation :: "int \<Rightarrow> int \<Rightarrow> int" where
  "BitwiseXor_operation left right = left XOR right"

definition BitwiseAnd_operation :: "int \<Rightarrow> int \<Rightarrow> int" where
  "BitwiseAnd_operation left right = left AND right"

definition BitwiseOr_operation :: "int \<Rightarrow> int \<Rightarrow> int" where
  "BitwiseOr_operation left right = left OR right"

subsection \<open>Facts on the ranges\<close>

definition in_range :: "int_type \<Rightarrow> int \<Rightarrow> bool" where
  "in_range t v \<longleftrightarrow> NumericLimits_minimum t \<le> v \<and> v \<le> NumericLimits_maximum t"

lemma wrap_id: "in_range t v \<Longrightarrow> wrap t v = v"
  by (cases t) (simp_all add: in_range_def take_bit_int_eq_self signed_take_bit_int_eq_self)

lemma in_range_wrap: "in_range t (wrap t v)"
  using take_bit_int_less_exp [of 8 v] take_bit_int_less_exp [of 16 v] take_bit_int_less_exp [of 32 v]
    take_bit_int_less_exp [of 64 v]
    signed_take_bit_int_less_exp [of 7 v] signed_take_bit_int_greater_eq_minus_exp [of 7 v]
    signed_take_bit_int_less_exp [of 15 v] signed_take_bit_int_greater_eq_minus_exp [of 15 v]
    signed_take_bit_int_less_exp [of 31 v] signed_take_bit_int_greater_eq_minus_exp [of 31 v]
    signed_take_bit_int_less_exp [of 63 v] signed_take_bit_int_greater_eq_minus_exp [of 63 v]
  by (cases t) (simp_all add: in_range_def)

text \<open>The wider type of a check: it holds every sum, difference, product and quotient of the narrow one.\<close>

fun wider :: "int_type \<Rightarrow> int_type" where
  "wider UINT8 = UINT16"
| "wider UINT16 = UINT32"
| "wider UINT32 = UINT64"
| "wider INT8 = INT16"
| "wider INT16 = INT32"
| "wider INT32 = INT64"
| "wider t = t"

lemma in_range_wider: "in_range t v \<Longrightarrow> in_range (wider t) v"
  by (cases t) (simp_all add: in_range_def)

lemma abs_mult_le: "\<bar>l\<bar> \<le> a \<Longrightarrow> \<bar>r\<bar> \<le> a \<Longrightarrow> \<bar>l * r\<bar> \<le> a * (a :: int)"
  unfolding abs_mult by (intro mult_mono) auto

lemma div_le_self: "0 \<le> a \<Longrightarrow> 0 \<le> b \<Longrightarrow> a div b \<le> (a :: int)"
  using zdiv_mono2 [of a 1 b] by (cases "b = 0") auto

lemma abs_sdiv_le: "\<bar>(l :: int) sdiv r\<bar> \<le> \<bar>l\<bar>"
  using div_le_self [of "\<bar>l\<bar>" "\<bar>r\<bar>"] div_int_pos_iff [of "\<bar>l\<bar>" "\<bar>r\<bar>"]
  by (auto simp: signed_divide_int_def abs_mult sgn_if)

lemma abs_smod_le: "\<bar>(l :: int) smod r\<bar> \<le> \<bar>l\<bar>"
  using zmod_le_nonneg_dividend [of "\<bar>l\<bar>" "\<bar>r\<bar>"] mod_int_pos_iff [of "\<bar>l\<bar>" "\<bar>r\<bar>"]
  by (auto simp: signed_modulo_int_def abs_mult sgn_if)

lemma smod_nonneg: "0 \<le> l \<Longrightarrow> 0 \<le> (l :: int) smod r"
  using mod_int_pos_iff [of "\<bar>l\<bar>" "\<bar>r\<bar>"] by (auto simp: signed_modulo_int_def sgn_if)

subsection \<open>Every operation is exact or reports the overflow\<close>

lemma add_check:
  assumes "in_range d l" "in_range d r" "in_range d (l + r)"
  shows "addInPlaceWithOverflowCheck t d l r = (if in_range t (l + r) then Some (l + r) else None)"
  using assms wrap_id [of t "l + r"] by (auto simp: addInPlaceWithOverflowCheck_def wrap_id in_range_def)

lemma AddInPlace_exact:
  assumes "in_range t l" "in_range t r"
  shows "AddInPlace t l r = (if in_range t (l + r) then Some (l + r) else None)"
proof -
  have "t \<noteq> UINT64 \<Longrightarrow> t \<noteq> INT64 \<Longrightarrow> in_range (wider t) (l + r)"
    using assms by (cases t) (auto simp: in_range_def)
  then have checked: "t \<noteq> UINT64 \<Longrightarrow> t \<noteq> INT64 \<Longrightarrow> addInPlaceWithOverflowCheck t (wider t) l r =
      (if in_range t (l + r) then Some (l + r) else None)"
    using assms by (blast intro: add_check in_range_wider)
  show ?thesis
  proof (cases t)
    case UINT64
    then show ?thesis using assms add_check [of UINT64 l r UINT64] by (auto simp: in_range_def)
  qed (use checked in \<open>simp_all add: builtin_overflow_def in_range_def\<close>)
qed

lemma sub_check:
  assumes "in_range d l" "in_range d r" "in_range d (l - r)"
  shows "SubtractInPlaceWithOverflowCheck t d l r = (if in_range t (l - r) then Some (l - r) else None)"
  using assms wrap_id [of t "l - r"] by (auto simp: SubtractInPlaceWithOverflowCheck_def wrap_id in_range_def)

lemma SubtractInPlace_exact:
  assumes "in_range t l" "in_range t r"
  shows "SubtractInPlace t l r = (if in_range t (l - r) then Some (l - r) else None)"
proof -
  have "is_unsigned t \<longrightarrow> r \<le> l \<Longrightarrow> t \<noteq> INT64 \<Longrightarrow> in_range (wider t) (l - r)"
    using assms by (cases t) (auto simp: in_range_def)
  then have checked: "is_unsigned t \<longrightarrow> r \<le> l \<Longrightarrow> t \<noteq> INT64 \<Longrightarrow>
      SubtractInPlaceWithOverflowCheck t (wider t) l r = (if in_range t (l - r) then Some (l - r) else None)"
    using assms by (blast intro: sub_check in_range_wider)
  show ?thesis
    by (cases t) (use checked in \<open>auto simp: builtin_overflow_def in_range_def\<close>)
qed

lemma mul_check:
  assumes "in_range d l" "in_range d r" "in_range d (l * r)"
  shows "tryMultiplyWithOverflowCheck t d l r = (if in_range t (l * r) then Some (l * r) else None)"
  using assms wrap_id [of t "l * r"] by (auto simp: tryMultiplyWithOverflowCheck_def wrap_id in_range_def)

lemma mul_in_wider:
  assumes "in_range t l" "in_range t r" "t \<noteq> UINT64" "t \<noteq> INT64"
  shows "in_range (wider t) (l * r)"
  using assms abs_mult_le [of l "2 ^ 7" r] abs_mult_le [of l "2 ^ 15" r] abs_mult_le [of l "2 ^ 31" r]
    abs_mult_le [of l "2 ^ 8 - 1" r] abs_mult_le [of l "2 ^ 16 - 1" r] abs_mult_le [of l "2 ^ 32 - 1" r]
    mult_nonneg_nonneg [of l r]
  by (cases t) (simp_all add: in_range_def abs_le_iff)

text \<open>The product of a 32-bit and a 64-bit number, the latter split in two halves.\<close>

lemma split_product:
  fixes l c d B :: int
  assumes "0 \<le> l" "l < B" "0 \<le> c" "0 \<le> d" "d < B"
  shows "l * (c * B + d) \<le> B * B - 1 \<longleftrightarrow> l * c \<le> B - 1 \<and> B * B - 1 - l * d \<ge> l * c * B"
proof (cases "l * c \<le> B - 1")
  case False
  then have "B * B \<le> l * c * B" using assms by (intro mult_right_mono) auto
  moreover have "0 \<le> l * d" using assms by simp
  ultimately have "B * B \<le> l * (c * B + d)" by (simp add: algebra_simps)
  then show ?thesis using False by simp
qed (auto simp: algebra_simps)

lemma large_product:
  fixes l r B :: int
  assumes "0 \<le> B" "B \<le> l" "B \<le> r"
  shows "B * B \<le> l * r"
  using assms by (intro mult_mono) auto

lemma low_half: "2 ^ 32 - 1 AND r = (r :: int) mod 2 ^ 32"
  by (simp only: take_bit_eq_mod [symmetric] take_bit_eq_mask mask_eq_exp_minus_1 and.commute)

lemma uint64_product_bounds:
  fixes l c :: int
  assumes "0 \<le> l" "l < 2 ^ 32" "0 \<le> c" "c < 2 ^ 32"
  shows "in_range UINT64 (l * c)"
  using assms mul_in_wider [of UINT32 l c] by (simp add: in_range_def)

lemma TryMultiply_uint64_exact:
  assumes "in_range UINT64 l" "in_range UINT64 r"
  shows "TryMultiply_uint64 l r =
    (if in_range UINT64 (l * r) then Some (l * r) else None, min l r, max l r)"
proof -
  define a b where "a = min l r" and "b = max l r"
  have ab: "in_range UINT64 a" "in_range UINT64 b" "a \<le> b" "a * b = l * r"
    using assms by (auto simp: a_def b_def min_def max_def)
  then have pos: "0 \<le> a" "0 \<le> b" "b < 2 ^ 64" by (auto simp: in_range_def)
  have nonneg: "0 \<le> l * r" using assms by (simp add: in_range_def)
  have swap: "(if l > r then (r, l) else (l, r)) = (a, b)" by (auto simp: a_def b_def)
  define c d where "c = b div 2 ^ 32" and "d = b mod 2 ^ 32"
  have cd: "0 \<le> c" "c < 2 ^ 32" "0 \<le> d" "d < 2 ^ 32" and b: "b = c * 2 ^ 32 + d"
    using pos by (auto simp: c_def d_def)
  have wc: "wrap UINT32 (drop_bit 32 b) = c" "wrap UINT32 (NumericLimits_maximum UINT32 AND b) = d"
    using cd low_half [of b] wrap_id [of UINT32 c] wrap_id [of UINT32 d]
    by (auto simp: c_def d_def drop_bit_eq_div in_range_def)
  show ?thesis
  proof (cases "a < 2 ^ 32")
    case True
    have ws: "wrap UINT64 (a * c) = a * c" "wrap UINT64 (a * d) = a * d"
      using True pos(1) cd by (blast intro: wrap_id uint64_product_bounds)+
    have ok: "in_range UINT64 (l * r) \<longleftrightarrow>
        a * c \<le> 2 ^ 32 - 1 \<and> \<not> 2 ^ 64 - 1 - a * d < a * c * 2 ^ 32"
      using split_product [of a "2 ^ 32" c d] True pos nonneg cd ab(4) b by (auto simp: in_range_def)
    have wr: "wrap UINT64 (push_bit 32 (a * c)) = a * c * 2 ^ 32" if "a * c \<le> 2 ^ 32 - 1"
      using that pos cd by (subst wrap_id) (auto simp: in_range_def push_bit_eq_mult)
    show ?thesis
      unfolding TryMultiply_uint64_def swap Let_def prod.case wc ws
      using ok wr True mul_check [of UINT64 a b UINT64] ab
      by (auto simp: a_def [symmetric] b_def [symmetric])
  next
    case False
    then have "2 ^ 32 * 2 ^ 32 \<le> a * b" using ab(3) by (intro large_product) auto
    then show ?thesis
      unfolding TryMultiply_uint64_def swap Let_def prod.case
      using False ab(4) by (auto simp: in_range_def a_def [symmetric] b_def [symmetric])
  qed
qed

lemma TryMultiply_exact:
  assumes "in_range t l" "in_range t r"
  shows "TryMultiply t l r =
    (if in_range t (l * r) then Some (l * r) else None,
     if t = UINT64 then (min l r, max l r) else (l, r))"
proof -
  have checked: "t \<noteq> UINT64 \<Longrightarrow> t \<noteq> INT64 \<Longrightarrow> tryMultiplyWithOverflowCheck t (wider t) l r =
      (if in_range t (l * r) then Some (l * r) else None)"
    using assms mul_in_wider by (blast intro: mul_check in_range_wider)
  show ?thesis
    by (cases t)
       (use checked assms in \<open>auto simp: builtin_overflow_def in_range_def TryMultiply_uint64_exact\<close>)
qed

lemma div_check:
  assumes "in_range d l" "in_range d r" "in_range d (l sdiv r)"
  shows "tryDivideWithOverflowCheck t d l r = (if in_range t (l sdiv r) then Some (l sdiv r) else None)"
  using assms wrap_id [of t "l sdiv r"] by (auto simp: tryDivideWithOverflowCheck_def wrap_id in_range_def)

lemma sdiv_nonneg: "0 \<le> l \<Longrightarrow> 0 \<le> r \<Longrightarrow> 0 \<le> (l :: int) sdiv r"
  using div_int_pos_iff [of l r] by (auto simp: signed_divide_int_def sgn_if)

lemma sdiv_in_wider:
  assumes "in_range t l" "in_range t r" "t \<noteq> INT64"
  shows "in_range (wider t) (l sdiv r)"
  using assms abs_sdiv_le [of l r] sdiv_nonneg [of l r]
  by (cases t) (auto simp: in_range_def)

lemma int64_sdiv:
  assumes "in_range INT64 l" "r \<noteq> 0"
  shows "in_range INT64 (l sdiv r) \<longleftrightarrow> \<not> (l = NumericLimits_minimum INT64 \<and> r = -1)"
proof (cases "l = NumericLimits_minimum INT64")
  case True
  show ?thesis
  proof (cases "\<bar>r\<bar> = 1")
    case False
    then have "\<bar>r\<bar> \<ge> 2" using assms(2) by linarith
    then have "\<bar>l\<bar> div \<bar>r\<bar> \<le> \<bar>l\<bar> div 2" by (intro zdiv_mono2) auto
    moreover have "0 \<le> \<bar>l\<bar> div \<bar>r\<bar>" using assms(2) by (simp add: div_int_pos_iff)
    ultimately have "\<bar>l sdiv r\<bar> \<le> \<bar>l\<bar> div 2" by (auto simp: signed_divide_int_def abs_mult sgn_if)
    then show ?thesis using True False by (auto simp: in_range_def)
  qed (use True in \<open>auto simp: signed_divide_int_def in_range_def abs_if split: if_splits\<close>)
next
  case False
  then show ?thesis using assms abs_sdiv_le [of l r] by (auto simp: in_range_def)
qed

lemma TryDivide_exact:
  assumes "in_range t l" "in_range t r" "r \<noteq> 0"
  shows "TryDivide t l r = (if in_range t (l sdiv r) then Some (l sdiv r) else None)"
proof -
  have checked: "t \<noteq> INT64 \<Longrightarrow> tryDivideWithOverflowCheck t (wider t) l r =
      (if in_range t (l sdiv r) then Some (l sdiv r) else None)"
    using assms sdiv_in_wider by (blast intro: div_check in_range_wider)
  show ?thesis
  proof (cases t)
    case INT64
    then show ?thesis using assms int64_sdiv [of l r] div_check [of INT64 l r INT64] by auto
  qed (use checked in simp_all)
qed

lemma smod_nonpos: "l \<le> 0 \<Longrightarrow> (l :: int) smod r \<le> 0"
  using mod_int_pos_iff [of "\<bar>l\<bar>" "\<bar>r\<bar>"] by (auto simp: signed_modulo_int_def sgn_if)

lemma in_range_smod: "in_range t l \<Longrightarrow> in_range t (l smod r)"
  using abs_smod_le [of l r] smod_nonneg [of l r] smod_nonpos [of l r]
  by (cases "0 \<le> l"; cases t) (auto simp: in_range_def)

lemma mod_check:
  assumes "in_range d l" "in_range d r" "in_range t l"
  shows "tryModuloWithOverflowCheck t d l r =
    (if l = NumericLimits_minimum t \<and> r = -1 then None else Some (l smod r))"
  using assms wrap_id [OF in_range_smod [OF assms(1), of r]] wrap_id [OF in_range_smod [OF assms(3), of r]]
  by (simp add: tryModuloWithOverflowCheck_def wrap_id)

lemma Modulo_exact:
  assumes "in_range t l" "in_range t r" "r \<noteq> 0"
  shows "Modulo_operation t l r =
    (if l = NumericLimits_minimum t \<and> r = -1 then Inl (out_of_range t '' % '' l r) else Inr (l smod r))"
proof -
  have checked: "tryModuloWithOverflowCheck t (wider t) l r =
      (if l = NumericLimits_minimum t \<and> r = -1 then None else Some (l smod r))"
    using assms by (blast intro: mod_check in_range_wider)
  have exact: "wrap t (l smod r) = l smod r" by (rule wrap_id [OF in_range_smod [OF assms(1)]])
  show ?thesis
    using assms checked exact by (cases t) (auto simp: Modulo_operation_def in_range_def)
qed

lemma Negate_exact:
  assumes "in_range t v" "\<not> is_unsigned t"
  shows "NegateInPlaceWithOverflowCheck t v = (if in_range t (- v) then Some (- v) else None)"
    and "AbsInPlaceWithOverflowCheck t v = (if in_range t \<bar>v\<bar> then Some \<bar>v\<bar> else None)"
  using assms wrap_id [of t "- v"] wrap_id [of t "\<bar>v\<bar>"]
  by (cases t; auto simp: NegateInPlaceWithOverflowCheck_def AbsInPlaceWithOverflowCheck_def in_range_def)+

lemma Negate_unsigned:
  assumes "in_range t v" "is_unsigned t"
  shows "Negate_template t v = (if v = 0 then 0 else NumericLimits_maximum t + 1 - v)" "in_range t \<bar>v\<bar>" "\<bar>v\<bar> = v"
  using assms by (cases t; auto simp: Negate_template_def take_bit_eq_mod in_range_def zmod_zminus1_eq_if)+

text \<open>The branches without intrinsics. A sum of two 64-bit integers that leaves the range wraps by exactly
  one \<open>2 ^ 64\<close>, which changes its sign.\<close>

lemma wrap_int64_uint64: "wrap INT64 (wrap UINT64 v) = wrap INT64 v"
  by (simp add: signed_take_bit_take_bit)

lemma wrap_uint64_add: "wrap UINT64 (wrap UINT64 l + wrap UINT64 r) = wrap UINT64 (l + r)"
  by (simp add: take_bit_add)

lemma wrap_int64_shift: "wrap INT64 (v + 2 ^ 64) = wrap INT64 v" "wrap INT64 (v - 2 ^ 64) = wrap INT64 v"
proof -
  have "wrap UINT64 (v + 2 ^ 64) = wrap UINT64 v" for v
    by (simp only: wrap.simps take_bit_eq_mod mod_add_self2)
  then show up: "wrap INT64 (v + 2 ^ 64) = wrap INT64 v" for v by (metis wrap_int64_uint64)
  show "wrap INT64 (v - 2 ^ 64) = wrap INT64 v" using up [of "v - 2 ^ 64"] by simp
qed

lemma AddInPlace_int64_portable:
  assumes "in_range INT64 l" "in_range INT64 r"
  shows "AddInPlace_int64_portable l r = AddInPlace INT64 l r"
proof -
  have tmp: "AddInPlace_int64_portable l r =
      (let tmp = wrap INT64 (l + r)
       in if (l < 0 \<and> r < 0 \<and> tmp \<ge> 0) \<or> (l \<ge> 0 \<and> r \<ge> 0 \<and> tmp < 0) then None else Some tmp)"
    unfolding AddInPlace_int64_portable_def wrap_uint64_add wrap_int64_uint64 ..
  consider "in_range INT64 (l + r)" | "l + r > 2 ^ 63 - 1" | "l + r < - (2 ^ 63)"
    by (force simp: in_range_def)
  then show ?thesis
  proof cases
    case 1
    then show ?thesis using wrap_id [OF 1] unfolding tmp Let_def AddInPlace_exact [OF assms] by auto
  next
    case 2
    then have "wrap INT64 (l + r) = l + r - 2 ^ 64"
      using assms wrap_int64_shift(2) [of "l + r"] wrap_id [of INT64 "l + r - 2 ^ 64"] by (auto simp: in_range_def)
    then show ?thesis using 2 assms unfolding tmp Let_def AddInPlace_exact [OF assms] by (auto simp: in_range_def)
  next
    case 3
    then have "wrap INT64 (l + r) = l + r + 2 ^ 64"
      using assms wrap_int64_shift(1) [of "l + r"] wrap_id [of INT64 "l + r + 2 ^ 64"] by (auto simp: in_range_def)
    then show ?thesis using 3 assms unfolding tmp Let_def AddInPlace_exact [OF assms] by (auto simp: in_range_def)
  qed
qed

lemma SubtractInPlace_int64_portable:
  assumes "in_range INT64 l" "in_range INT64 r"
  shows "SubtractInPlace_int64_portable l r = SubtractInPlace INT64 l r"
  using assms wrap_id [of INT64 "l - r"] unfolding SubtractInPlace_exact [OF assms]
  by (auto simp: SubtractInPlace_int64_portable_def in_range_def)

lemma Factorial_loop_exact:
  "i + k \<le> 20 \<Longrightarrow> Factorial_loop (int (Suc i)) (int (i + k)) (fact i) = fact (i + k)"
proof (induction k arbitrary: i)
  case 0
  then show ?case by (subst Factorial_loop.simps) simp
next
  case (Suc k)
  have "fact (Suc i) \<le> (fact 20 :: int)" using Suc.prems by (intro fact_mono) auto
  also have "fact 20 = (2432902008176640000 :: int)" by (simp add: fact_numeral)
  finally have "wrap INT64 (fact (Suc i)) = fact (Suc i)"
    by (intro wrap_id) (auto simp: in_range_def simp del: fact_Suc intro: order_trans [OF _ fact_ge_zero])
  then have "wrap INT64 (fact i * int (Suc i)) = fact (Suc i)" by (simp add: mult.commute)
  then show ?case
    using Suc.IH [of "Suc i"] Suc.prems
    by (subst Factorial_loop.simps) (simp add: add.commute del: fact_Suc wrap.simps)
qed

subsection \<open>Properties\<close>

text \<open>(C21) Addition and subtraction of two values of a fixed-width integer type return the exact result
  whenever the type can hold it, and otherwise throw an overflow exception that names both operands and
  the type; they never wrap around.\<close>

theorem checked_add_subtract:
  assumes "in_range t l" "in_range t r"
  shows "(Add_operation t l r =
      (if in_range t (l + r) then Inr (l + r) else Inl (out_of_range t '' + '' l r))) \<and>
     (Subtract_operation t l r =
      (if in_range t (l - r) then Inr (l - r) else Inl (out_of_range t '' - '' l r)))"
  by (simp_all add: Add_operation_def Subtract_operation_def AddInPlace_exact [OF assms]
      SubtractInPlace_exact [OF assms])

theorem checked_add_subtract_witness:
  "Add_operation INT8 100 27 = Inr 127 \<and>
   Add_operation INT8 100 28 = Inl (OverflowException ''Value 100 + 28 is not within INT8 range.'') \<and>
   Subtract_operation UINT64 3 (2 ^ 64 - 1) = Inl (out_of_range UINT64 '' - '' 3 (2 ^ 64 - 1))"
  using checked_add_subtract [THEN conjunct1, of INT8 100 27] checked_add_subtract [THEN conjunct1, of INT8 100 28]
    checked_add_subtract [THEN conjunct2, of UINT64 3 "2 ^ 64 - 1"]
  by (simp add: in_range_def out_of_range_def decimal_int_def decimal.simps digit_char_def char_of_def bit_0)

text \<open>(C20) Multiplication returns the exact product whenever the type can hold it and throws otherwise,
  for every width: the 64-bit unsigned check on 32-bit halves rejects exactly the products of
  \<open>2 ^ 64\<close> and more. On that type the operation also leaves its operands ordered.\<close>

theorem checked_multiply:
  assumes "in_range t l" "in_range t r"
    and "(l', r') = (if t = UINT64 \<and> l > r then (r, l) else (l, r))"
  shows "Multiply_operation t l r =
    (if in_range t (l * r) then Inr (l * r, l', r') else Inl (out_of_range t '' * '' l' r'))"
  using assms(3) by (auto simp: Multiply_operation_def TryMultiply_exact [OF assms(1,2)] min_def max_def
      split: if_splits)

theorem checked_multiply_witness:
  "Multiply_operation UINT64 (2 ^ 33) (2 ^ 31 - 1) =
     Inr (2 ^ 33 * (2 ^ 31 - 1), 2 ^ 31 - 1, 2 ^ 33) \<and>
   Multiply_operation UINT64 (2 ^ 33) (2 ^ 31) = Inl (out_of_range UINT64 '' * '' (2 ^ 31) (2 ^ 33)) \<and>
   Multiply_operation INT16 (- 181) 181 = Inr (- 32761, - 181, 181)"
  using checked_multiply [of UINT64 "2 ^ 33" "2 ^ 31 - 1" "2 ^ 31 - 1" "2 ^ 33"]
    checked_multiply [of UINT64 "2 ^ 33" "2 ^ 31" "2 ^ 31" "2 ^ 33"]
    checked_multiply [of INT16 "- 181" 181 "- 181" 181]
  by (simp add: in_range_def)

text \<open>(C22) Division truncates towards zero, throws on a zero divisor and reports the one quotient that
  does not fit, the smallest value divided by -1. The remainder takes the sign of the dividend, throws
  on a zero divisor and reports that same pair although its remainder would be 0.\<close>

theorem checked_divide_modulo:
  assumes "in_range t l" "in_range t r"
  shows "(Divide_operation t l r =
      (if r = 0 then Inl (RuntimeException ''Divide by zero.'')
       else if in_range t (l sdiv r) then Inr (l sdiv r) else Inl (out_of_range t '' / '' l r))) \<and>
     (Modulo_operation t l r =
      (if r = 0 then Inl (RuntimeException ''Modulo by zero.'')
       else if l = NumericLimits_minimum t \<and> r = -1 then Inl (out_of_range t '' % '' l r)
       else Inr (l - r * (l sdiv r))))"
proof -
  have "l smod r = l - r * (l sdiv r)" using sdiv_mult_smod_eq [of l r] by (simp add: algebra_simps)
  then show ?thesis
    using TryDivide_exact [OF assms] Modulo_exact [OF assms]
    by (cases "r = 0") (simp_all add: Divide_operation_def Modulo_operation_def)
qed

theorem checked_divide_modulo_witness:
  "Divide_operation INT8 (- 7) 2 = Inr (- 3) \<and> Modulo_operation INT8 (- 7) 2 = Inr (- 1) \<and>
   Divide_operation INT8 (- 128) (- 1) = Inl (out_of_range INT8 '' / '' (- 128) (- 1)) \<and>
   Modulo_operation UINT8 200 0 = Inl (RuntimeException ''Modulo by zero.'')"
  using checked_divide_modulo [THEN conjunct1, of INT8 "- 7" 2] checked_divide_modulo [THEN conjunct2, of INT8 "- 7" 2]
    checked_divide_modulo [THEN conjunct1, of INT8 "- 128" "- 1"] checked_divide_modulo [THEN conjunct2, of UINT8 200 0]
  by (simp add: in_range_def signed_divide_int_def)

text \<open>(C24) Negation and absolute value: on the signed types they are exact, or throw when the result does not fit, which is for
  the smallest value only; on the unsigned types negation never throws and gives the complement to the power of two one above the largest value (0 for 0),
  and the absolute value is the value.\<close>

theorem checked_negate_abs:
  assumes "in_range t v"
  shows "(Negate_operation t v =
      (if is_unsigned t then Inr (if v = 0 then 0 else NumericLimits_maximum t + 1 - v)
       else if in_range t (- v) then Inr (- v)
       else Inl (OverflowException (''Value '' @ decimal_int v @ '' cannot be negated within '' @
         type_name t @ '' range.'')))) \<and>
     (Abs_operation t v =
      (if in_range t \<bar>v\<bar> then Inr \<bar>v\<bar>
       else Inl (OverflowException (''Cannot take the absolute value of '' @ decimal_int v @ '' within '' @
         type_name t @ '' range.'')))) \<and>
     (in_range t \<bar>v\<bar> \<longleftrightarrow> is_unsigned t \<or> v \<noteq> NumericLimits_minimum t)"
proof (cases "is_unsigned t")
  case True
  then show ?thesis using assms Negate_unsigned [OF assms True]
    by (simp add: Negate_operation_def Abs_operation_def Abs_template_def)
next
  case False
  have "in_range t \<bar>v\<bar> \<longleftrightarrow> v \<noteq> NumericLimits_minimum t" using assms False by (cases t) (auto simp: in_range_def)
  then show ?thesis using False by (simp add: Negate_operation_def Abs_operation_def Negate_exact [OF assms False])
qed

theorem checked_negate_abs_witness:
  "Negate_operation INT16 (- 32767) = Inr 32767 \<and> Abs_operation INT64 (- 5) = Inr 5 \<and>
   Negate_operation INT8 (- 128) =
     Inl (OverflowException ''Value -128 cannot be negated within INT8 range.'') \<and>
   Negate_operation UINT8 24 = Inr 232 \<and> Abs_operation UINT8 232 = Inr 232"
  using checked_negate_abs [THEN conjunct1, of INT16 "- 32767"] checked_negate_abs [THEN conjunct2, of INT64 "- 5"]
    checked_negate_abs [THEN conjunct1, of INT8 "- 128"] checked_negate_abs [THEN conjunct1, of UINT8 24]
    checked_negate_abs [THEN conjunct2, of UINT8 232]
  by (simp add: in_range_def decimal_int_def decimal.simps digit_char_def char_of_def bit_0)

text \<open>(C23) The branches of 64-bit addition and subtraction for compilers without overflow intrinsics
  agree with the intrinsics on all inputs.\<close>

theorem portable_add_subtract:
  assumes "in_range INT64 l" "in_range INT64 r"
  shows "(AddInPlace_int64_portable l r = AddInPlace INT64 l r) \<and>
     (SubtractInPlace_int64_portable l r = SubtractInPlace INT64 l r)"
  by (simp only: AddInPlace_int64_portable [OF assms] SubtractInPlace_int64_portable [OF assms] simp_thms)

theorem portable_add_subtract_witness:
  "AddInPlace_int64_portable (2 ^ 62) (2 ^ 62) = None \<and>
   SubtractInPlace_int64_portable (- (2 ^ 62)) (2 ^ 62) = Some (- (2 ^ 63))"
  using portable_add_subtract [THEN conjunct1, of "2 ^ 62" "2 ^ 62"] portable_add_subtract [THEN conjunct2, of "- (2 ^ 62)" "2 ^ 62"]
  by (simp add: in_range_def builtin_overflow_def)

subsection \<open>Where the code departs from the exact result\<close>

text \<open>The mask in the portable 64-bit product stops at bit 55, so it accepts products whose high half
  has only higher bits, and returns the wrapped value.\<close>

theorem TryMultiply_int64_portable_misses_overflow:
  "TryMultiply_int64_portable (2 ^ 31) (2 ^ 62) = Some 0 \<and> fst (TryMultiply INT64 (2 ^ 31) (2 ^ 62)) = None"
  by (simp add: TryMultiply_int64_portable_def builtin_overflow_def drop_bit_eq_div Let_def)

text \<open>The factorial is exact up to 20 and wraps from 21 on, with no overflow check.\<close>

theorem Factorial_wraps:
  "(\<forall>n\<in>{1..20}. Factorial_operation (int n) = fact n) \<and> Factorial_operation 21 < 0"
proof
  show "\<forall>n\<in>{1..20}. Factorial_operation (int n) = fact n"
  proof
    fix n :: nat assume n: "n \<in> {1..20}"
    then show "Factorial_operation (int n) = fact n"
      using Factorial_loop_exact [of 1 "n - 1"] by (simp add: Factorial_operation_def)
  qed
  have "Factorial_loop 2 21 1 = Factorial_loop 21 21 (Factorial_loop 2 20 1)"
    by (simp add: Factorial_loop.simps)
  then show "Factorial_operation 21 < 0" 
    by (simp add: Factorial_operation_def Factorial_loop.simps)
qed

end
