(* ===== verification/Cast_String.thy ===== *)
theory Cast_String
  imports Checked_Arithmetic
begin

text \<open>
  Casting text to integers and booleans: \<^verbatim>\<open>src/src/include/function/cast/functions/cast_string_non_nested_functions.h\<close>. The
  digit loop is a template over an operation that takes one digit and one that finishes; here they are
  arguments of the loop. \<open>IntegerCastOperation\<close> accumulates in the target type itself, \<open>Int128CastOperation\<close> in a
  64-bit part that is flushed into the 128-bit result when it is full. A function that returns a flag and sets
  a result is a function to \<open>option\<close>, inside \<open>result\<close> where it may throw.
\<close>

definition obind :: "'a option result \<Rightarrow> ('a \<Rightarrow> 'b option result) \<Rightarrow> 'b option result" where
  "obind m f = rbind m (\<lambda>x. case x of None \<Rightarrow> Inr None | Some a \<Rightarrow> f a)"

lemma obind_simps [simp]: "obind (Inl e) f = Inl e" "obind (Inr None) f = Inr None" "obind (Inr (Some a)) f = f a"
  by (simp_all add: obind_def)

subsection \<open>The digit loop\<close>

definition removeCStringWhiteSpaces :: "string \<Rightarrow> string" where
  "removeCStringWhiteSpaces input = rev (dropWhile isSpace (rev (dropWhile isSpace input)))"

fun integerCastLoop_digits :: "('s \<Rightarrow> int \<Rightarrow> 's option result) \<Rightarrow> string \<Rightarrow> 's \<Rightarrow> 's option result" where
  "integerCastLoop_digits handleDigit [] state = Inr (Some state)"
| "integerCastLoop_digits handleDigit (c # input) state =
     (if \<not> CharacterIsDigit c then Inr None
      else obind (handleDigit state (digit_value c)) (integerCastLoop_digits handleDigit input))"

definition integerCastLoop ::
  "(bool \<Rightarrow> 's \<Rightarrow> int \<Rightarrow> 's option result) \<Rightarrow> ('s \<Rightarrow> 's option result) \<Rightarrow> bool \<Rightarrow> string \<Rightarrow> 's \<Rightarrow>
   's option result" where
  "integerCastLoop handleDigit finalize NEGATIVE input state =
     (let start_pos = (if NEGATIVE then 1 else 0) in
      obind (integerCastLoop_digits (handleDigit NEGATIVE) (drop start_pos input) state) (\<lambda>state.
      obind (finalize state) (\<lambda>state.
        Inr (if length input > start_pos then Some state else None))))"

definition tryIntegerCast ::
  "(bool \<Rightarrow> 's \<Rightarrow> int \<Rightarrow> 's option result) \<Rightarrow> ('s \<Rightarrow> 's option result) \<Rightarrow> bool \<Rightarrow> string \<Rightarrow> 's \<Rightarrow>
   's option result" where
  "tryIntegerCast handleDigit finalize IS_SIGNED input state =
     (let input = removeCStringWhiteSpaces input in
      if length input = 0 then Inr None
      else if hd input = CHR ''-'' then
        if \<not> IS_SIGNED \<and> list_ex (\<lambda>c. c \<noteq> CHR ''0'') (drop 1 input) then Inr None
        else integerCastLoop handleDigit finalize True input state
      else if length input > 1 \<and> hd input = CHR ''0'' then Inr None
      else integerCastLoop handleDigit finalize False input state)"

subsection \<open>Fixed-width integers\<close>

definition IntegerCastOperation_handleDigit :: "int_type \<Rightarrow> bool \<Rightarrow> int \<Rightarrow> int \<Rightarrow> int option result" where
  "IntegerCastOperation_handleDigit T NEGATIVE state digit = Inr
     (if NEGATIVE then
        if state < (NumericLimits_minimum T + digit) sdiv 10 then None
        else Some (wrap T (state * 10 - digit))
      else
        if state > (NumericLimits_maximum T - digit) sdiv 10 then None
        else Some (wrap T (state * 10 + digit)))"

definition IntegerCastOperation_finalize :: "int \<Rightarrow> int option result" where
  "IntegerCastOperation_finalize state = Inr (Some state)"

definition trySimpleIntegerCast :: "int_type \<Rightarrow> string \<Rightarrow> int option result" where
  "trySimpleIntegerCast T input =
     tryIntegerCast (IntegerCastOperation_handleDigit T) IntegerCastOperation_finalize (\<not> is_unsigned T) input 0"

text \<open>The name of the type of the \<^verbatim>\<open>typeID\<close> argument is only used in the message.\<close>

definition simpleIntegerCast :: "int_type \<Rightarrow> string \<Rightarrow> string \<Rightarrow> int result" where
  "simpleIntegerCast T typeID input =
     rbind (trySimpleIntegerCast T input) (\<lambda>res. case res of
        None \<Rightarrow> Inl (ConversionException (''Cast failed. Could not convert '' @ [CHR 0x22] @ input @ [CHR 0x22] @
                       '' to '' @ typeID @ ''.''))
      | Some res \<Rightarrow> Inr res)"

subsection \<open>128-bit integers\<close>

record Int128CastData =
  cast_result :: int128_t
  intermediate :: int
  cast_digits :: int

definition new_Int128CastData :: Int128CastData where
  "new_Int128CastData = \<lparr>cast_result = tryCastToTemplate 0, intermediate = 0, cast_digits = 0\<rparr>"

definition DECIMAL_PRECISION_LIMIT :: int where
  "DECIMAL_PRECISION_LIMIT = 38"

definition Int128CastData_flush :: "Int128CastData \<Rightarrow> Int128CastData option result" where
  "Int128CastData_flush s =
     (if cast_digits s = 0 \<and> intermediate s = 0 then Inr (Some s)
      else
        obind
          (if low (cast_result s) \<noteq> 0 \<or> high (cast_result s) \<noteq> 0 then
             if cast_digits s > DECIMAL_PRECISION_LIMIT then Inr None
             else rbind (powerOf10 ! nat (cast_digits s)) (\<lambda>power.
                  tryMultiply multiply_native (cast_result s) power)
           else Inr (Some (cast_result s)))
          (\<lambda>result.
             case addInPlace result (tryCastToTemplate (intermediate s)) of
               (False, _) \<Rightarrow> Inr None
             | (True, result) \<Rightarrow>
                 Inr (Some (s\<lparr>cast_result := result, cast_digits := 0, intermediate := 0\<rparr>))))"

definition Int128CastOperation_handleDigit ::
  "bool \<Rightarrow> Int128CastData \<Rightarrow> int \<Rightarrow> Int128CastData option result" where
  "Int128CastOperation_handleDigit NEGATIVE s digit =
     obind
       (if (if NEGATIVE then intermediate s < (NumericLimits_minimum INT64 + digit) sdiv 10
            else intermediate s > (NumericLimits_maximum INT64 - digit) sdiv 10)
        then Int128CastData_flush s else Inr (Some s))
       (\<lambda>s. Inr (Some (s\<lparr>
          intermediate := wrap INT64 (wrap INT64 (intermediate s * 10) + (if NEGATIVE then - digit else digit)),
          cast_digits := wrap UINT8 (cast_digits s + 1)\<rparr>)))"

definition Int128CastOperation_finalize :: "Int128CastData \<Rightarrow> Int128CastData option result" where
  "Int128CastOperation_finalize s = Int128CastData_flush s"

definition trySimpleInt128Cast :: "string \<Rightarrow> int128_t option result" where
  "trySimpleInt128Cast input =
     obind (tryIntegerCast Int128CastOperation_handleDigit Int128CastOperation_finalize True input
              new_Int128CastData) (\<lambda>data. Inr (Some (cast_result data)))"

definition simpleInt128Cast :: "string \<Rightarrow> int128_t result" where
  "simpleInt128Cast input =
     rbind (trySimpleInt128Cast input) (\<lambda>res. case res of
        None \<Rightarrow> Inl (ConversionException (''Cast failed. '' @ input @ '' is not within INT128 range.''))
      | Some res \<Rightarrow> Inr res)"

subsection \<open>Booleans\<close>

definition tryCastToBool :: "string \<Rightarrow> bool option" where
  "tryCastToBool input =
     (let input = toLower (removeCStringWhiteSpaces input) in
      if length input = 1 then
        if input ! 0 = CHR ''t'' \<or> input ! 0 = CHR ''1'' then Some True
        else if input ! 0 = CHR ''f'' \<or> input ! 0 = CHR ''0'' then Some False
        else None
      else if length input = 4 then
        if input ! 0 = CHR ''t'' \<and> input ! 1 = CHR ''r'' \<and> input ! 2 = CHR ''u'' \<and> input ! 3 = CHR ''e''
        then Some True else None
      else if length input = 5 then
        if input ! 0 = CHR ''f'' \<and> input ! 1 = CHR ''a'' \<and> input ! 2 = CHR ''l'' \<and> input ! 3 = CHR ''s'' \<and>
           input ! 4 = CHR ''e''
        then Some False else None
      else None)"

definition castStringToBool :: "string \<Rightarrow> bool result" where
  "castStringToBool input =
     (case tryCastToBool input of
        None \<Rightarrow> Inl (ConversionException (''Value '' @ input @ '' is not a valid boolean''))
      | Some res \<Rightarrow> Inr res)"

subsection \<open>The reference reading\<close>

text \<open>The integer a text denotes: an optional sign and digits between white space, with no leading zero on a
  number without sign, within the range \<open>fits\<close>; an unsigned type takes a sign only in front of zeros.\<close>

definition integer_of_text :: "bool \<Rightarrow> (int \<Rightarrow> bool) \<Rightarrow> string \<Rightarrow> int option" where
  "integer_of_text is_signed fits input =
     (let body = removeCStringWhiteSpaces input;
          negative = (body \<noteq> [] \<and> hd body = CHR ''-'');
          ds = (if negative then tl body else body);
          v = (if negative then - int (read_decimal ds) else int (read_decimal ds))
      in if ds \<noteq> [] \<and> list_all CharacterIsDigit ds \<and> fits v \<and>
            (if negative then is_signed \<or> list_all (\<lambda>c. c = CHR ''0'') ds
             else length ds = 1 \<or> hd ds \<noteq> CHR ''0'')
         then Some v else None)"

definition extend_digits :: "bool \<Rightarrow> int \<Rightarrow> string \<Rightarrow> int" where
  "extend_digits neg v ds = foldl (\<lambda>v c. if neg then v * 10 - digit_value c else v * 10 + digit_value c) v ds"

lemma extend_digits_simps [simp]:
  "extend_digits neg v [] = v"
  "extend_digits neg v (c # ds) = extend_digits neg (if neg then v * 10 - digit_value c else v * 10 + digit_value c) ds"
  by (simp_all add: extend_digits_def)

lemma digit_value_bounds: "CharacterIsDigit c \<Longrightarrow> 0 \<le> digit_value c \<and> digit_value c \<le> 9"
  by (auto simp: CharacterIsDigit_def digit_value_def)

lemma extend_digits_read:
  "list_all CharacterIsDigit ds \<Longrightarrow>
   extend_digits neg (if neg then - int v else int v) ds =
     (if neg then - int (foldl (\<lambda>v c. 10 * v + nat (digit_value c)) v ds)
      else int (foldl (\<lambda>v c. 10 * v + nat (digit_value c)) v ds))"
proof (induction ds arbitrary: v)
  case (Cons c ds)
  then have "int (nat (digit_value c)) = digit_value c" using digit_value_bounds [of c] by simp
  then have "(if neg then (if neg then - int v else int v) * 10 - digit_value c
      else (if neg then - int v else int v) * 10 + digit_value c) =
      (if neg then - int (10 * v + nat (digit_value c)) else int (10 * v + nat (digit_value c)))"
    by simp
  then show ?case using Cons by simp
qed simp

lemma extend_digits_0:
  "list_all CharacterIsDigit ds \<Longrightarrow>
   extend_digits neg 0 ds = (if neg then - int (read_decimal ds) else int (read_decimal ds))"
  using extend_digits_read [of ds neg 0] by (simp add: read_decimal_def split: if_splits)

lemma extend_digits_grows:
  assumes "list_all CharacterIsDigit ds" "if neg then v \<le> 0 else 0 \<le> v"
  shows "if neg then extend_digits neg v ds \<le> v else v \<le> extend_digits neg v ds"
  using assms
proof (induction ds arbitrary: v)
  case (Cons c ds)
  from Cons.IH [of "if neg then v * 10 - digit_value c else v * 10 + digit_value c"] Cons.prems
  show ?case using digit_value_bounds [of c] by (auto split: if_splits)
qed simp

text \<open>What the digit loop relies on: a state denotes the number read so far; one more digit gives a
  state for the longer number, or is refused only if that number is out of range.\<close>

locale digit_operation =
  fixes handleDigit :: "bool \<Rightarrow> 's \<Rightarrow> int \<Rightarrow> 's option result"
    and finalize :: "'s \<Rightarrow> 's option result"
    and is_signed :: bool
    and denotes :: "'s \<Rightarrow> int \<Rightarrow> nat \<Rightarrow> bool"
    and number :: "'s \<Rightarrow> int"
    and fits :: "int \<Rightarrow> bool"
    and short :: "nat \<Rightarrow> bool"
  assumes handleDigit:
    "\<lbrakk>denotes s v n; short (Suc n); 0 \<le> d; d \<le> 9; if neg then v \<le> 0 \<and> (is_signed \<or> d = 0) else 0 \<le> v;
      v' = (if neg then v * 10 - d else v * 10 + d)\<rbrakk> \<Longrightarrow>
     (\<exists>s'. handleDigit neg s d = Inr (Some s') \<and> denotes s' v' (Suc n)) \<or>
     (handleDigit neg s d = Inr None \<and> \<not> fits v')"
    and finalize:
    "\<lbrakk>denotes s v n; short n\<rbrakk> \<Longrightarrow>
     (\<exists>s'. finalize s = Inr (Some s') \<and> number s' = v \<and> fits v) \<or> (finalize s = Inr None \<and> \<not> fits v)"
    and fits_mono: "\<lbrakk>fits w; 0 \<le> v \<and> v \<le> w \<or> w \<le> v \<and> v \<le> 0\<rbrakk> \<Longrightarrow> fits v"
    and short_mono: "\<lbrakk>short n; m \<le> n\<rbrakk> \<Longrightarrow> short m"
begin

lemma digits_loop:
  assumes "denotes s v n" "short (n + length ds)" "if neg then v \<le> 0 else 0 \<le> v"
    "neg \<longrightarrow> is_signed \<or> list_all (\<lambda>c. c = CHR ''0'') ds"
  shows "if list_all CharacterIsDigit ds
    then (\<exists>s'. integerCastLoop_digits (handleDigit neg) ds s = Inr (Some s') \<and>
               denotes s' (extend_digits neg v ds) (n + length ds)) \<or>
         (integerCastLoop_digits (handleDigit neg) ds s = Inr None \<and> \<not> fits (extend_digits neg v ds))
    else integerCastLoop_digits (handleDigit neg) ds s = Inr None"
  using assms
proof (induction ds arbitrary: s v n)
  case (Cons c ds)
  show ?case
  proof (cases "CharacterIsDigit c")
    case True
    define v' where "v' = (if neg then v * 10 - digit_value c else v * 10 + digit_value c)"
    have d: "0 \<le> digit_value c" "digit_value c \<le> 9" using digit_value_bounds [OF True] by auto
    have sign: "if neg then v' \<le> 0 else 0 \<le> v'" using Cons.prems(3) d by (auto simp: v'_def split: if_splits)
    have zero: "if neg then v \<le> 0 \<and> (is_signed \<or> digit_value c = 0) else 0 \<le> v"
      using Cons.prems(3,4) by (auto simp: digit_value_def split: if_splits)
    have "short (Suc n)" by (rule short_mono [OF Cons.prems(2)]) simp
    from handleDigit [OF Cons.prems(1) this d zero v'_def]
    consider s' where "handleDigit neg s (digit_value c) = Inr (Some s')" "denotes s' v' (Suc n)"
      | "handleDigit neg s (digit_value c) = Inr None" "\<not> fits v'"
      by blast
    then show ?thesis
    proof cases
      case 1
      then show ?thesis
        using Cons.IH [of s' v' "Suc n"] Cons.prems(2,4) sign True by (auto simp: v'_def split: if_splits)
    next
      case 2
      have "\<not> fits (extend_digits neg v' ds)" if "list_all CharacterIsDigit ds"
        using extend_digits_grows [OF that sign] fits_mono [of "extend_digits neg v' ds" v'] 2(2) sign
        by (auto split: if_splits)
      then show ?thesis using 2(1) True by (auto simp: v'_def)
    qed
  qed simp
qed simp

lemma integerCastLoop_reads:
  assumes "denotes s 0 0" "short (length ds)" "neg \<longrightarrow> is_signed \<or> list_all (\<lambda>c. c = CHR ''0'') ds"
    "ds = drop (if neg then 1 else 0) input" "neg \<Longrightarrow> input \<noteq> []"
    "v = (if neg then - int (read_decimal ds) else int (read_decimal ds))"
  shows "(\<exists>s'. integerCastLoop handleDigit finalize neg input s = Inr (Some s') \<and> number s' = v \<and>
            ds \<noteq> [] \<and> list_all CharacterIsDigit ds \<and> fits v) \<or>
         (integerCastLoop handleDigit finalize neg input s = Inr None \<and>
            \<not> (ds \<noteq> [] \<and> list_all CharacterIsDigit ds \<and> fits v))"
proof -
  have ds: "drop (if neg then 1 else 0) input = ds" "length input > (if neg then 1 else 0) \<longleftrightarrow> ds \<noteq> []"
    by (simp_all add: assms(4) not_le)
  have loop: "integerCastLoop handleDigit finalize neg input s =
      obind (integerCastLoop_digits (handleDigit neg) ds s) (\<lambda>s.
      obind (finalize s) (\<lambda>s. Inr (if ds \<noteq> [] then Some s else None)))"
    unfolding integerCastLoop_def Let_def ds ..
  have "short (0 + length ds)" "if neg then (0 :: int) \<le> 0 else (0 :: int) \<le> 0" using assms(2) by simp_all
  note loop' = digits_loop [OF assms(1) this assms(3)]
  show ?thesis
  proof (cases "list_all CharacterIsDigit ds")
    case True
    have v: "extend_digits neg 0 ds = v" using extend_digits_0 [OF True] assms(6) by simp
    have "(\<exists>s'. integerCastLoop_digits (handleDigit neg) ds s = Inr (Some s') \<and> denotes s' v (length ds)) \<or>
        integerCastLoop_digits (handleDigit neg) ds s = Inr None \<and> \<not> fits v"
      using loop' True v by simp
    then consider s' where "integerCastLoop_digits (handleDigit neg) ds s = Inr (Some s')" "denotes s' v (length ds)"
      | "integerCastLoop_digits (handleDigit neg) ds s = Inr None" "\<not> fits v"
      by blast
    then show ?thesis
    proof cases
      case 1
      from finalize [OF 1(2) assms(2)]
      consider s'' where "finalize s' = Inr (Some s'')" "number s'' = v" "fits v" | "finalize s' = Inr None" "\<not> fits v"
        by blast
      then show ?thesis by cases (simp_all add: loop 1(1) True)
    qed (auto simp: loop)
  next
    case False
    then show ?thesis using loop' by (simp add: loop)
  qed
qed

lemma tryIntegerCast_reads:
  assumes "denotes s 0 0" "short (length input)"
  shows "(\<exists>s'. tryIntegerCast handleDigit finalize is_signed input s = Inr (Some s') \<and>
            integer_of_text is_signed fits input = Some (number s')) \<or>
         (tryIntegerCast handleDigit finalize is_signed input s = Inr None \<and>
            integer_of_text is_signed fits input = None)"
proof -
  define body where "body = removeCStringWhiteSpaces input"
  have "length body \<le> length input"
    unfolding body_def removeCStringWhiteSpaces_def
    by (metis length_dropWhile_le length_rev order_trans)
  then have short: "short (length body)" "short (length (tl body))"
    by (auto intro: short_mono [OF assms(2)])
  consider "body = []" | "body \<noteq> []" "hd body = CHR ''-''" | "body \<noteq> []" "hd body \<noteq> CHR ''-''" by blast
  then show ?thesis
  proof cases
    case 1
    then show ?thesis by (simp add: tryIntegerCast_def integer_of_text_def Let_def flip: body_def)
  next
    case 2
    let ?zeros = "list_all (\<lambda>c. c = CHR ''0'') (tl body)"
    have z: "list_ex (\<lambda>c. c \<noteq> CHR ''0'') (drop (Suc 0) body) \<longleftrightarrow> \<not> ?zeros"
      by (simp add: list_ex_iff list_all_iff drop_Suc)
    show ?thesis
    proof (cases "is_signed \<or> ?zeros")
      case True
      let ?v = "- int (read_decimal (tl body))"
      have cast: "tryIntegerCast handleDigit finalize is_signed input s = integerCastLoop handleDigit finalize True body s"
        using 2 True by (auto simp: tryIntegerCast_def Let_def z simp flip: body_def)
      have reading: "integer_of_text is_signed fits input =
          (if tl body \<noteq> [] \<and> list_all CharacterIsDigit (tl body) \<and> fits ?v then Some ?v else None)"
        using 2 True by (simp add: integer_of_text_def Let_def flip: body_def)
      show ?thesis
        using integerCastLoop_reads [OF assms(1) short(2), of True body ?v] True 2
        unfolding cast reading by (fastforce simp: drop_Suc)
    next
      case False
      then show ?thesis
        using 2 by (simp add: tryIntegerCast_def integer_of_text_def Let_def z flip: body_def)
    qed
  next
    case 3
    show ?thesis
    proof (cases "length body > 1 \<and> hd body = CHR ''0''")
      case True
      then show ?thesis
        using 3 by (auto simp: tryIntegerCast_def integer_of_text_def Let_def simp flip: body_def)
    next
      case False
      let ?v = "int (read_decimal body)"
      have cast: "tryIntegerCast handleDigit finalize is_signed input s = integerCastLoop handleDigit finalize False body s"
        using 3 False by (auto simp: tryIntegerCast_def Let_def simp flip: body_def)
      have "length body = 1 \<or> hd body \<noteq> CHR ''0''" using 3 False by (cases body) auto
      then have reading: "integer_of_text is_signed fits input =
          (if body \<noteq> [] \<and> list_all CharacterIsDigit body \<and> fits ?v then Some ?v else None)"
        using 3 by (simp add: integer_of_text_def Let_def flip: body_def)
      show ?thesis
        using integerCastLoop_reads [OF assms(1) short(1), of False body ?v]
        unfolding cast reading by fastforce
    qed
  qed
qed

end

subsection \<open>Fixed-width integers implement the digit loop\<close>

lemma less_sdiv_10: "x \<le> 0 \<Longrightarrow> v < x sdiv 10 \<longleftrightarrow> v * 10 < x" for v x :: int
  using div_less_iff [of 10 "- x" "- v"] by (auto simp: signed_divide_int_def sgn_if)

lemma sdiv_10_less: "0 \<le> x \<Longrightarrow> x sdiv 10 < v \<longleftrightarrow> x < v * 10" for v x :: int
  using div_less_iff [of 10 x v] by (auto simp: signed_divide_int_def sgn_if)

lemma limits_digit:
  assumes "0 \<le> d" "d \<le> 9"
  shows "d \<le> NumericLimits_maximum T" "\<not> is_unsigned T \<or> d = 0 \<Longrightarrow> NumericLimits_minimum T + d \<le> 0"
    "NumericLimits_minimum T \<le> 0" "0 \<le> NumericLimits_maximum T"
  using assms by (cases T; auto)+

interpretation fixed: digit_operation "IntegerCastOperation_handleDigit T" IntegerCastOperation_finalize
  "\<not> is_unsigned T" "\<lambda>s v n. s = v \<and> in_range T v" "\<lambda>s. s" "in_range T" "\<lambda>_. True" for T
proof (unfold_locales, goal_cases)
  case (1 s v n d neg v')
  from 1(1) have s: "s = v" "in_range T v" by auto
  have v': "in_range T v' \<longleftrightarrow> (if neg then NumericLimits_minimum T + d \<le> v * 10 else v * 10 \<le> NumericLimits_maximum T - d)"
    using 1(3-6) limits_digit(3,4) [OF 1(3,4), of T] by (auto simp: in_range_def split: if_splits)
  show ?case
    using v' wrap_id [of T v'] 1(5,6) limits_digit(1,2) [OF 1(3,4), of T]
    by (auto simp: IntegerCastOperation_handleDigit_def s less_sdiv_10 sdiv_10_less split: if_splits)
next
  case (3 w v)
  then show ?case using limits_digit(3,4) [of 0 T] by (auto simp: in_range_def)
qed (auto simp: IntegerCastOperation_finalize_def)

subsection \<open>128-bit integers implement the digit loop\<close>

text \<open>A state denotes its result, shifted by the digits read since the last flush, and those digits.\<close>

definition int128_denotes :: "Int128CastData \<Rightarrow> int \<Rightarrow> nat \<Rightarrow> bool" where
  "int128_denotes s v n \<longleftrightarrow>
     int128_fits (int128_val (cast_result s)) \<and> in_range INT64 (intermediate s) \<and>
     0 \<le> cast_digits s \<and> cast_digits s \<le> int n \<and>
     v = int128_val (cast_result s) * 10 ^ nat (cast_digits s) + intermediate s \<and>
     (0 \<le> int128_val (cast_result s) \<and> 0 \<le> intermediate s \<or>
      int128_val (cast_result s) \<le> 0 \<and> intermediate s \<le> 0)"

lemma int128_fits_mono: "int128_fits w \<Longrightarrow> 0 \<le> v \<and> v \<le> w \<or> w \<le> v \<and> v \<le> 0 \<Longrightarrow> int128_fits v"
  unfolding int128_fits_def by linarith

lemma int64_cast_val: "in_range INT64 v \<Longrightarrow> int128_val (tryCastToTemplate v) = v"
  by (rule tryCastToTemplate_val) (auto simp: in_range_def)

lemma int64_fits: "in_range INT64 v \<Longrightarrow> int128_fits v"
  by (simp add: in_range_def int128_fits_def)

lemma power_ten_fits: "k \<le> 38 \<Longrightarrow> int128_val (int128_of (10 ^ k)) = 10 ^ k"
proof (rule int128_val_of)
  assume "k \<le> 38"
  then have "(10 :: int) ^ k \<le> 10 ^ 38" by (intro power_increasing) auto
  then show "(10 :: int) ^ k < 2 ^ 127" by (rule order_le_less_trans) simp
qed (rule order_trans [of _ 0], simp_all)

lemma many_digits_do_not_fit:
  assumes "r \<noteq> 0" "38 < k" "0 \<le> r \<and> 0 \<le> i \<or> r \<le> 0 \<and> i \<le> (0 :: int)"
  shows "\<not> int128_fits (r * 10 ^ k + i)"
proof
  assume fits: "int128_fits (r * 10 ^ k + i)"
  have "(10 :: int) ^ 39 \<le> 10 ^ k" using assms(2) by (intro power_increasing) auto
  also have "\<dots> \<le> \<bar>r\<bar> * 10 ^ k" using assms(1) by (simp add: mult_le_cancel_right1)
  also have "\<dots> \<le> \<bar>r * 10 ^ k + i\<bar>"
    using assms(3) by (auto simp: abs_if mult_less_0_iff not_less add_nonneg_nonneg)
  finally have "(10 :: int) ^ 39 \<le> \<bar>r * 10 ^ k + i\<bar>" .
  moreover have "\<bar>r * 10 ^ k + i\<bar> < 2 ^ 127" using fits unfolding int128_fits_def by linarith
  ultimately have "(10 :: int) ^ 39 < 2 ^ 127" by linarith
  then show False by simp
qed

lemma flush_step:
  assumes "int128_denotes s v n"
  shows "(\<exists>s'. Int128CastData_flush s = Inr (Some s') \<and> int128_val (cast_result s') = v \<and>
            intermediate s' = 0 \<and> cast_digits s' = 0 \<and> int128_fits v) \<or>
         (Int128CastData_flush s = Inr None \<and> \<not> int128_fits v)"
proof (cases "cast_digits s = 0 \<and> intermediate s = 0")
  case True
  then show ?thesis using assms by (simp add: Int128CastData_flush_def int128_denotes_def)
next
  case False
  define r k i where "r = int128_val (cast_result s)" and "k = nat (cast_digits s)" and "i = intermediate s"
  have s: "int128_fits r" "in_range INT64 i" "0 \<le> cast_digits s" "v = r * 10 ^ k + i"
    "0 \<le> r \<and> 0 \<le> i \<or> r \<le> 0 \<and> i \<le> 0"
    using assms by (auto simp: int128_denotes_def r_def k_def i_def)
  have nz: "low (cast_result s) \<noteq> 0 \<or> high (cast_result s) \<noteq> 0 \<longleftrightarrow> r \<noteq> 0"
    using int128_zero_iff [of "cast_result s"] by (auto simp: r_def)
  define product where "product = (if r \<noteq> 0 then if cast_digits s > DECIMAL_PRECISION_LIMIT then Inr None
      else rbind (powerOf10 ! k) (tryMultiply multiply_native (cast_result s)) else Inr (Some (cast_result s)))"
  have flush: "Int128CastData_flush s = obind product (\<lambda>result.
      case addInPlace result (tryCastToTemplate i) of (False, _) \<Rightarrow> Inr None
      | (True, result) \<Rightarrow> Inr (Some (s\<lparr>cast_result := result, cast_digits := 0, intermediate := 0\<rparr>)))"
    unfolding Int128CastData_flush_def if_not_P [OF False] nz product_def k_def i_def by simp
  have product: "(\<exists>p. product = Inr (Some p) \<and> int128_val p = r * 10 ^ k) \<or> (product = Inr None \<and> \<not> int128_fits v)"
  proof (cases "r = 0")
    case False
    show ?thesis
    proof (cases "38 < k")
      case True
      then show ?thesis
        using many_digits_do_not_fit [OF False True s(5)] s(3,4) False
        by (simp add: product_def DECIMAL_PRECISION_LIMIT_def k_def zless_nat_eq_int_zless)
    next
      case small: False
      have pow: "powerOf10 ! k = Inr (int128_of (10 ^ k))" "int128_val (int128_of (10 ^ k)) = 10 ^ k"
        using small power_ten_fits [of k] by (auto simp: powerOf10_val simp del: upt_Suc)
      have "(10 :: int) ^ k \<noteq> - (2 ^ 127)" "r \<noteq> - (2 ^ 127)"
        using s(1) zero_le_power [of "10 :: int" k] unfolding int128_fits_def by linarith+
      then have mul: "product = Inr (if int128_fits (r * 10 ^ k) then Some (int128_of (r * 10 ^ k)) else None)"
        using False small native.tryMultiply_val [of "cast_result s" "int128_of (10 ^ k)"] pow s(3)
        by (auto simp: product_def DECIMAL_PRECISION_LIMIT_def k_def r_def)
      have "\<not> int128_fits v" if "\<not> int128_fits (r * 10 ^ k)"
        using that int128_fits_mono [of v "r * 10 ^ k"] s(4,5)
        by (auto simp: mult_le_0_iff zero_le_mult_iff)
      moreover have "int128_val (int128_of (r * 10 ^ k)) = r * 10 ^ k" if "int128_fits (r * 10 ^ k)"
        using that unfolding int128_fits_def by (intro int128_val_of) auto
      ultimately show ?thesis unfolding mul by auto
    qed
  qed (simp add: product_def r_def)
  then show ?thesis
  proof
    assume "\<exists>p. product = Inr (Some p) \<and> int128_val p = r * 10 ^ k"
    then obtain p where p: "product = Inr (Some p)" "int128_val p = r * 10 ^ k" by blast
    from addInPlace_val [of p "tryCastToTemplate i"] show ?thesis
      unfolding flush p(1) using s(4) p(2) int64_cast_val [OF s(2)]
      by (cases "addInPlace p (tryCastToTemplate i)") (auto split: bool.splits)
  qed (simp add: flush)
qed

lemma wrap_int64_add_left: "wrap INT64 (wrap INT64 a + b) = wrap INT64 (a + b)"
  using signed_take_bit_add [of 63 "signed_take_bit 63 a" b] signed_take_bit_add [of 63 a b] by simp

lemma denotes_digit:
  assumes "int128_denotes s v n" "in_range INT64 w" "n < 255"
    and w: "w = intermediate s * 10 + e" and sign: "0 \<le> v \<and> 0 \<le> e \<or> v \<le> 0 \<and> e \<le> 0"
  shows "int128_denotes (s\<lparr>intermediate := wrap INT64 (wrap INT64 (intermediate s * 10) + e),
    cast_digits := wrap UINT8 (cast_digits s + 1)\<rparr>) (v * 10 + e) (Suc n)"
proof -
  let ?r = "int128_val (cast_result s)" and ?i = "intermediate s" and ?k = "cast_digits s"
  have s: "int128_fits ?r" "in_range INT64 ?i" "0 \<le> ?k" "?k \<le> int n" "v = ?r * 10 ^ nat ?k + ?i"
    "0 \<le> ?r \<and> 0 \<le> ?i \<or> ?r \<le> 0 \<and> ?i \<le> 0"
    using assms(1) by (auto simp: int128_denotes_def)
  have "wrap INT64 (wrap INT64 (?i * 10) + e) = wrap INT64 w"
    using wrap_int64_add_left unfolding w .
  then have inter: "wrap INT64 (wrap INT64 (?i * 10) + e) = w" using wrap_id [OF assms(2)] by simp
  have digs: "wrap UINT8 (?k + 1) = ?k + 1" using s(3,4) assms(3) by (intro wrap_id) (simp add: in_range_def)
  have pos: "0 \<le> ?r * 10 ^ nat ?k \<longleftrightarrow> 0 \<le> ?r" "?r * 10 ^ nat ?k \<le> 0 \<longleftrightarrow> ?r \<le> 0"
    using zero_less_power [of "10 :: int" "nat ?k"] unfolding zero_le_mult_iff mult_le_0_iff by linarith+
  have "0 \<le> ?r \<and> 0 \<le> w \<or> ?r \<le> 0 \<and> w \<le> 0"
    using s(5,6) sign pos unfolding w by linarith
  moreover have "v * 10 + e = ?r * 10 ^ nat (?k + 1) + w"
    using s(3,5) by (simp add: w nat_add_distrib algebra_simps)
  ultimately show ?thesis
    using s assms(2) unfolding int128_denotes_def inter digs by simp
qed

text \<open>One more digit, with a flush first when the 64-bit part is full.\<close>

lemma int128_handleDigit_step:
  assumes s: "int128_denotes s v n" and n: "n < 255" and d: "0 \<le> d" "d \<le> 9"
    and sign: "if neg then v \<le> 0 else 0 \<le> v"
    and v': "v' = (if neg then v * 10 - d else v * 10 + d)"
  shows "(\<exists>s'. Int128CastOperation_handleDigit neg s d = Inr (Some s') \<and> int128_denotes s' v' (Suc n)) \<or>
         (Int128CastOperation_handleDigit neg s d = Inr None \<and> \<not> int128_fits v')"
proof -
  define e where "e = (if neg then - d else d)"
  define full where "full = (if neg then intermediate s < (NumericLimits_minimum INT64 + d) sdiv 10
    else intermediate s > (NumericLimits_maximum INT64 - d) sdiv 10)"
  have e: "v' = v * 10 + e" "0 \<le> v \<and> 0 \<le> e \<or> v \<le> 0 \<and> e \<le> 0" "in_range INT64 e"
    using sign d by (auto simp: e_def v' in_range_def split: if_splits)
  have step: "Int128CastOperation_handleDigit neg s d =
      obind (if full then Int128CastData_flush s else Inr (Some s)) (\<lambda>s. Inr (Some (s\<lparr>
        intermediate := wrap INT64 (wrap INT64 (intermediate s * 10) + e),
        cast_digits := wrap UINT8 (cast_digits s + 1)\<rparr>)))"
    unfolding Int128CastOperation_handleDigit_def full_def e_def ..
  show ?thesis
  proof (cases full)
    case False
    have "in_range INT64 (intermediate s)" using s by (simp add: int128_denotes_def)
    moreover have "if neg then NumericLimits_minimum INT64 + d \<le> intermediate s * 10
        else intermediate s * 10 \<le> NumericLimits_maximum INT64 - d"
      using False d by (auto simp: full_def less_sdiv_10 sdiv_10_less not_less)
    moreover have "if neg then intermediate s \<le> 0 else 0 \<le> intermediate s"
    proof -
      have "(0 :: int) < 10 ^ nat (cast_digits s)" by simp
      then show ?thesis using s sign unfolding int128_denotes_def
        by (smt (verit) mult_nonneg_nonneg mult_nonpos_nonneg)
    qed
    ultimately have "in_range INT64 (intermediate s * 10 + e)"
      using d by (auto simp: in_range_def e_def split: if_splits)
    from denotes_digit [OF s this n refl e(2)] show ?thesis using False by (simp add: step e(1))
  next
    case True
    from flush_step [OF s]
    consider s' where "Int128CastData_flush s = Inr (Some s')" "int128_val (cast_result s') = v"
        "intermediate s' = 0" "cast_digits s' = 0" "int128_fits v"
      | "Int128CastData_flush s = Inr None" "\<not> int128_fits v"
      by blast
    then show ?thesis
    proof cases
      case 1
      then have "int128_denotes s' v n" by (simp add: int128_denotes_def in_range_def) linarith
      from denotes_digit [OF this _ n refl e(2)] e(3) show ?thesis using True 1 by (simp add: step e(1))
    next
      case 2
      then have "\<not> int128_fits v'" using int128_fits_mono [of v' v] e(1,2) by linarith
      then show ?thesis using True 2 by (simp add: step)
    qed
  qed
qed

interpretation wide: digit_operation Int128CastOperation_handleDigit Int128CastOperation_finalize True
  int128_denotes "\<lambda>s. int128_val (cast_result s)" int128_fits "\<lambda>n. n < 256"
proof (unfold_locales, goal_cases)
  case (1 s v n d neg v')
  then show ?case by (intro int128_handleDigit_step) (auto split: if_splits)
next
  case (2 s v n)
  then show ?case using flush_step [of s v n] by (auto simp: Int128CastOperation_finalize_def)
next
  case (3 w v)
  then show ?case by (rule int128_fits_mono)
qed auto

lemma trySimpleIntegerCast_reads:
  "trySimpleIntegerCast T input = Inr (integer_of_text (\<not> is_unsigned T) (in_range T) input)"
  using fixed.tryIntegerCast_reads [of 0 T input] limits_digit(3,4) [of 0 T]
  by (auto simp: trySimpleIntegerCast_def in_range_def)

lemma trySimpleInt128Cast_reads:
  assumes "length input < 256"
  shows "trySimpleInt128Cast input = Inr (map_option int128_of (integer_of_text True int128_fits input))"
proof -
  have "int128_denotes new_Int128CastData 0 0"
    using tryCastToTemplate_val [of 0]
    by (simp add: int128_denotes_def new_Int128CastData_def int128_fits_def in_range_def)
  from wide.tryIntegerCast_reads [OF this, of input] assms show ?thesis
    by (auto simp: trySimpleInt128Cast_def)
qed

subsection \<open>Numerals\<close>

lemma not_space_digit: "CharacterIsDigit c \<Longrightarrow> \<not> isSpace c"
  by (auto simp: CharacterIsDigit_def isSpace_def)

lemma removeCStringWhiteSpaces_id: "\<forall>c\<in>set s. \<not> isSpace c \<Longrightarrow> removeCStringWhiteSpaces s = s"
proof -
  assume s: "\<forall>c\<in>set s. \<not> isSpace c"
  have "dropWhile isSpace t = t" if "\<forall>c\<in>set t. \<not> isSpace c" for t
    using that by (cases t) auto
  from this [of s] this [of "rev s"] show ?thesis using s by (simp add: removeCStringWhiteSpaces_def)
qed

lemma length_decimal_le: "n < 10 ^ k \<Longrightarrow> length (decimal n) \<le> k"
proof (induction k arbitrary: n)
  case (Suc k)
  then have "n div 10 < 10 ^ k" by (simp add: div_less_iff_less_mult ac_simps)
  from Suc.IH [OF this] show ?case by (subst decimal.simps) simp
qed simp

lemma integer_of_text_decimal:
  assumes "fits v" "is_signed \<or> 0 \<le> v"
  shows "integer_of_text is_signed fits (decimal_int v) = Some v"
proof -
  have digs: "list_all CharacterIsDigit (decimal n)" for n
    using decimal_digits [of n] by (simp add: list_all_iff)
  have "\<forall>c\<in>set (decimal_int v). \<not> isSpace c"
    using decimal_digits [of "nat v"] decimal_digits [of "nat (- v)"]
    by (auto simp: decimal_int_def dest: not_space_digit) (auto simp: isSpace_def)
  then have trim: "removeCStringWhiteSpaces (decimal_int v) = decimal_int v"
    by (rule removeCStringWhiteSpaces_id)
  have zero: "CharacterIsDigit (CHR ''0'')" "read_decimal ''0'' = 0"
    using digit_char_0 CharacterIsDigit_char [of 0] read_decimal_snoc [of 0 "[]"]
    by (simp_all add: read_decimal_def)
  have hd: "0 < v \<Longrightarrow> hd (decimal (nat v)) \<noteq> CHR ''-''"
    using digs [of "nat v"] not_sign_digit by (cases "decimal (nat v)") auto
  consider "v = 0" | "v < 0" | "0 < v" by linarith
  then show ?thesis
  proof cases
    case 1
    then show ?thesis using assms zero unfolding integer_of_text_def trim by (simp add: decimal_int_def)
  next
    case 2
    then show ?thesis using assms digs unfolding integer_of_text_def trim by (simp add: decimal_int_def)
  next
    case 3
    then show ?thesis
      using assms digs hd hd_decimal [of "nat v"] unfolding integer_of_text_def trim
      by (simp add: decimal_int_def)
  qed
qed

subsection \<open>Properties\<close>

text \<open>(C25) Casting text to a fixed-width integer agrees with the reference reading of the text: it accepts
  exactly an optional sign and digits between white space, without superfluous leading zeros, whose value the
  type can hold, and returns that value; every other text is refused. The decimal notation of every value of
  the type reads back to the value.\<close>

theorem integer_cast_reads:
  "trySimpleIntegerCast T input = Inr (integer_of_text (\<not> is_unsigned T) (in_range T) input) \<and>
   (in_range T v \<longrightarrow> simpleIntegerCast T typeID (decimal_int v) = Inr v)"
proof -
  have "in_range T v \<Longrightarrow> \<not> is_unsigned T \<or> 0 \<le> v" by (cases T) (auto simp: in_range_def)
  then show ?thesis
    by (auto simp: simpleIntegerCast_def trySimpleIntegerCast_reads integer_of_text_decimal)
qed

theorem integer_cast_reads_witness:
  "simpleIntegerCast INT8 ''INT8'' (decimal_int (- 128)) = Inr (- 128) \<and>
   trySimpleIntegerCast UINT8 '' 256 '' = Inr (integer_of_text False (in_range UINT8) '' 256 '')"
  using integer_cast_reads [of INT8 "[]" "- 128" "''INT8''"] integer_cast_reads [of UINT8 "'' 256 ''" 0]
  by (simp add: in_range_def)

text \<open>(C26) Casting text to a 128-bit integer, which gathers digits in a 64-bit part and flushes it into the
  result, agrees with the reference reading for texts of fewer than 256 characters. The text of every 128-bit
  integer but the smallest is cast back to the integer.\<close>

theorem int128_cast_reads:
  assumes "length input < 256" "int128_val x \<noteq> - (2 ^ 127)"
  shows "trySimpleInt128Cast input = Inr (map_option int128_of (integer_of_text True int128_fits input)) \<and>
    (\<exists>s. Int128_ToString x = Inr s \<and> simpleInt128Cast s = Inr x)"
proof
  show "trySimpleInt128Cast input = Inr (map_option int128_of (integer_of_text True int128_fits input))"
    by (rule trySimpleInt128Cast_reads [OF assms(1)])
  have fits: "int128_fits (int128_val x)"
    using int128_val_bounds [of x] assms(2) unfolding int128_fits_def by linarith
  have "\<bar>int128_val x\<bar> \<le> 2 ^ 127" using int128_val_bounds [of x] by linarith
  then have "\<bar>int128_val x\<bar> < 10 ^ 39" by (rule order_le_less_trans) simp
  then have "length (decimal (nat \<bar>int128_val x\<bar>)) \<le> 39" by (intro length_decimal_le) simp
  then have "length (decimal_int (int128_val x)) < 256"
    by (cases "int128_val x < 0") (auto simp: decimal_int_def)
  then show "\<exists>s. Int128_ToString x = Inr s \<and> simpleInt128Cast s = Inr x"
    using assms(2) fits
    by (simp add: Int128_ToString_val simpleInt128Cast_def trySimpleInt128Cast_reads integer_of_text_decimal)
qed

text \<open>The digits since the last flush are counted in 8 bits: 256 zeros after a flush are forgotten.\<close>

lemma integerCastLoop_digits_append:
  "integerCastLoop_digits h (xs @ ys) s = obind (integerCastLoop_digits h xs s) (integerCastLoop_digits h ys)"
  by (induction xs arbitrary: s) (auto simp: obind_def rbind_def split: sum.splits option.splits)

lemma zeros_after_flush:
  "intermediate s = 0 \<Longrightarrow> 0 \<le> cast_digits s \<Longrightarrow> cast_digits s < 256 \<Longrightarrow>
   integerCastLoop_digits (Int128CastOperation_handleDigit False) (replicate n (CHR ''0'')) s =
     Inr (Some (s\<lparr>cast_digits := (cast_digits s + int n) mod 256\<rparr>))"
proof (induction n arbitrary: s)
  case (Suc n)
  have "Int128CastOperation_handleDigit False s 0 = Inr (Some (s\<lparr>cast_digits := (cast_digits s + 1) mod 256\<rparr>))"
    using Suc.prems by (simp add: Int128CastOperation_handleDigit_def signed_divide_int_def take_bit_eq_mod)
  then show ?case
    using Suc.IH [of "s\<lparr>cast_digits := (cast_digits s + 1) mod 256\<rparr>"] Suc.prems
    by (simp add: digit_value_def CharacterIsDigit_def mod_simps ac_simps)
qed simp

theorem int128_cast_reads_witness:
  "trySimpleInt128Cast ''-5'' = Inr (map_option int128_of (integer_of_text True int128_fits ''-5'')) \<and>
   (\<exists>s. Int128_ToString (int128 0 5) = Inr s \<and> simpleInt128Cast s = Inr (int128 0 5))"
  using int128_cast_reads [of "''-5''" "int128 0 5"] by (simp add: int128_val_def)

text \<open>A numeral with 274 zeros after its first digit is accepted as the number with 18.\<close>

lemma zeros_before_flush:
  "n \<le> 18 \<Longrightarrow>
   integerCastLoop_digits (Int128CastOperation_handleDigit False) (replicate n (CHR ''0''))
     \<lparr>cast_result = r, intermediate = 1, cast_digits = 1\<rparr> =
   Inr (Some \<lparr>cast_result = r, intermediate = 10 ^ n, cast_digits = int n + 1\<rparr>)"
proof (induction n)
  case (Suc n)
  have small: "(10 :: int) ^ n \<le> 10 ^ 17" using Suc.prems by (intro power_increasing) auto
  then have "wrap INT64 (10 ^ n * 10) = 10 ^ n * 10"
    by (intro wrap_id) (auto simp: in_range_def intro: order_trans [of _ 0])
  moreover have "wrap UINT8 (2 + int n) = int n + 2" using Suc.prems by (subst wrap_id) (simp_all add: in_range_def)
  ultimately have "Int128CastOperation_handleDigit False \<lparr>cast_result = r, intermediate = 10 ^ n, cast_digits = int n + 1\<rparr> 0 =
      Inr (Some \<lparr>cast_result = r, intermediate = 10 ^ n * 10, cast_digits = int n + 2\<rparr>)"
    using small by (simp add: Int128CastOperation_handleDigit_def sdiv_10_less)
  then show ?case
    unfolding replicate_Suc replicate_append_same [symmetric] integerCastLoop_digits_append
    using Suc by (simp add: digit_value_def CharacterIsDigit_def mult.commute)
qed simp

lemma first_digits:
  "integerCastLoop_digits (Int128CastOperation_handleDigit False) (CHR ''1'' # replicate 19 (CHR ''0''))
     new_Int128CastData =
   Inr (Some \<lparr>cast_result = int128_of (10 ^ 18), intermediate = 0, cast_digits = 1\<rparr>)"
proof -
  let ?z = "tryCastToTemplate 0" and ?h = "Int128CastOperation_handleDigit False"
  let ?s = "\<lparr>cast_result = ?z, intermediate = 10 ^ 18, cast_digits = 19\<rparr>"
  have one: "?h new_Int128CastData 1 = Inr (Some \<lparr>cast_result = ?z, intermediate = 1, cast_digits = 1\<rparr>)"
    by (simp add: Int128CastOperation_handleDigit_def new_Int128CastData_def sdiv_10_less)
  have z: "int128_val ?z = 0" by (rule tryCastToTemplate_val) auto
  have "int128_denotes ?s (10 ^ 18) 19" by (simp add: int128_denotes_def z int128_fits_def in_range_def)
  from flush_step [OF this] obtain s' where s': "Int128CastData_flush ?s = Inr (Some s')"
    "int128_val (cast_result s') = 10 ^ 18" "intermediate s' = 0" "cast_digits s' = 0"
    by (auto simp: int128_fits_def)
  have "cast_result s' = int128_of (10 ^ 18)" using s'(2) by (metis int128_of_val)
  then have flush: "Int128CastData_flush ?s = Inr (Some \<lparr>cast_result = int128_of (10 ^ 18), intermediate = 0, cast_digits = 0\<rparr>)"
    using s' by (cases s') simp
  have last: "?h ?s 0 = Inr (Some \<lparr>cast_result = int128_of (10 ^ 18), intermediate = 0, cast_digits = 1\<rparr>)"
    unfolding Int128CastOperation_handleDigit_def using flush by (simp add: sdiv_10_less)
  have split: "CHR ''1'' # replicate 19 (CHR ''0'') = [CHR ''1''] @ replicate 18 (CHR ''0'') @ [CHR ''0'']"
    by (simp add: replicate_append_same flip: replicate_Suc)
  show ?thesis
    unfolding split integerCastLoop_digits_append using zeros_before_flush [of 18 ?z] one last
    by (simp add: digit_value_def CharacterIsDigit_def)
qed

theorem int128_cast_accepts_long_zeros:
  "trySimpleInt128Cast (CHR ''1'' # replicate 274 (CHR ''0'')) = Inr (Some (int128_of (10 ^ 18)))"
proof -
  let ?s = "CHR ''1'' # replicate 274 (CHR ''0'')"
  have "?s = (CHR ''1'' # replicate 19 (CHR ''0'')) @ replicate 255 (CHR ''0'')"
    by (simp flip: replicate_add)
  then have loop: "integerCastLoop_digits (Int128CastOperation_handleDigit False) ?s new_Int128CastData =
      Inr (Some \<lparr>cast_result = int128_of (10 ^ 18), intermediate = 0, cast_digits = 0\<rparr>)"
    using zeros_after_flush [of "\<lparr>cast_result = int128_of (10 ^ 18), intermediate = 0, cast_digits = 1\<rparr>" 255]
    by (simp only: integerCastLoop_digits_append first_digits obind_simps) simp
  have "removeCStringWhiteSpaces ?s = ?s"
    by (rule removeCStringWhiteSpaces_id) (auto simp: isSpace_def)
  then have "trySimpleInt128Cast ?s =
      obind (integerCastLoop Int128CastOperation_handleDigit Int128CastOperation_finalize False ?s new_Int128CastData)
        (\<lambda>data. Inr (Some (cast_result data)))"
    by (simp add: trySimpleInt128Cast_def tryIntegerCast_def)
  also have "integerCastLoop Int128CastOperation_handleDigit Int128CastOperation_finalize False ?s new_Int128CastData =
      Inr (Some \<lparr>cast_result = int128_of (10 ^ 18), intermediate = 0, cast_digits = 0\<rparr>)"
    unfolding integerCastLoop_def Let_def if_False drop_0 loop
    by (simp add: Int128CastOperation_finalize_def Int128CastData_flush_def)
  finally show ?thesis by simp
qed

text \<open>(C27) A text is cast to a boolean exactly when it is, up to case and surrounding white space, one
  of the six words for true and false.\<close>

theorem bool_cast_words:
  "castStringToBool input =
     (let word = toLower (removeCStringWhiteSpaces input) in
      if word \<in> {''t'', ''1'', ''true''} then Inr True
      else if word \<in> {''f'', ''0'', ''false''} then Inr False
      else Inl (ConversionException (''Value '' @ input @ '' is not a valid boolean'')))"
proof -
  have nth: "xs = [a, b, c, d] \<longleftrightarrow> length xs = 4 \<and> xs ! 0 = a \<and> xs ! 1 = b \<and> xs ! 2 = c \<and> xs ! 3 = d"
    "xs = [a, b, c, d, e] \<longleftrightarrow> length xs = 5 \<and> xs ! 0 = a \<and> xs ! 1 = b \<and> xs ! 2 = c \<and> xs ! 3 = d \<and> xs ! 4 = e"
    "xs = [a] \<longleftrightarrow> length xs = 1 \<and> xs ! 0 = a" for xs :: string and a b c d e
    by (auto simp: eval_nat_numeral length_Suc_conv)
  show ?thesis
    by (simp add: castStringToBool_def tryCastToBool_def Let_def nth)
qed

end
