(* ===== verification/Interval.thy ===== *)
theory Interval
  imports Cast_String
begin

text \<open>
  Intervals: \<^verbatim>\<open>src/src/common/types/interval_t.cpp\<close> and \<^verbatim>\<open>src/src/include/common/types/interval_t.h\<close>. An interval has
  a number of months, of days and of microseconds. Integers are kept in the ranges of the source's types: a
  conversion \<open>wrap t\<close> is written where the exact result of an operation may leave the range.
\<close>

declare wrap.simps [simp del]

subsection \<open>The units\<close>

datatype DatePartSpecifier =
    YEAR | MONTH | DAY | DECADE | CENTURY | MILLENNIUM | QUARTER | MICROSECOND | MILLISECOND | SECOND | MINUTE
  | HOUR | WEEK

definition MONTHS_PER_MILLENIUM :: int where [simp]: "MONTHS_PER_MILLENIUM = 12000"
definition MONTHS_PER_CENTURY :: int where [simp]: "MONTHS_PER_CENTURY = 1200"
definition MONTHS_PER_DECADE :: int where [simp]: "MONTHS_PER_DECADE = 120"
definition MONTHS_PER_YEAR :: int where [simp]: "MONTHS_PER_YEAR = 12"
definition MONTHS_PER_QUARTER :: int where [simp]: "MONTHS_PER_QUARTER = 3"
definition DAYS_PER_WEEK :: int where [simp]: "DAYS_PER_WEEK = 7"
definition DAYS_PER_MONTH :: int where [simp]: "DAYS_PER_MONTH = 30"
definition MSECS_PER_SEC :: int where [simp]: "MSECS_PER_SEC = 1000"
definition SECS_PER_MINUTE :: int where [simp]: "SECS_PER_MINUTE = 60"
definition MINS_PER_HOUR :: int where [simp]: "MINS_PER_HOUR = 60"
definition HOURS_PER_DAY :: int where [simp]: "HOURS_PER_DAY = 24"
definition MICROS_PER_MSEC :: int where [simp]: "MICROS_PER_MSEC = 1000"
definition MICROS_PER_SEC :: int where [simp]: "MICROS_PER_SEC = MICROS_PER_MSEC * MSECS_PER_SEC"
definition MICROS_PER_MINUTE :: int where [simp]: "MICROS_PER_MINUTE = MICROS_PER_SEC * SECS_PER_MINUTE"
definition MICROS_PER_HOUR :: int where [simp]: "MICROS_PER_HOUR = MICROS_PER_MINUTE * MINS_PER_HOUR"
definition MICROS_PER_DAY :: int where [simp]: "MICROS_PER_DAY = MICROS_PER_HOUR * HOURS_PER_DAY"
definition MICROS_PER_MONTH :: int where [simp]: "MICROS_PER_MONTH = MICROS_PER_DAY * DAYS_PER_MONTH"
definition NANOS_PER_MICRO :: int where [simp]: "NANOS_PER_MICRO = 1000"

record interval_t =
  i_months :: int
  i_days :: int
  i_micros :: int

definition interval :: "int \<Rightarrow> int \<Rightarrow> int \<Rightarrow> interval_t" where
  "interval m d u = \<lparr>i_months = m, i_days = d, i_micros = u\<rparr>"

definition interval_wf :: "interval_t \<Rightarrow> bool" where
  "interval_wf i \<longleftrightarrow> in_range INT32 (i_months i) \<and> in_range INT32 (i_days i) \<and> in_range INT64 (i_micros i)"

subsection \<open>Comparison\<close>

definition normalizeIntervalEntries :: "interval_t \<Rightarrow> int \<times> int \<times> int" where
  "normalizeIntervalEntries input =
     (let extra_months_d = i_days input sdiv DAYS_PER_MONTH;
          extra_months_micros = i_micros input sdiv MICROS_PER_MONTH;
          input = input\<lparr>i_days := i_days input - extra_months_d * DAYS_PER_MONTH\<rparr>;
          input = input\<lparr>i_micros := i_micros input - extra_months_micros * MICROS_PER_MONTH\<rparr>;
          extra_days_micros = i_micros input sdiv MICROS_PER_DAY;
          input = input\<lparr>i_micros := i_micros input - extra_days_micros * MICROS_PER_DAY\<rparr>
      in (i_months input + extra_months_d + extra_months_micros, i_days input + extra_days_micros,
          i_micros input))"

definition Interval_greaterThan :: "interval_t \<Rightarrow> interval_t \<Rightarrow> bool" where
  "Interval_greaterThan left right =
     (let (lMonths, lDays, lMicros) = normalizeIntervalEntries left;
          (rMonths, rDays, rMicros) = normalizeIntervalEntries right
      in if lMonths > rMonths then True
         else if lMonths < rMonths then False
         else if lDays > rDays then True
         else if lDays < rDays then False
         else lMicros > rMicros)"

definition interval_eq :: "interval_t \<Rightarrow> interval_t \<Rightarrow> bool" where
  "interval_eq l r \<longleftrightarrow> i_days l = i_days r \<and> i_months l = i_months r \<and> i_micros l = i_micros r"

definition interval_neq :: "interval_t \<Rightarrow> interval_t \<Rightarrow> bool" where
  "interval_neq l r \<longleftrightarrow> \<not> interval_eq l r"

definition interval_gt :: "interval_t \<Rightarrow> interval_t \<Rightarrow> bool" where
  "interval_gt l r \<longleftrightarrow> Interval_greaterThan l r"

definition interval_le :: "interval_t \<Rightarrow> interval_t \<Rightarrow> bool" where
  "interval_le l r \<longleftrightarrow> \<not> interval_gt l r"

definition interval_ge :: "interval_t \<Rightarrow> interval_t \<Rightarrow> bool" where
  "interval_ge l r \<longleftrightarrow> interval_gt l r \<or> interval_eq l r"

definition interval_lt :: "interval_t \<Rightarrow> interval_t \<Rightarrow> bool" where
  "interval_lt l r \<longleftrightarrow> \<not> interval_ge l r"

subsection \<open>Arithmetic\<close>

definition interval_add :: "interval_t \<Rightarrow> interval_t \<Rightarrow> interval_t" where
  "interval_add l r = interval (wrap INT32 (i_months l + i_months r)) (wrap INT32 (i_days l + i_days r))
     (wrap INT64 (i_micros l + i_micros r))"

definition interval_sub :: "interval_t \<Rightarrow> interval_t \<Rightarrow> interval_t" where
  "interval_sub l r = interval (wrap INT32 (i_months l - i_months r)) (wrap INT32 (i_days l - i_days r))
     (wrap INT64 (i_micros l - i_micros r))"

text \<open>Division by an unsigned number: the operands are converted to unsigned numbers first.\<close>

definition interval_div :: "interval_t \<Rightarrow> int \<Rightarrow> interval_t result" where
  "interval_div i rhs =
     (if rhs = 0 then Inl UndefinedBehaviour else
      let u = wrap UINT64;
          monthsRemainder = wrap INT32 (u (i_months i) mod rhs);
          daysRemainder = wrap INT32 (u (i_days i + monthsRemainder * DAYS_PER_MONTH) mod rhs)
      in Inr (interval (wrap INT32 (u (i_months i) div rhs))
           (wrap INT32 (u (i_days i + monthsRemainder * DAYS_PER_MONTH) div rhs))
           (wrap INT64 (u (wrap INT64 (i_micros i + wrap INT64 (daysRemainder * MICROS_PER_DAY))) div rhs))))"

definition getMicro :: "interval_t \<Rightarrow> int" where
  "getMicro val =
     wrap INT64 (i_micros val + i_months val * MICROS_PER_MONTH + i_days val * MICROS_PER_DAY)"

definition Interval_getNanoseconds :: "interval_t \<Rightarrow> int" where
  "Interval_getNanoseconds val = wrap INT64 (getMicro val * NANOS_PER_MICRO)"

fun getIntervalPart :: "DatePartSpecifier \<Rightarrow> interval_t \<Rightarrow> int result" where
  "getIntervalPart YEAR i = Inr (i_months i sdiv MONTHS_PER_YEAR)"
| "getIntervalPart MONTH i = Inr (i_months i smod MONTHS_PER_YEAR)"
| "getIntervalPart DAY i = Inr (i_days i)"
| "getIntervalPart DECADE i = Inr (i_months i sdiv MONTHS_PER_DECADE)"
| "getIntervalPart CENTURY i = Inr (i_months i sdiv MONTHS_PER_CENTURY)"
| "getIntervalPart MILLENNIUM i = Inr (i_months i sdiv MONTHS_PER_MILLENIUM)"
| "getIntervalPart QUARTER i = Inr (i_months i smod MONTHS_PER_YEAR sdiv MONTHS_PER_QUARTER + 1)"
| "getIntervalPart MICROSECOND i = Inr (i_micros i smod MICROS_PER_MINUTE)"
| "getIntervalPart MILLISECOND i = Inr (i_micros i smod MICROS_PER_MINUTE sdiv MICROS_PER_MSEC)"
| "getIntervalPart SECOND i = Inr (i_micros i smod MICROS_PER_MINUTE sdiv MICROS_PER_SEC)"
| "getIntervalPart MINUTE i = Inr (i_micros i smod MICROS_PER_HOUR sdiv MICROS_PER_MINUTE)"
| "getIntervalPart HOUR i = Inr (wrap INT32 (i_micros i sdiv MICROS_PER_HOUR))"
| "getIntervalPart WEEK i = Inl InternalException"

subsection \<open>Unit names\<close>

definition Interval_addition :: "interval_t \<Rightarrow> int \<Rightarrow> string \<Rightarrow> interval_t result" where
  "Interval_addition res number specifierStr =
     (let s = toLower specifierStr;
          months = (\<lambda>n. Inr (res\<lparr>i_months := wrap INT32 (i_months res + n)\<rparr>));
          days = (\<lambda>n. Inr (res\<lparr>i_days := wrap INT32 (i_days res + n)\<rparr>));
          micros = (\<lambda>n. Inr (res\<lparr>i_micros := wrap INT64 (i_micros res + n)\<rparr>))
      in if s = ''year'' \<or> s = ''years'' \<or> s = ''y'' then months (number * MONTHS_PER_YEAR)
         else if s = ''month'' \<or> s = ''months'' \<or> s = ''mon'' then months number
         else if s = ''day'' \<or> s = ''days'' \<or> s = ''d'' then days number
         else if s = ''hour'' \<or> s = ''hours'' \<or> s = ''h'' then micros (number * MICROS_PER_HOUR)
         else if s = ''minute'' \<or> s = ''minutes'' \<or> s = ''m'' then micros (number * MICROS_PER_MINUTE)
         else if s = ''second'' \<or> s = ''seconds'' \<or> s = ''s'' then micros (number * MICROS_PER_SEC)
         else if s = ''millisecond'' \<or> s = ''milliseconds'' \<or> s = ''ms'' \<or> s = ''msec''
         then micros (number * MICROS_PER_MSEC)
         else if s = ''microsecond'' \<or> s = ''microseconds'' \<or> s = ''us'' then micros number
         else Inl (ConversionException (''Unrecognized interval specifier string: '' @ s @ ''.'')))"

definition tryGetDatePartSpecifier :: "string \<Rightarrow> DatePartSpecifier result" where
  "tryGetDatePartSpecifier specifier =
     (let s = toLower specifier in
      if s \<in> {''year'', ''yr'', ''y'', ''years'', ''yrs''} then Inr YEAR
      else if s \<in> {''month'', ''mon'', ''months'', ''mons''} then Inr MONTH
      else if s \<in> {''day'', ''days'', ''d'', ''dayofmonth''} then Inr DAY
      else if s \<in> {''decade'', ''dec'', ''decades'', ''decs''} then Inr DECADE
      else if s \<in> {''century'', ''cent'', ''centuries'', ''c''} then Inr CENTURY
      else if s \<in> {''millennium'', ''mil'', ''millenniums'', ''millennia'', ''mils'', ''millenium'', ''milleniums''}
      then Inr MILLENNIUM
      else if s \<in> {''microseconds'', ''microsecond'', ''us'', ''usec'', ''usecs'', ''usecond'', ''useconds''}
      then Inr MICROSECOND
      else if s \<in> {''milliseconds'', ''millisecond'', ''ms'', ''msec'', ''msecs'', ''msecond'', ''mseconds''}
      then Inr MILLISECOND
      else if s \<in> {''second'', ''sec'', ''seconds'', ''secs'', ''s''} then Inr SECOND
      else if s \<in> {''minute'', ''min'', ''minutes'', ''mins'', ''m''} then Inr MINUTE
      else if s \<in> {''hour'', ''hr'', ''hours'', ''hrs'', ''h''} then Inr HOUR
      else if s \<in> {''week'', ''weeks'', ''w'', ''weekofyear''} then Inr WEEK
      else if s \<in> {''quarter'', ''quarters''} then Inr QUARTER
      else Inl (ConversionException (''Unrecognized interval specifier string: '' @ s @ ''.'')))"

subsection \<open>Facts on intervals\<close>

text \<open>The length of an interval in microseconds, with 30 days to a month.\<close>

definition interval_length :: "interval_t \<Rightarrow> int" where
  "interval_length i = i_micros i + i_months i * MICROS_PER_MONTH + i_days i * MICROS_PER_DAY"

lemma normalize_length:
  assumes "normalizeIntervalEntries i = (m, d, u)"
  shows "u + m * MICROS_PER_MONTH + d * MICROS_PER_DAY = interval_length i"
  using assms unfolding normalizeIntervalEntries_def Let_def interval_length_def
  by (auto simp: algebra_simps)

lemma greaterThan_iff:
  "Interval_greaterThan l r \<longleftrightarrow>
    (case (normalizeIntervalEntries l, normalizeIntervalEntries r) of
       ((m, d, u), (m', d', u')) \<Rightarrow> m' < m \<or> m' = m \<and> (d' < d \<or> d' = d \<and> u' < u))"
  unfolding Interval_greaterThan_def Let_def by (auto split: prod.splits)

text \<open>The division of a mixed-radix number: the remainder of each place is carried to the next one.\<close>

lemma mixed_radix_div:
  fixes n A B :: int
  assumes "0 < n"
  shows "m div n * (A * B) + (d + m mod n * A) div n * B + (u + (d + m mod n * A) mod n * B) div n =
    (u + m * (A * B) + d * B) div n"
proof -
  let ?x = "d + m mod n * A"
  have "u + m * (A * B) + d * B = (u + ?x mod n * B) + n * (m div n * (A * B) + ?x div n * B)"
  proof -
    have m: "m = m div n * n + m mod n" and x: "?x = ?x div n * n + ?x mod n" by simp_all
    have "u + m * (A * B) + d * B = u + m div n * n * (A * B) + ?x * B"
      by (subst (1) m) (simp only: algebra_simps)
    also have "\<dots> = u + m div n * n * (A * B) + (?x div n * n + ?x mod n) * B" using x by simp
    finally show ?thesis by (simp only: algebra_simps)
  qed
  then show ?thesis using assms by (simp only: div_mult_self2)
qed

lemma interval_div_exact:
  assumes wf: "interval_wf i" and pos: "0 \<le> i_months i" "0 \<le> i_days i" "0 \<le> i_micros i" "0 < n"
    and n: "i_micros i + n * MICROS_PER_DAY < 2 ^ 63"
  defines "x \<equiv> i_days i + i_months i mod n * DAYS_PER_MONTH"
  shows "interval_div i n = Inr (interval (i_months i div n) (x div n) ((i_micros i + x mod n * MICROS_PER_DAY) div n))"
proof -
  have r: "0 \<le> i_months i mod n" "i_months i mod n < n" "0 \<le> x mod n" "x mod n < n" "0 \<le> x"
    using pos by (auto simp: x_def)
  have small: "n < 2 ^ 31" using n pos by (simp add: algebra_simps)
  have lim: "i_months i < 2 ^ 31" "i_days i < 2 ^ 31" using wf by (auto simp: interval_wf_def in_range_def)
  have m: "i_months i div n \<le> i_months i" "0 \<le> i_months i div n"
    using pos div_le_self [of "i_months i" n] by (auto simp: div_int_pos_iff)
  have d: "x div n \<le> i_days i div n + 30" "0 \<le> x div n"
  proof -
    have "x \<le> i_days i + n * 30" using r(2) by (simp add: x_def)
    then have "x div n \<le> (i_days i + n * 30) div n" by (rule zdiv_mono1 [OF _ pos(4)])
    then show "x div n \<le> i_days i div n + 30" using pos(4) by simp
    show "0 \<le> x div n" using r(5) pos(4) by (simp add: div_int_pos_iff)
  qed
  have d': "x div n < 2 ^ 31"
  proof (cases "n = 1")
    case False
    then have "i_days i div n \<le> i_days i div 2" using pos by (intro zdiv_mono2) auto
    then show ?thesis using d(1) lim(2) by simp
  qed (use lim in \<open>simp add: x_def\<close>)
  define y where "y = i_micros i + x mod n * MICROS_PER_DAY"
  have y: "0 \<le> y" "y < 2 ^ 63" "y div n \<le> y" "0 \<le> y div n"
    using pos r n div_le_self [of y n] by (auto simp: y_def div_int_pos_iff)
  have xb: "x < 2 ^ 64" using r(2) small lim by (simp add: x_def)
  have u: "wrap UINT64 v = v" if "0 \<le> v" "v < 2 ^ 64" for v using that by (intro wrap_id) (simp add: in_range_def)
  have s: "wrap INT32 v = v" if "0 \<le> v" "v < 2 ^ 31" for v using that by (intro wrap_id) (simp add: in_range_def)
  have l: "wrap INT64 v = v" if "0 \<le> v" "v < 2 ^ 63" for v using that by (intro wrap_id) (simp add: in_range_def)
  have w1: "wrap UINT64 (i_months i) = i_months i" "wrap UINT64 x = x" "wrap UINT64 y = y"
    using pos(1) lim(1) r(5) xb y(1,2) by (auto intro!: u)
  have w2: "wrap INT32 (i_months i mod n) = i_months i mod n" "wrap INT32 (x mod n) = x mod n"
    "wrap INT32 (i_months i div n) = i_months i div n" "wrap INT32 (x div n) = x div n"
    using r(1-4) small m lim(1) d(2) d' by - (rule s; linarith)+
  have w3: "wrap INT64 (x mod n * MICROS_PER_DAY) = x mod n * MICROS_PER_DAY" "wrap INT64 y = y"
    "wrap INT64 (y div n) = y div n"
    using y r(3) pos(3) by (auto intro!: l simp: y_def)
  show ?thesis
    unfolding interval_div_def Let_def w1 w2 x_def [symmetric]
    unfolding w1 w2 w3 y_def [symmetric] using pos(4) by (simp add: w1 w3)
qed

subsection \<open>Properties\<close>

text \<open>(C39) Dividing an interval whose parts are not negative by a positive number, as long as the microseconds with the divisor
  many days added fit 64 bits: every part is divided and rounded down, the remainder of the months goes to the days, 30 for a
  month, and the remainder of the days goes to the microseconds. Where
  the length of the interval in microseconds fits 64 bits, it is divided and rounded down. A negative part is excluded: the
  code converts it to an unsigned number first.\<close>

theorem interval_division_carries:
  fixes i n
  defines "x \<equiv> i_days i + i_months i mod n * DAYS_PER_MONTH"
  assumes "interval_wf i" "0 \<le> i_months i" "0 \<le> i_days i" "0 \<le> i_micros i" "0 < n"
    and "i_micros i + n * MICROS_PER_DAY < 2 ^ 63"
  shows "\<exists>q. interval_div i n = Inr q \<and> i_months q = i_months i div n \<and> i_days q = x div n \<and>
    i_micros q = (i_micros i + x mod n * MICROS_PER_DAY) div n \<and>
    (interval_length i < 2 ^ 63 \<longrightarrow> getMicro q = getMicro i div n)"
proof -
  let ?q = "interval (i_months i div n) (x div n) ((i_micros i + x mod n * MICROS_PER_DAY) div n)"
  have len: "getMicro j = interval_length j" if "0 \<le> interval_length j" "interval_length j < 2 ^ 63" for j
    using that unfolding getMicro_def interval_length_def by (intro wrap_id) (simp add: in_range_def)
  have nonneg: "0 \<le> interval_length i" using assms by (simp add: interval_length_def)
  have "interval_length ?q = interval_length i div n"
    using mixed_radix_div [OF assms(6), where m = "i_months i" and d = "i_days i" and u = "i_micros i" and
        A = DAYS_PER_MONTH and B = MICROS_PER_DAY]
    by (simp add: interval_length_def interval_def algebra_simps x_def)
  moreover have "interval_length i div n \<le> interval_length i" "0 \<le> interval_length i div n"
    using nonneg assms(6) div_le_self [of "interval_length i" n] by (auto simp: div_int_pos_iff)
  ultimately have "interval_length i < 2 ^ 63 \<Longrightarrow> getMicro ?q = getMicro i div n"
    using len [of i] len [of ?q] nonneg by simp
  then show ?thesis
    using interval_div_exact [OF assms(2-7)] unfolding x_def [symmetric] by (intro exI [of _ ?q]) (simp add: interval_def)
qed

theorem interval_division_carries_witness:
  "interval_div (interval 1 1 0) 2 = Inr (interval 0 15 43200000000)"
proof -
  have "interval_wf (interval 1 1 0)" "interval_length (interval 1 1 0) < 2 ^ 63"
    by (simp_all add: interval_def interval_wf_def in_range_def interval_length_def)
  with interval_division_carries [of "interval 1 1 0" 2] obtain q
    where "interval_div (interval 1 1 0) 2 = Inr q" "i_months q = 0" "i_days q = 15" "i_micros q = 43200000000"
    by (auto simp: interval_def)
  then show ?thesis by (cases q) (simp add: interval_def)
qed

text \<open>The comparison of intervals is a strict weak order: it is irreflexive and transitive, and two
  intervals of which neither is greater have the same length.\<close>

theorem interval_order:
  "\<not> Interval_greaterThan a a \<and>
   (Interval_greaterThan a b \<and> Interval_greaterThan b c \<longrightarrow> Interval_greaterThan a c) \<and>
   (\<not> Interval_greaterThan a b \<and> \<not> Interval_greaterThan b a \<longrightarrow> interval_length a = interval_length b)"
proof -
  obtain m d u m' d' u' m'' d'' u'' where n: "normalizeIntervalEntries a = (m, d, u)"
    "normalizeIntervalEntries b = (m', d', u')" "normalizeIntervalEntries c = (m'', d'', u'')"
    by (meson prod_cases3)
  show ?thesis
    using normalize_length [OF n(1)] normalize_length [OF n(2)] unfolding greaterThan_iff n prod.case
    by (smt (verit))
qed

theorem interval_order_witness:
  "Interval_greaterThan (interval 1 0 0) (interval 0 29 0) \<and>
   Interval_greaterThan (interval 0 29 0) (interval 0 28 86399999999) \<and>
   Interval_greaterThan (interval 1 0 0) (interval 0 28 86399999999) \<and>
   interval_length (interval 1 0 0) = interval_length (interval 0 30 0)"
proof -
  have "Interval_greaterThan (interval 1 0 0) (interval 0 29 0)"
    "Interval_greaterThan (interval 0 29 0) (interval 0 28 86399999999)"
    "\<not> Interval_greaterThan (interval 1 0 0) (interval 0 30 0)"
    "\<not> Interval_greaterThan (interval 0 30 0) (interval 1 0 0)"
    by (simp_all add: Interval_greaterThan_def normalizeIntervalEntries_def interval_def signed_divide_int_def)
  then show ?thesis
    using interval_order [of "interval 1 0 0" "interval 0 29 0" "interval 0 28 86399999999"]
      interval_order [of "interval 1 0 0" "interval 0 30 0" "interval 0 0 0"] by blast
qed

subsection \<open>Where the operators disagree\<close>

text \<open>Equality compares the parts and the order their normal form, so an interval of one month and one of 30 days
  are each less than the other.\<close>

theorem interval_lt_both_ways:
  "interval_lt (interval 1 0 0) (interval 0 30 0) \<and> interval_lt (interval 0 30 0) (interval 1 0 0)"
  by (simp add: interval_lt_def interval_ge_def interval_gt_def interval_eq_def Interval_greaterThan_def
      normalizeIntervalEntries_def interval_def signed_divide_int_def)

text \<open>29 days and 24 hours are as long as one month, but less than it.\<close>

theorem interval_order_ignores_carry:
  "interval_length (interval 0 29 MICROS_PER_DAY) = interval_length (interval 1 0 0) \<and>
   Interval_greaterThan (interval 1 0 0) (interval 0 29 MICROS_PER_DAY)"
  by (simp add: Interval_greaterThan_def normalizeIntervalEntries_def interval_def interval_length_def
      signed_divide_int_def)

text \<open>A negative part is converted to an unsigned number by the division: a third of minus three days.\<close>

theorem interval_div_negative:
  "interval_div (interval 0 (- 3) 0) 3 = Inr (interval 0 1431655764 28800000000)"
  by (simp add: interval_div_def interval_def wrap.simps)

end
