(* ===== verification/Date.thy ===== *)
theory Date
  imports Interval
begin

text \<open>
  Dates: \<^verbatim>\<open>src/src/common/types/date_t.cpp\<close> and \<^verbatim>\<open>src/src/include/common/types/date_t.h\<close>. A \<^verbatim>\<open>date_t\<close> is its one
  field, the number of days since 1970-01-01. The conversions go through tables of the days of the months, of the month
  of every day of a year and of the first days of the 400 years from 1970. The \<^verbatim>\<open>while\<close> loops are functions with a
  measure.
\<close>

type_synonym date_t = int

subsection \<open>Tables\<close>

definition NORMAL_DAYS :: "int list" where
  "NORMAL_DAYS =
     [0, 31, 28, 31, 30, 31, 30, 31, 31, 30, 31, 30, 31]"

definition LEAP_DAYS :: "int list" where
  "LEAP_DAYS =
     [0, 31, 29, 31, 30, 31, 30, 31, 31, 30, 31, 30, 31]"

definition CUMULATIVE_LEAP_DAYS :: "int list" where
  "CUMULATIVE_LEAP_DAYS =
     [0, 31, 60, 91, 121, 152, 182, 213, 244, 274, 305, 335, 366]"

definition CUMULATIVE_DAYS :: "int list" where
  "CUMULATIVE_DAYS =
     [0, 31, 59, 90, 120, 151, 181, 212, 243, 273, 304, 334, 365]"

definition MONTH_PER_DAY_OF_YEAR :: "int list" where
  "MONTH_PER_DAY_OF_YEAR =
     [1, 1, 1, 1, 1, 1, 1, 1, 1, 1, 1, 1, 1, 1, 1, 1, 1, 1, 1, 1, 1, 1, 1, 1, 1, 1, 1, 1, 1, 1, 1, 2, 2, 2, 2,
      2, 2, 2, 2, 2, 2, 2, 2, 2, 2, 2, 2, 2, 2, 2, 2, 2, 2, 2, 2, 2, 2, 2, 2, 3, 3, 3, 3, 3, 3, 3, 3, 3, 3, 3,
      3, 3, 3, 3, 3, 3, 3, 3, 3, 3, 3, 3, 3, 3, 3, 3, 3, 3, 3, 3, 4, 4, 4, 4, 4, 4, 4, 4, 4, 4, 4, 4, 4, 4, 4,
      4, 4, 4, 4, 4, 4, 4, 4, 4, 4, 4, 4, 4, 4, 4, 5, 5, 5, 5, 5, 5, 5, 5, 5, 5, 5, 5, 5, 5, 5, 5, 5, 5, 5, 5,
      5, 5, 5, 5, 5, 5, 5, 5, 5, 5, 5, 6, 6, 6, 6, 6, 6, 6, 6, 6, 6, 6, 6, 6, 6, 6, 6, 6, 6, 6, 6, 6, 6, 6, 6,
      6, 6, 6, 6, 6, 6, 7, 7, 7, 7, 7, 7, 7, 7, 7, 7, 7, 7, 7, 7, 7, 7, 7, 7, 7, 7, 7, 7, 7, 7, 7, 7, 7, 7, 7,
      7, 7, 8, 8, 8, 8, 8, 8, 8, 8, 8, 8, 8, 8, 8, 8, 8, 8, 8, 8, 8, 8, 8, 8, 8, 8, 8, 8, 8, 8, 8, 8, 8, 9, 9,
      9, 9, 9, 9, 9, 9, 9, 9, 9, 9, 9, 9, 9, 9, 9, 9, 9, 9, 9, 9, 9, 9, 9, 9, 9, 9, 9, 9, 10, 10, 10, 10, 10,
      10, 10, 10, 10, 10, 10, 10, 10, 10, 10, 10, 10, 10, 10, 10, 10, 10, 10, 10, 10, 10, 10, 10, 10, 10, 10,
      11, 11, 11, 11, 11, 11, 11, 11, 11, 11, 11, 11, 11, 11, 11, 11, 11, 11, 11, 11, 11, 11, 11, 11, 11, 11,
      11, 11, 11, 11, 12, 12, 12, 12, 12, 12, 12, 12, 12, 12, 12, 12, 12, 12, 12, 12, 12, 12, 12, 12, 12, 12,
      12, 12, 12, 12, 12, 12, 12, 12, 12]"

definition LEAP_MONTH_PER_DAY_OF_YEAR :: "int list" where
  "LEAP_MONTH_PER_DAY_OF_YEAR =
     [1, 1, 1, 1, 1, 1, 1, 1, 1, 1, 1, 1, 1, 1, 1, 1, 1, 1, 1, 1, 1, 1, 1, 1, 1, 1, 1, 1, 1, 1, 1, 2, 2, 2, 2,
      2, 2, 2, 2, 2, 2, 2, 2, 2, 2, 2, 2, 2, 2, 2, 2, 2, 2, 2, 2, 2, 2, 2, 2, 2, 3, 3, 3, 3, 3, 3, 3, 3, 3, 3,
      3, 3, 3, 3, 3, 3, 3, 3, 3, 3, 3, 3, 3, 3, 3, 3, 3, 3, 3, 3, 3, 4, 4, 4, 4, 4, 4, 4, 4, 4, 4, 4, 4, 4, 4,
      4, 4, 4, 4, 4, 4, 4, 4, 4, 4, 4, 4, 4, 4, 4, 4, 5, 5, 5, 5, 5, 5, 5, 5, 5, 5, 5, 5, 5, 5, 5, 5, 5, 5, 5,
      5, 5, 5, 5, 5, 5, 5, 5, 5, 5, 5, 5, 6, 6, 6, 6, 6, 6, 6, 6, 6, 6, 6, 6, 6, 6, 6, 6, 6, 6, 6, 6, 6, 6, 6,
      6, 6, 6, 6, 6, 6, 6, 7, 7, 7, 7, 7, 7, 7, 7, 7, 7, 7, 7, 7, 7, 7, 7, 7, 7, 7, 7, 7, 7, 7, 7, 7, 7, 7, 7,
      7, 7, 7, 8, 8, 8, 8, 8, 8, 8, 8, 8, 8, 8, 8, 8, 8, 8, 8, 8, 8, 8, 8, 8, 8, 8, 8, 8, 8, 8, 8, 8, 8, 8, 9,
      9, 9, 9, 9, 9, 9, 9, 9, 9, 9, 9, 9, 9, 9, 9, 9, 9, 9, 9, 9, 9, 9, 9, 9, 9, 9, 9, 9, 9, 10, 10, 10, 10, 10,
      10, 10, 10, 10, 10, 10, 10, 10, 10, 10, 10, 10, 10, 10, 10, 10, 10, 10, 10, 10, 10, 10, 10, 10, 10, 10,
      11, 11, 11, 11, 11, 11, 11, 11, 11, 11, 11, 11, 11, 11, 11, 11, 11, 11, 11, 11, 11, 11, 11, 11, 11, 11,
      11, 11, 11, 11, 12, 12, 12, 12, 12, 12, 12, 12, 12, 12, 12, 12, 12, 12, 12, 12, 12, 12, 12, 12, 12, 12,
      12, 12, 12, 12, 12, 12, 12, 12, 12]"

definition CUMULATIVE_YEAR_DAYS :: "int list" where
  "CUMULATIVE_YEAR_DAYS =
     [0, 365, 730, 1096, 1461, 1826, 2191, 2557, 2922, 3287, 3652, 4018, 4383, 4748, 5113, 5479, 5844, 6209,
      6574, 6940, 7305, 7670, 8035, 8401, 8766, 9131, 9496, 9862, 10227, 10592, 10957, 11323, 11688, 12053,
      12418, 12784, 13149, 13514, 13879, 14245, 14610, 14975, 15340, 15706, 16071, 16436, 16801, 17167, 17532,
      17897, 18262, 18628, 18993, 19358, 19723, 20089, 20454, 20819, 21184, 21550, 21915, 22280, 22645, 23011,
      23376, 23741, 24106, 24472, 24837, 25202, 25567, 25933, 26298, 26663, 27028, 27394, 27759, 28124, 28489,
      28855, 29220, 29585, 29950, 30316, 30681, 31046, 31411, 31777, 32142, 32507, 32872, 33238, 33603, 33968,
      34333, 34699, 35064, 35429, 35794, 36160, 36525, 36890, 37255, 37621, 37986, 38351, 38716, 39082, 39447,
      39812, 40177, 40543, 40908, 41273, 41638, 42004, 42369, 42734, 43099, 43465, 43830, 44195, 44560, 44926,
      45291, 45656, 46021, 46387, 46752, 47117, 47482, 47847, 48212, 48577, 48942, 49308, 49673, 50038, 50403,
      50769, 51134, 51499, 51864, 52230, 52595, 52960, 53325, 53691, 54056, 54421, 54786, 55152, 55517, 55882,
      56247, 56613, 56978, 57343, 57708, 58074, 58439, 58804, 59169, 59535, 59900, 60265, 60630, 60996, 61361,
      61726, 62091, 62457, 62822, 63187, 63552, 63918, 64283, 64648, 65013, 65379, 65744, 66109, 66474, 66840,
      67205, 67570, 67935, 68301, 68666, 69031, 69396, 69762, 70127, 70492, 70857, 71223, 71588, 71953, 72318,
      72684, 73049, 73414, 73779, 74145, 74510, 74875, 75240, 75606, 75971, 76336, 76701, 77067, 77432, 77797,
      78162, 78528, 78893, 79258, 79623, 79989, 80354, 80719, 81084, 81450, 81815, 82180, 82545, 82911, 83276,
      83641, 84006, 84371, 84736, 85101, 85466, 85832, 86197, 86562, 86927, 87293, 87658, 88023, 88388, 88754,
      89119, 89484, 89849, 90215, 90580, 90945, 91310, 91676, 92041, 92406, 92771, 93137, 93502, 93867, 94232,
      94598, 94963, 95328, 95693, 96059, 96424, 96789, 97154, 97520, 97885, 98250, 98615, 98981, 99346, 99711,
      100076, 100442, 100807, 101172, 101537, 101903, 102268, 102633, 102998, 103364, 103729, 104094, 104459,
      104825, 105190, 105555, 105920, 106286, 106651, 107016, 107381, 107747, 108112, 108477, 108842, 109208,
      109573, 109938, 110303, 110669, 111034, 111399, 111764, 112130, 112495, 112860, 113225, 113591, 113956,
      114321, 114686, 115052, 115417, 115782, 116147, 116513, 116878, 117243, 117608, 117974, 118339, 118704,
      119069, 119435, 119800, 120165, 120530, 120895, 121260, 121625, 121990, 122356, 122721, 123086, 123451,
      123817, 124182, 124547, 124912, 125278, 125643, 126008, 126373, 126739, 127104, 127469, 127834, 128200,
      128565, 128930, 129295, 129661, 130026, 130391, 130756, 131122, 131487, 131852, 132217, 132583, 132948,
      133313, 133678, 134044, 134409, 134774, 135139, 135505, 135870, 136235, 136600, 136966, 137331, 137696,
      138061, 138427, 138792, 139157, 139522, 139888, 140253, 140618, 140983, 141349, 141714, 142079, 142444,
      142810, 143175, 143540, 143905, 144271, 144636, 145001, 145366, 145732, 146097]"

definition MIN_YEAR :: int where "MIN_YEAR = - 290307"
definition MAX_YEAR :: int where "MAX_YEAR = 294247"
definition EPOCH_YEAR :: int where "EPOCH_YEAR = 1970"
definition YEAR_INTERVAL :: int where "YEAR_INTERVAL = 400"
definition DAYS_PER_YEAR_INTERVAL :: int where "DAYS_PER_YEAR_INTERVAL = 146097"

text \<open>An array access with an index that is an integer.\<close>

definition at :: "int list \<Rightarrow> int \<Rightarrow> int" where
  "at xs i = xs ! nat i"

subsection \<open>Conversion\<close>

function extractYearOffset_up :: "int \<Rightarrow> int \<Rightarrow> int \<times> int" where
  "extractYearOffset_up n year =
     (if n < 0 then extractYearOffset_up (n + DAYS_PER_YEAR_INTERVAL) (year - YEAR_INTERVAL) else (n, year))"
  by pat_completeness auto

termination extractYearOffset_up
  by (relation "measure (\<lambda>(n, year). nat (- n))") (auto simp: DAYS_PER_YEAR_INTERVAL_def)

function extractYearOffset_down :: "int \<Rightarrow> int \<Rightarrow> int \<times> int" where
  "extractYearOffset_down n year =
     (if n \<ge> DAYS_PER_YEAR_INTERVAL
      then extractYearOffset_down (n - DAYS_PER_YEAR_INTERVAL) (year + YEAR_INTERVAL) else (n, year))"
  by pat_completeness auto

termination extractYearOffset_down
  by (relation "measure (\<lambda>(n, year). nat n)") (auto simp: DAYS_PER_YEAR_INTERVAL_def)

text \<open>The search for the year downwards from an upper bound; the first entry of the table is 0, and \<open>n\<close> is not
  negative.\<close>

fun extractYearOffset_search :: "int \<Rightarrow> nat \<Rightarrow> nat" where
  "extractYearOffset_search n 0 = 0"
| "extractYearOffset_search n (Suc k) =
     (if n < CUMULATIVE_YEAR_DAYS ! Suc k then extractYearOffset_search n k else Suc k)"

text \<open>The normalised \<open>n\<close>, the year and its offset from the first year of the table.\<close>

definition extractYearOffset :: "int \<Rightarrow> int \<times> int \<times> int" where
  "extractYearOffset n =
     (let year = EPOCH_YEAR;
          (n, year) = extractYearOffset_up n year;
          (n, year) = extractYearOffset_down n year;
          year_offset = int (extractYearOffset_search n (nat (n sdiv 365)))
      in (n, year + year_offset, year_offset))"

definition Date_convert :: "date_t \<Rightarrow> int \<times> int \<times> int" where
  "Date_convert date =
     (let (n, out_year, year_offset) = extractYearOffset date;
          out_day = n - at CUMULATIVE_YEAR_DAYS year_offset;
          is_leap_year =
            (at CUMULATIVE_YEAR_DAYS (year_offset + 1) - at CUMULATIVE_YEAR_DAYS year_offset = 366)
      in if is_leap_year then
           let out_month = at LEAP_MONTH_PER_DAY_OF_YEAR out_day;
               out_day = out_day - at CUMULATIVE_LEAP_DAYS (out_month - 1)
           in (out_year, out_month, out_day + 1)
         else
           let out_month = at MONTH_PER_DAY_OF_YEAR out_day;
               out_day = out_day - at CUMULATIVE_DAYS (out_month - 1)
           in (out_year, out_month, out_day + 1))"

definition isLeapYear :: "int \<Rightarrow> bool" where
  "isLeapYear year \<longleftrightarrow> year smod 4 = 0 \<and> (year smod 100 \<noteq> 0 \<or> year smod 400 = 0)"

definition Date_isValid :: "int \<Rightarrow> int \<Rightarrow> int \<Rightarrow> bool" where
  "Date_isValid year month day =
     (if month < 1 \<or> month > 12 then False
      else if year < MIN_YEAR \<or> year > MAX_YEAR then False
      else if day < 1 then False
      else if isLeapYear year then day \<le> at LEAP_DAYS month else day \<le> at NORMAL_DAYS month)"

definition monthDays :: "int \<Rightarrow> int \<Rightarrow> int" where
  "monthDays year month = (if isLeapYear year then at LEAP_DAYS month else at NORMAL_DAYS month)"

function fromDate_up :: "int \<Rightarrow> int \<Rightarrow> int \<times> int" where
  "fromDate_up year n =
     (if year < 1970 then fromDate_up (year + YEAR_INTERVAL) (n - DAYS_PER_YEAR_INTERVAL) else (year, n))"
  by pat_completeness auto

termination fromDate_up
  by (relation "measure (\<lambda>(year, n). nat (1970 - year))") (auto simp: YEAR_INTERVAL_def)

function fromDate_down :: "int \<Rightarrow> int \<Rightarrow> int \<times> int" where
  "fromDate_down year n =
     (if year \<ge> 2370 then fromDate_down (year - YEAR_INTERVAL) (n + DAYS_PER_YEAR_INTERVAL) else (year, n))"
  by pat_completeness auto

termination fromDate_down
  by (relation "measure (\<lambda>(year, n). nat year)") (auto simp: YEAR_INTERVAL_def)

definition fromDate :: "int \<Rightarrow> int \<Rightarrow> int \<Rightarrow> date_t result" where
  "fromDate year month day =
     (if \<not> Date_isValid year month day
      then Inl (ConversionException (''Date out of range: '' @ decimal_int year @ ''-'' @ decimal_int month @
             ''-'' @ decimal_int day @ ''.''))
      else
        let n = 0;
            (year, n) = fromDate_up year n;
            (year, n) = fromDate_down year n;
            n = n + at CUMULATIVE_YEAR_DAYS (year - 1970);
            n = n + (if isLeapYear year then at CUMULATIVE_LEAP_DAYS (month - 1) else at CUMULATIVE_DAYS (month - 1));
            n = n + (day - 1)
        in Inr n)"

declare extractYearOffset_up.simps [simp del] extractYearOffset_down.simps [simp del]
  fromDate_up.simps [simp del] fromDate_down.simps [simp del]

subsection \<open>Arithmetic\<close>

definition date_add_days :: "date_t \<Rightarrow> int \<Rightarrow> date_t" where
  "date_add_days date day = wrap INT32 (date + day)"

definition date_sub_days :: "date_t \<Rightarrow> int \<Rightarrow> date_t" where
  "date_sub_days date day = wrap INT32 (date - day)"

definition date_diff :: "date_t \<Rightarrow> date_t \<Rightarrow> int" where
  "date_diff l r = wrap INT32 (l - r)"

definition date_add_interval :: "date_t \<Rightarrow> interval_t \<Rightarrow> date_t result" where
  "date_add_interval date i =
     rbind
       (if i_months i \<noteq> 0 then
          let (year, month, day) = Date_convert date;
              year_diff = i_months i sdiv MONTHS_PER_YEAR;
              year = year + year_diff;
              month = month + (i_months i - year_diff * MONTHS_PER_YEAR);
              (year, month) = (if month > MONTHS_PER_YEAR then (year + 1, month - MONTHS_PER_YEAR)
                               else if month \<le> 0 then (year - 1, month + MONTHS_PER_YEAR)
                               else (year, month));
              maxDayInMonth = monthDays year month;
              day = (if day > maxDayInMonth then maxDayInMonth else day)
          in fromDate year month day
        else Inr date)
       (\<lambda>result.
          let result = (if i_days i \<noteq> 0 then wrap INT32 (result + i_days i) else result);
              result = (if i_micros i \<noteq> 0
                        then wrap INT32 (result + wrap INT32 (i_micros i sdiv MICROS_PER_DAY)) else result)
          in Inr result)"

definition date_sub_interval :: "date_t \<Rightarrow> interval_t \<Rightarrow> date_t result" where
  "date_sub_interval date i =
     date_add_interval date
       (interval (wrap INT32 (- i_months i)) (wrap INT32 (- i_days i)) (wrap INT64 (- i_micros i)))"

subsection \<open>Parts of a date\<close>

definition dayNames :: "string list" where
  "dayNames = [''Sunday'', ''Monday'', ''Tuesday'', ''Wednesday'', ''Thursday'', ''Friday'', ''Saturday'']"

definition getDayName :: "date_t \<Rightarrow> string" where
  "getDayName date =
     dayNames ! nat ((if date < 0 then 7 - (- date + 3) smod 7 else (date + 3) smod 7 + 1) smod 7)"

definition monthNames :: "string list" where
  "monthNames = [''January'', ''February'', ''March'', ''April'', ''May'', ''June'', ''July'', ''August'',
     ''September'', ''October'', ''November'', ''December'']"

definition getMonthName :: "date_t \<Rightarrow> string" where
  "getMonthName date = (let (year, month, day) = Date_convert date in monthNames ! nat (month - 1))"

definition getLastDay :: "date_t \<Rightarrow> date_t result" where
  "getLastDay date =
     (let (year, month, day) = Date_convert date;
          year = year + month sdiv 12;
          month = month smod 12;
          month = month + 1
      in rbind (fromDate year month 1) (\<lambda>d. Inr (date_sub_days d 1)))"

text \<open>The part, and the date the caller is left with: its year is extracted through a reference.\<close>

definition getDatePart :: "DatePartSpecifier \<Rightarrow> date_t \<Rightarrow> int \<times> date_t" where
  "getDatePart specifier date =
     (let (year, month, day) = Date_convert date in
      case specifier of
        YEAR \<Rightarrow> (let (n, year, yearOffset) = extractYearOffset date in (year, n))
      | MONTH \<Rightarrow> (month, date)
      | DAY \<Rightarrow> (day, date)
      | DECADE \<Rightarrow> (year sdiv 10, date)
      | CENTURY \<Rightarrow> (if year > 0 then (year - 1) sdiv 100 + 1 else year sdiv 100 - 1, date)
      | MILLENNIUM \<Rightarrow> (if year > 0 then (year - 1) sdiv 1000 + 1 else year sdiv 1000 - 1, date)
      | QUARTER \<Rightarrow> ((month - 1) sdiv MONTHS_PER_QUARTER + 1, date)
      | _ \<Rightarrow> (0, date))"

text \<open>The month is read after the year, from the date the latter leaves.\<close>

definition Date_trunc :: "DatePartSpecifier \<Rightarrow> date_t \<Rightarrow> date_t result" where
  "Date_trunc specifier date =
     (case specifier of
        YEAR \<Rightarrow> fromDate (fst (getDatePart YEAR date)) 1 1
      | MONTH \<Rightarrow> (let (year, date) = getDatePart YEAR date in fromDate year (fst (getDatePart MONTH date)) 1)
      | DAY \<Rightarrow> Inr date
      | DECADE \<Rightarrow> fromDate (fst (getDatePart YEAR date) sdiv 10 * 10) 1 1
      | CENTURY \<Rightarrow> fromDate (fst (getDatePart YEAR date) sdiv 100 * 100) 1 1
      | MILLENNIUM \<Rightarrow> fromDate (fst (getDatePart YEAR date) sdiv 1000 * 1000) 1 1
      | QUARTER \<Rightarrow>
          (let (year, month, day) = Date_convert date;
               month = 1 + (month - 1) sdiv 3 * 3
           in fromDate year month 1)
      | _ \<Rightarrow> Inr date)"

definition Date_getEpochNanoSeconds :: "date_t \<Rightarrow> int" where
  "Date_getEpochNanoSeconds date = wrap INT64 (date * (MICROS_PER_DAY * NANOS_PER_MICRO))"

subsection \<open>The calendar\<close>

text \<open>The leap days up to the end of a year, the number of the first day of a year, and the days of a year before a month.\<close>

definition leaps :: "int \<Rightarrow> int" where
  "leaps y = y div 4 - y div 100 + y div 400"

definition year_start :: "int \<Rightarrow> int" where
  "year_start y = 365 * (y - 1970) + leaps (y - 1) - 477"

definition cumulative :: "int \<Rightarrow> int \<Rightarrow> int" where
  "cumulative y m = (if isLeapYear y then at CUMULATIVE_LEAP_DAYS m else at CUMULATIVE_DAYS m)"

definition civil :: "int \<times> int \<times> int \<Rightarrow> bool" where
  "civil = (\<lambda>(y, m, d). 1 \<le> m \<and> m \<le> 12 \<and> 1 \<le> d \<and> d \<le> monthDays y m)"

definition day_number :: "int \<times> int \<times> int \<Rightarrow> int" where
  "day_number = (\<lambda>(y, m, d). year_start y + cumulative y (m - 1) + (d - 1))"

definition next_day :: "int \<times> int \<times> int \<Rightarrow> int \<times> int \<times> int" where
  "next_day = (\<lambda>(y, m, d). if d < monthDays y m then (y, m, d + 1)
     else if m < 12 then (y, m + 1, 1) else (y + 1, 1, 1))"

lemma CUMULATIVE_YEAR_DAYS_eq: "CUMULATIVE_YEAR_DAYS = map (\<lambda>k. year_start (1970 + k)) [0..400]"
  unfolding CUMULATIVE_YEAR_DAYS_def year_start_def leaps_def by code_simp

lemma at_CUMULATIVE_YEAR_DAYS: "0 \<le> k \<Longrightarrow> k \<le> 400 \<Longrightarrow> at CUMULATIVE_YEAR_DAYS k = year_start (1970 + k)"
  using nth_upto [of 0 "nat k" 400] by (simp add: at_def CUMULATIVE_YEAR_DAYS_eq)

lemma smod_zero_iff: "(y :: int) smod n = 0 \<longleftrightarrow> n dvd y"
  by (auto simp: signed_modulo_int_def sgn_if mod_eq_0_iff_dvd split: if_splits)

lemma isLeapYear_iff: "isLeapYear y \<longleftrightarrow> 4 dvd y \<and> (\<not> 100 dvd y \<or> 400 dvd y)"
  by (simp add: isLeapYear_def smod_zero_iff)

lemma div_pred:
  assumes "0 < n"
  shows "(y :: int) div n - (y - 1) div n = of_bool (n dvd y)"
proof -
  have y: "y = n * (y div n) + y mod n" by simp
  have "(y - 1) div n = (if n dvd y then y div n - 1 else y div n)"
  proof (cases "n dvd y")
    case True
    then have "y - 1 = n * (y div n - 1) + (n - 1)" by (simp add: algebra_simps)
    then have "(y - 1) div n = y div n - 1" by (rule int_div_pos_eq) (use assms in auto)
    with True show ?thesis by simp
  next
    case False
    then have "y mod n \<noteq> 0" by (simp add: dvd_eq_mod_eq_0)
    moreover have "0 \<le> y mod n" "y mod n < n" using assms by simp_all
    moreover have "y - 1 = n * (y div n) + (y mod n - 1)" using y by linarith
    ultimately have "(y - 1) div n = y div n" by (intro int_div_pos_eq [where r = "y mod n - 1"]) linarith+
    with False show ?thesis by simp
  qed
  then show ?thesis by simp
qed

lemma leap_rule:
  "(b \<longrightarrow> a) \<Longrightarrow> (c \<longrightarrow> b) \<Longrightarrow>
   of_bool a - of_bool b + of_bool c = (of_bool (a \<and> (\<not> b \<or> c)) :: int)"
  by (cases a; cases b; cases c) simp_all

lemma leaps_step: "leaps y - leaps (y - 1) = of_bool (isLeapYear y)"
proof -
  have "(100 :: int) dvd y \<longrightarrow> 4 dvd y" by (rule impI, rule dvd_trans [of _ 100]) simp_all
  moreover have "(400 :: int) dvd y \<longrightarrow> 100 dvd y" by (rule impI, rule dvd_trans [of _ 400]) simp_all
  ultimately have "of_bool (4 dvd y) - of_bool (100 dvd y) + of_bool (400 dvd y) = (of_bool (isLeapYear y) :: int)"
    unfolding isLeapYear_iff by (rule leap_rule)
  moreover have "a - b + c - (a' - b' + c') = (a - a') - (b - b') + (c - c')" for a b c a' b' c' :: int
    by simp
  ultimately show ?thesis
    unfolding leaps_def by (simp only: div_pred zero_less_numeral)
qed

lemma year_start_step: "year_start (y + 1) = year_start y + (if isLeapYear y then 366 else 365)"
  using leaps_step [of y] by (auto simp: year_start_def)

lemma leaps_period: "leaps (y + 400 * q) = leaps y + 97 * q"
proof -
  have "(y + 400 * q) div 4 = y div 4 + 100 * q" "(y + 400 * q) div 100 = y div 100 + 4 * q"
    "(y + 400 * q) div 400 = y div 400 + q"
    using div_mult_self2 [of 4 y "100 * q"] div_mult_self2 [of 100 y "4 * q"] div_mult_self2 [of 400 y q]
    by (simp_all add: ac_simps)
  then show ?thesis by (simp add: leaps_def)
qed

lemma year_start_period: "year_start (y + 400 * q) = year_start y + DAYS_PER_YEAR_INTERVAL * q"
  using leaps_period [of "y - 1" q] by (simp add: year_start_def DAYS_PER_YEAR_INTERVAL_def algebra_simps)

lemma year_start_less: "y < y' \<Longrightarrow> year_start (y + 1) \<le> year_start y'"
proof (induction y' rule: int_gr_induct [where k = y])
  case (step i)
  then show ?case using year_start_step [of i] by simp
qed (auto simp: add.commute)

lemma isLeapYear_period: "isLeapYear (y + 400 * q) \<longleftrightarrow> isLeapYear y"
proof -
  have "(4 :: int) dvd y + 400 * q \<longleftrightarrow> 4 dvd y" "(100 :: int) dvd y + 400 * q \<longleftrightarrow> 100 dvd y"
    "(400 :: int) dvd y + 400 * q \<longleftrightarrow> 400 dvd y"
    using dvd_add_left_iff [of 4 "400 * q" y] dvd_add_left_iff [of 100 "400 * q" y] dvd_add_left_iff [of 400 "400 * q" y] by auto
  then show ?thesis by (simp add: isLeapYear_iff)
qed

text \<open>The months: the tables of a common and of a leap year.\<close>

definition in_month :: "int list \<Rightarrow> int \<Rightarrow> int \<Rightarrow> bool" where
  "in_month cum d m \<longleftrightarrow> 1 \<le> m \<and> m \<le> 12 \<and> at cum (m - 1) \<le> d \<and> d < at cum m"

lemma month_table:
  "length MONTH_PER_DAY_OF_YEAR = 365" "length LEAP_MONTH_PER_DAY_OF_YEAR = 366"
  "list_all (\<lambda>(d, m). in_month CUMULATIVE_DAYS d m) (zip [0..364] MONTH_PER_DAY_OF_YEAR)"
  "list_all (\<lambda>(d, m). in_month CUMULATIVE_LEAP_DAYS d m) (zip [0..365] LEAP_MONTH_PER_DAY_OF_YEAR)"
  by (simp add: MONTH_PER_DAY_OF_YEAR_def, simp add: LEAP_MONTH_PER_DAY_OF_YEAR_def, code_simp, code_simp)

lemma list_all_zip_upto:
  assumes "list_all (\<lambda>(d, m). P d m) (zip [0..k] xs)" "length xs = nat (k + 1)" "0 \<le> d" "d \<le> k"
  shows "P d (at xs d)"
proof -
  have "nat d < length (zip [0..k] xs)" using assms(2-4) by simp
  moreover have "zip [0..k] xs ! nat d = (d, at xs d)"
    using assms(2-4) by (simp add: at_def nth_upto)
  ultimately show ?thesis using assms(1) unfolding list_all_length by (metis case_prod_conv)
qed

lemma at_month:
  "0 \<le> d \<Longrightarrow> d \<le> 364 \<Longrightarrow> in_month CUMULATIVE_DAYS d (at MONTH_PER_DAY_OF_YEAR d)"
  "0 \<le> d \<Longrightarrow> d \<le> 365 \<Longrightarrow> in_month CUMULATIVE_LEAP_DAYS d (at LEAP_MONTH_PER_DAY_OF_YEAR d)"
  by (rule list_all_zip_upto [OF month_table(3)], simp_all add: month_table)
     (rule list_all_zip_upto [OF month_table(4)], simp_all add: month_table)

lemma month_cases: "1 \<le> m \<Longrightarrow> m \<le> 12 \<Longrightarrow> m \<in> {1, 2, 3, 4, 5, 6, 7, 8, 9, 10, 11, 12 :: int}"
  by simp arith

lemma cumulative_step:
  assumes "1 \<le> m" "m \<le> 12"
  shows "cumulative y m = cumulative y (m - 1) + monthDays y m"
  using month_cases [OF assms]
  by (elim insertE emptyE; simp add: cumulative_def monthDays_def at_def CUMULATIVE_LEAP_DAYS_def
      CUMULATIVE_DAYS_def LEAP_DAYS_def NORMAL_DAYS_def)

lemma cumulative_ends: "cumulative y 0 = 0" "cumulative y 12 = (if isLeapYear y then 366 else 365)"
  by (simp_all add: cumulative_def at_def CUMULATIVE_LEAP_DAYS_def CUMULATIVE_DAYS_def)

lemma monthDays_bounds:
  assumes "1 \<le> m" "m \<le> 12"
  shows "28 \<le> monthDays y m \<and> monthDays y m \<le> 31"
  using month_cases [OF assms] by (elim insertE emptyE; simp add: monthDays_def at_def LEAP_DAYS_def NORMAL_DAYS_def)

lemma cumulative_mono:
  assumes "m \<le> m'" "0 \<le> m" "m' \<le> 12"
  shows "cumulative y m \<le> cumulative y m'"
  using assms
proof (induction m' rule: int_ge_induct)
  case (step i)
  then show ?case using cumulative_step [of "i + 1" y] monthDays_bounds [of "i + 1" y] by simp
qed auto

subsection \<open>The conversions agree with the calendar\<close>

lemma extractYearOffset_up_eq:
  "extractYearOffset_up n y =
    (if n < 0 then (n mod DAYS_PER_YEAR_INTERVAL, y + 400 * (n div DAYS_PER_YEAR_INTERVAL)) else (n, y))"
proof (induction n y rule: extractYearOffset_up.induct)
  case (1 n y)
  let ?D = "146097 :: int"
  show ?case
  proof (cases "n < 0")
    case True
    have d: "(n + ?D) div ?D = n div ?D + 1" "(n + ?D) mod ?D = n mod ?D" by simp_all
    have "(n + ?D) div ?D = 0" "(n + ?D) mod ?D = n + ?D" if "0 \<le> n + ?D"
      using True that by (simp_all only: div_pos_pos_trivial mod_pos_pos_trivial)
    then have "n div ?D = - 1" "n mod ?D = n + ?D" if "0 \<le> n + ?D"
      using that d by simp_all
    then show ?thesis
      using 1 True d
      by (subst extractYearOffset_up.simps)
         (auto simp: DAYS_PER_YEAR_INTERVAL_def YEAR_INTERVAL_def algebra_simps)
  qed (simp add: extractYearOffset_up.simps)
qed

lemma extractYearOffset_down_eq:
  "0 \<le> n \<Longrightarrow> extractYearOffset_down n y = (n mod DAYS_PER_YEAR_INTERVAL, y + 400 * (n div DAYS_PER_YEAR_INTERVAL))"
proof (induction n y rule: extractYearOffset_down.induct)
  case (1 n y)
  let ?D = "146097 :: int"
  show ?case
  proof (cases "n < ?D")
    case True
    then show ?thesis
      using 1(2) by (subst extractYearOffset_down.simps) (simp add: DAYS_PER_YEAR_INTERVAL_def)
  next
    case False
    have d: "(n - ?D) div ?D = n div ?D - 1" "(n - ?D) mod ?D = n mod ?D"
      using div_mult_self1 [of ?D n "- 1"] mod_mult_self1 [of n "- 1" ?D] by simp_all
    show ?thesis
      using 1 False d
      by (subst extractYearOffset_down.simps) (simp add: DAYS_PER_YEAR_INTERVAL_def YEAR_INTERVAL_def)
  qed
qed

lemma extractYearOffset_norm:
  "extractYearOffset_down (fst (extractYearOffset_up n y)) (snd (extractYearOffset_up n y)) =
   (n mod DAYS_PER_YEAR_INTERVAL, y + 400 * (n div DAYS_PER_YEAR_INTERVAL))"
  by (simp add: extractYearOffset_up_eq extractYearOffset_down_eq DAYS_PER_YEAR_INTERVAL_def)

lemma CUMULATIVE_nth: "k \<le> 400 \<Longrightarrow> CUMULATIVE_YEAR_DAYS ! k = year_start (1970 + int k)"
  using at_CUMULATIVE_YEAR_DAYS [of "int k"] by (simp add: at_def)

lemma year_start_1970: "year_start 1970 = 0" "year_start 2370 = DAYS_PER_YEAR_INTERVAL"
  by (simp_all add: year_start_def leaps_def DAYS_PER_YEAR_INTERVAL_def)

lemma search_year:
  assumes "0 \<le> n" "k \<le> 400" "k = 400 \<Longrightarrow> n < year_start 2370" "n < year_start (1970 + int k + 1)"
  shows "extractYearOffset_search n k \<le> k \<and> extractYearOffset_search n k < 400 \<and>
    year_start (1970 + int (extractYearOffset_search n k)) \<le> n \<and>
    n < year_start (1970 + int (extractYearOffset_search n k) + 1)"
  using assms
proof (induction k)
  case 0
  then show ?case by (simp add: year_start_1970)
next
  case (Suc k)
  show ?case
  proof (cases "n < CUMULATIVE_YEAR_DAYS ! Suc k")
    case True
    then have "n < year_start (1970 + int k + 1)" using CUMULATIVE_nth [of "Suc k"] Suc.prems by (simp add: ac_simps)
    then show ?thesis using Suc True by simp
  next
    case False
    then have "year_start (1970 + int (Suc k)) \<le> n" using CUMULATIVE_nth [of "Suc k"] Suc.prems by simp
    moreover have "Suc k \<noteq> 400" using False CUMULATIVE_nth [of 400] Suc.prems(3) by auto
    ultimately show ?thesis using False Suc.prems by simp
  qed
qed

lemma year_start_ge: "1970 \<le> y \<Longrightarrow> 365 * (y - 1970) \<le> year_start y"
proof (induction y rule: int_ge_induct)
  case (step i)
  then show ?case using year_start_step [of i] by simp
qed (simp add: year_start_1970)

text \<open>The year of a day number.\<close>

lemma extractYearOffset_spec:
  assumes "extractYearOffset n = (n', y, k)"
  shows "n' = n mod DAYS_PER_YEAR_INTERVAL" "0 \<le> k" "k < 400"
    "y = 1970 + k + 400 * (n div DAYS_PER_YEAR_INTERVAL)"
    "year_start (1970 + k) \<le> n'" "n' < year_start (1970 + k + 1)"
    "n' - year_start (1970 + k) = n - year_start y" "isLeapYear (1970 + k) \<longleftrightarrow> isLeapYear y"
proof -
  define N where "N = n mod DAYS_PER_YEAR_INTERVAL"
  let ?k = "extractYearOffset_search N (nat (N sdiv 365))"
  have N: "0 \<le> N" "N < DAYS_PER_YEAR_INTERVAL" by (simp_all add: N_def DAYS_PER_YEAR_INTERVAL_def)
  have q: "N sdiv 365 = N div 365" using N by (simp add: signed_divide_int_def sgn_if)
  have eq: "n' = N" "k = int ?k" "y = 1970 + 400 * (n div DAYS_PER_YEAR_INTERVAL) + k"
    using assms extractYearOffset_norm [of n EPOCH_YEAR]
    by (auto simp: extractYearOffset_def Let_def EPOCH_YEAR_def N_def split: prod.splits)
  have "N div 365 \<le> 400" "N < 365 * (N div 365 + 1)" "0 \<le> N div 365"
    using N by (auto simp: DAYS_PER_YEAR_INTERVAL_def)
  moreover from this have "N < year_start (1970 + int (nat (N div 365)) + 1)"
    using year_start_ge [of "1970 + int (nat (N div 365)) + 1"] by simp
  ultimately have s: "?k < 400 \<and> year_start (1970 + int ?k) \<le> N \<and> N < year_start (1970 + int ?k + 1)"
    using search_year [OF N(1), of "nat (N div 365)"] N(2) year_start_1970(2) unfolding q by simp
  show "n' = n mod DAYS_PER_YEAR_INTERVAL" "0 \<le> k" "k < 400"
    "y = 1970 + k + 400 * (n div DAYS_PER_YEAR_INTERVAL)"
    "year_start (1970 + k) \<le> n'" "n' < year_start (1970 + k + 1)"
    using eq s by (auto simp: N_def)
  have "n = DAYS_PER_YEAR_INTERVAL * (n div DAYS_PER_YEAR_INTERVAL) + n'" using eq(1) by (simp add: N_def)
  moreover have "y = 1970 + k + 400 * (n div DAYS_PER_YEAR_INTERVAL)" using eq(3) by simp
  ultimately show "n' - year_start (1970 + k) = n - year_start y" "isLeapYear (1970 + k) \<longleftrightarrow> isLeapYear y"
    using year_start_period [of "1970 + k" "n div DAYS_PER_YEAR_INTERVAL"]
      isLeapYear_period [of "1970 + k" "n div DAYS_PER_YEAR_INTERVAL"] by simp_all
qed

lemma Date_convert_spec:
  assumes "Date_convert n = (y, m, d)"
  shows "civil (y, m, d)" "day_number (y, m, d) = n"
proof -
  obtain n' y' k where x: "extractYearOffset n = (n', y', k)" by (metis prod_cases3)
  note spec = extractYearOffset_spec [OF x]
  define e where "e = n' - year_start (1970 + k)"
  have e: "0 \<le> e" "e < (if isLeapYear y' then 366 else 365)" "e = n - year_start y'"
    using spec(5-8) year_start_step [of "1970 + k"] by (auto simp: e_def)
  have at: "at CUMULATIVE_YEAR_DAYS k = year_start (1970 + k)"
    "at CUMULATIVE_YEAR_DAYS (k + 1) = year_start (1970 + k + 1)"
    using spec(2,3) at_CUMULATIVE_YEAR_DAYS [of k] at_CUMULATIVE_YEAR_DAYS [of "k + 1"] by (simp_all add: ac_simps)
  have leap: "at CUMULATIVE_YEAR_DAYS (k + 1) - at CUMULATIVE_YEAR_DAYS k = 366 \<longleftrightarrow> isLeapYear y'"
    unfolding at using year_start_step [of "1970 + k"] spec(8) by auto
  have "y = y' \<and> 1 \<le> m \<and> m \<le> 12 \<and> cumulative y' (m - 1) \<le> e \<and> e < cumulative y' m \<and>
      d = e - cumulative y' (m - 1) + 1"
    using assms at_month [of e] e(1,2)
    unfolding Date_convert_def Let_def x prod.case leap
    unfolding at(1) e_def [symmetric]
    by (cases "isLeapYear y'") (auto simp: in_month_def cumulative_def)
  then show "civil (y, m, d)" "day_number (y, m, d) = n"
    using cumulative_step [of m y'] e(3) by (auto simp: civil_def day_number_def)
qed

text \<open>A day number is the number of at most one date.\<close>

lemma day_number_year:
  assumes "civil (y, m, d)"
  shows "year_start y \<le> day_number (y, m, d)" "day_number (y, m, d) < year_start (y + 1)"
    "cumulative y (m - 1) \<le> day_number (y, m, d) - year_start y"
    "day_number (y, m, d) - year_start y < cumulative y m"
proof -
  have m: "1 \<le> m" "m \<le> 12" "1 \<le> d" "d \<le> monthDays y m" using assms by (auto simp: civil_def)
  have "cumulative y 0 \<le> cumulative y (m - 1)" "cumulative y m \<le> cumulative y 12"
    using m by (auto intro!: cumulative_mono)
  then show "year_start y \<le> day_number (y, m, d)" "day_number (y, m, d) < year_start (y + 1)"
    "cumulative y (m - 1) \<le> day_number (y, m, d) - year_start y"
    "day_number (y, m, d) - year_start y < cumulative y m"
    using m cumulative_step [OF m(1,2), of y] year_start_step [of y] cumulative_ends [of y]
    by (auto simp: day_number_def)
qed

lemma day_number_inject:
  assumes "civil a" "civil b" "day_number a = day_number b"
  shows "a = b"
proof -
  obtain y m d y' m' d' where ab: "a = (y, m, d)" "b = (y', m', d')" by (metis prod_cases3)
  note a = day_number_year [OF assms(1) [unfolded ab]] and b = day_number_year [OF assms(2) [unfolded ab]]
  have yy: "y = y'"
    using a(1,2) b(1,2) year_start_less [of y y'] year_start_less [of y' y] assms(3)
    by (cases y y' rule: linorder_cases) (auto simp: ab)
  have m: "1 \<le> m" "m \<le> 12" "1 \<le> m'" "m' \<le> 12" using assms(1,2) by (auto simp: ab civil_def)
  have "m = m'"
    using a(3,4) b(3,4) m cumulative_mono [of m "m' - 1" y] cumulative_mono [of m' "m - 1" y] assms(3)
    by (cases m m' rule: linorder_cases) (auto simp: ab yy)
  then show ?thesis using assms(3) yy by (simp add: ab day_number_def)
qed

lemma Date_convert_day_number: "civil a \<Longrightarrow> Date_convert (day_number a) = a"
  using Date_convert_spec [of "day_number a"] day_number_inject by (metis prod_cases3)

lemma civil_next_day: "civil a \<Longrightarrow> civil (next_day a) \<and> day_number (next_day a) = day_number a + 1"
proof -
  assume a: "civil a"
  obtain y m d where eq: "a = (y, m, d)" by (metis prod_cases3)
  have m: "1 \<le> m" "m \<le> 12" "1 \<le> d" "d \<le> monthDays y m" using a by (auto simp: civil_def eq)
  show ?thesis
    using m monthDays_bounds [of m y] monthDays_bounds [of "m + 1" y] monthDays_bounds [of 1 "y + 1"]
      cumulative_step [OF m(1,2), of y] cumulative_ends [of y] cumulative_ends [of "y + 1"] year_start_step [of y]
    by (cases "m = 12") (auto simp: next_day_def civil_def day_number_def eq)
qed

lemma Date_convert_Suc: "Date_convert (n + 1) = next_day (Date_convert n)"
proof -
  have "civil (Date_convert n)" "day_number (Date_convert n) = n"
    using Date_convert_spec by (metis prod_cases3)+
  then show ?thesis using civil_next_day Date_convert_day_number by metis
qed

lemma Date_isValid_iff: "Date_isValid y m d \<longleftrightarrow> civil (y, m, d) \<and> MIN_YEAR \<le> y \<and> y \<le> MAX_YEAR"
  by (auto simp: Date_isValid_def civil_def monthDays_def)

text \<open>Shifting a year by 400 years shifts its first day and keeps its length.\<close>

lemma fromDate_up_spec:
  "fromDate_up y n = (y', n') \<Longrightarrow>
   n' + year_start y' = n + year_start y \<and> (isLeapYear y' \<longleftrightarrow> isLeapYear y) \<and> 1970 \<le> y' \<and> (y' = y \<or> y' < 2370)"
proof (induction y n rule: fromDate_up.induct)
  case (1 y n)
  have "year_start (y + 400) = year_start y + DAYS_PER_YEAR_INTERVAL" "isLeapYear (y + 400) = isLeapYear y"
    using year_start_period [of y 1] isLeapYear_period [of y 1] by simp_all
  then show ?case
    using 1 fromDate_up.simps [of y n] by (auto simp: YEAR_INTERVAL_def split: if_splits)
qed

lemma fromDate_down_spec:
  "fromDate_down y n = (y', n') \<Longrightarrow> 1970 \<le> y \<Longrightarrow>
   n' + year_start y' = n + year_start y \<and> (isLeapYear y' \<longleftrightarrow> isLeapYear y) \<and> 1970 \<le> y' \<and> y' < 2370"
proof (induction y n rule: fromDate_down.induct)
  case (1 y n)
  have "year_start y = year_start (y - 400) + DAYS_PER_YEAR_INTERVAL" "isLeapYear (y - 400) = isLeapYear y"
    using year_start_period [of "y - 400" 1] isLeapYear_period [of "y - 400" 1] by simp_all
  then show ?case
    using 1 fromDate_down.simps [of y n] by (auto simp: YEAR_INTERVAL_def split: if_splits)
qed

lemma fromDate_valid:
  assumes "Date_isValid y m d"
  shows "fromDate y m d = Inr (day_number (y, m, d))"
proof -
  obtain y1 n1 where up: "fromDate_up y 0 = (y1, n1)" by (metis surj_pair)
  obtain y2 n2 where down: "fromDate_down y1 n1 = (y2, n2)" by (metis surj_pair)
  note u = fromDate_up_spec [OF up]
  then have d: "n2 + year_start y2 = n1 + year_start y1" "isLeapYear y2 \<longleftrightarrow> isLeapYear y" "1970 \<le> y2" "y2 < 2370"
    using fromDate_down_spec [OF down] by auto
  then have "at CUMULATIVE_YEAR_DAYS (y2 - 1970) = year_start y2"
    using at_CUMULATIVE_YEAR_DAYS [of "y2 - 1970"] by simp
  then show ?thesis
    using assms u d(1,2) by (auto simp: fromDate_def Let_def up down day_number_def cumulative_def)
qed

lemma fromDate_invalid:
  "\<not> Date_isValid y m d \<Longrightarrow> fromDate y m d =
    Inl (ConversionException (''Date out of range: '' @ decimal_int y @ ''-'' @ decimal_int m @ ''-'' @ decimal_int d @ ''.''))"
  by (simp add: fromDate_def)

lemma fromDate_convert:
  "Date_convert n = (y, m, d) \<Longrightarrow> MIN_YEAR \<le> y \<Longrightarrow> y \<le> MAX_YEAR \<Longrightarrow> fromDate y m d = Inr n"
  using Date_convert_spec [of n y m d] fromDate_valid [of y m d] by (simp add: Date_isValid_iff)

lemma convert_civil: "civil a \<Longrightarrow> day_number a = n \<Longrightarrow> Date_convert n = a"
  using Date_convert_day_number by blast

lemma Date_convert_0: "Date_convert 0 = (1970, 1, 1)"
  by (rule convert_civil) (simp_all add: civil_def day_number_def year_start_1970 cumulative_ends monthDays_def at_def
      NORMAL_DAYS_def LEAP_DAYS_def)

lemma valid_range:
  assumes "Date_isValid y m d"
  shows "- (2 ^ 30) \<le> day_number (y, m, d) \<and> day_number (y, m, d) < 2 ^ 30"
proof -
  have c: "civil (y, m, d)" "MIN_YEAR \<le> y" "y \<le> MAX_YEAR" using assms by (auto simp: Date_isValid_iff)
  have "year_start MIN_YEAR \<le> year_start y"
    using c(2) year_start_less [of MIN_YEAR y] year_start_step [of MIN_YEAR]
    by (cases "MIN_YEAR = y") (auto split: if_splits)
  moreover have "year_start (y + 1) \<le> year_start (MAX_YEAR + 1)" using c(3) year_start_less [of y "MAX_YEAR + 1"] by simp
  moreover have "- (2 ^ 30) \<le> year_start MIN_YEAR" "year_start (MAX_YEAR + 1) < 2 ^ 30"
    by (simp_all add: year_start_def leaps_def MIN_YEAR_def MAX_YEAR_def)
  ultimately show ?thesis using day_number_year(1,2) [OF c(1)] by linarith
qed

lemma sdiv_smod_month:
  fixes m :: int
  assumes "1 \<le> m" "m \<le> 12"
  shows "m sdiv 12 = (if m = 12 then 1 else 0)" "m smod 12 = (if m = 12 then 0 else m)"
  using assms by (auto simp: signed_divide_int_def signed_modulo_int_def sgn_if)

lemma getLastDay_month:
  assumes n: "Date_convert n = (y, m, d)" and y: "MIN_YEAR \<le> y" "y < MAX_YEAR"
  shows "\<exists>n'. getLastDay n = Inr n' \<and> Date_convert n' = (y, m, monthDays y m)"
proof -
  let ?a = "(y, m, monthDays y m)"
  have m: "1 \<le> m" "m \<le> 12" using Date_convert_spec(1) [OF n] by (auto simp: civil_def)
  have a: "civil ?a" using m monthDays_bounds [OF m, of y] by (simp add: civil_def)
  obtain y' m' where nxt: "next_day ?a = (y', m', 1)"
    "y' = y + m sdiv 12" "m' = m smod 12 + 1"
    using m by (simp add: next_day_def sdiv_smod_month)
  then have c: "civil (y', m', 1)" "day_number (y', m', 1) = day_number ?a + 1"
    using civil_next_day [OF a] by auto
  have v: "Date_isValid y' m' 1" using c(1) y m by (auto simp: Date_isValid_iff nxt sdiv_smod_month)
  have "date_sub_days (day_number (y', m', 1)) 1 = day_number ?a"
    using valid_range [OF v] c(2) by (auto simp: date_sub_days_def in_range_def intro!: wrap_id)
  then show ?thesis
    using n fromDate_valid [OF v] Date_convert_day_number [OF a]
    by (simp add: getLastDay_def Let_def nxt(2,3))
qed

lemma getDayName_eq: "getDayName date = dayNames ! nat ((date + 4) mod 7)"
proof -
  have "(if date < 0 then 7 - (- date + 3) smod 7 else (date + 3) smod 7 + 1) smod 7 = (date + 4) mod 7"
  proof (cases "date < 0")
    case True
    then have "(- date + 3) smod 7 = (3 - date) mod 7" by (simp add: signed_modulo_int_def sgn_if)
    moreover have "(7 - (3 - date) mod 7) smod 7 = (7 - (3 - date) mod 7) mod 7"
      using pos_mod_bound [of 7 "3 - date"] by (simp add: signed_modulo_int_def sgn_if)
    moreover have "(7 - (3 - date) mod 7) mod 7 = (7 - (3 - date)) mod 7" by (rule mod_diff_right_eq)
    moreover have "7 - (3 - date) = date + 4" by simp
    ultimately show ?thesis using True by (simp only: if_True uminus_add_conv_diff)
  next
    case False
    then have "(date + 3) smod 7 = (date + 3) mod 7" by (simp add: signed_modulo_int_def sgn_if)
    moreover have "((date + 3) mod 7 + 1) smod 7 = ((date + 3) mod 7 + 1) mod 7"
      using pos_mod_sign [of 7 "date + 3"] by (simp add: signed_modulo_int_def sgn_if)
    ultimately show ?thesis using False by (simp add: mod_simps add.commute)
  qed
  then show ?thesis by (simp add: getDayName_def)
qed

text \<open>Months are counted from the first month of the year 0.\<close>

lemma month_arith:
  fixes y m k :: int
  assumes m: "1 \<le> m" "m \<le> 12"
  defines "x \<equiv> 12 * y + (m - 1) + k" and "q \<equiv> k sdiv 12"
  shows "(if m + (k - q * 12) > 12 then (y + q + 1, m + (k - q * 12) - 12)
     else if m + (k - q * 12) \<le> 0 then (y + q - 1, m + (k - q * 12) + 12)
     else (y + q, m + (k - q * 12))) = (x div 12, x mod 12 + 1)"
proof -
  have r: "k - q * 12 = k smod 12" "\<bar>k smod 12\<bar> < 12"
    using sdiv_mult_smod_eq [of k 12] pos_mod_bound [of 12 "\<bar>k\<bar>"] pos_mod_sign [of 12 "\<bar>k\<bar>"]
    by (auto simp: q_def signed_modulo_int_def abs_mult sgn_if)
  have x: "x = 12 * (y + q) + (m - 1 + (k - q * 12))" by (simp add: x_def algebra_simps)
  have split: "x div 12 = p \<and> x mod 12 = e" if "x = 12 * p + e" "0 \<le> e" "e < 12" for p e
    using that int_div_pos_eq [of x 12 p e] int_mod_pos_eq [of x 12 p e] by simp
  show ?thesis
    using split [of "y + q" "m - 1 + (k - q * 12)"] split [of "y + q + 1" "m - 1 + (k - q * 12) - 12"]
      split [of "y + q - 1" "m - 1 + (k - q * 12) + 12"] x m r by auto
qed

lemma add_months:
  assumes n: "Date_convert n = (y, m, d)" and k: "i_months i \<noteq> 0"
  defines "x \<equiv> 12 * y + (m - 1) + i_months i"
  defines "y' \<equiv> x div 12" and "m' \<equiv> x mod 12 + 1"
  defines "a \<equiv> (y', m', min d (monthDays y' m'))"
  assumes y: "MIN_YEAR \<le> y'" "y' \<le> MAX_YEAR"
  shows "civil a" "date_add_interval n i = rbind (Inr (day_number a)) (\<lambda>result.
          let result = (if i_days i \<noteq> 0 then wrap INT32 (result + i_days i) else result);
              result = (if i_micros i \<noteq> 0
                        then wrap INT32 (result + wrap INT32 (i_micros i sdiv MICROS_PER_DAY)) else result)
          in Inr result)"
proof -
  have m: "1 \<le> m" "m \<le> 12" "1 \<le> d" using Date_convert_spec(1) [OF n] by (auto simp: civil_def)
  have m': "1 \<le> m'" "m' \<le> 12" by (simp_all add: m'_def)
  show c: "civil a" using m(3) m' monthDays_bounds [OF m', of y'] by (auto simp: a_def civil_def)
  then have v: "Date_isValid y' m' (min d (monthDays y' m'))" using y by (simp add: Date_isValid_iff a_def)
  have clip: "(if d > monthDays y' m' then monthDays y' m' else d) = min d (monthDays y' m')" by auto
  show "date_add_interval n i = rbind (Inr (day_number a)) (\<lambda>result.
          let result = (if i_days i \<noteq> 0 then wrap INT32 (result + i_days i) else result);
              result = (if i_micros i \<noteq> 0
                        then wrap INT32 (result + wrap INT32 (i_micros i sdiv MICROS_PER_DAY)) else result)
          in Inr result)"
    using month_arith [OF m(1,2), of "i_months i" y] k fromDate_valid [OF v]
    unfolding date_add_interval_def n Let_def prod.case MONTHS_PER_YEAR_def x_def [symmetric] y'_def [symmetric]
      m'_def [symmetric]
    by (simp only: if_True prod.case clip a_def not_False_eq_True simp_thms)
qed

text \<open>The year a conversion finds, and the month of the date moved by whole cycles.\<close>

lemma Date_convert_year:
  assumes "Date_convert n = (y, m, d)"
  obtains n' k where "extractYearOffset n = (n', y, k)"
  using assms unfolding Date_convert_def Let_def by (auto split: prod.splits if_splits)

lemma monthDays_period: "monthDays (y + 400 * q) m = monthDays y m" "cumulative (y + 400 * q) m = cumulative y m"
  by (simp_all add: monthDays_def cumulative_def isLeapYear_period)

lemma extractYearOffset_month:
  assumes "extractYearOffset n = (n', y, k)" "Date_convert n = (y, m, d)"
  shows "Date_convert n' = (1970 + k, m, d)"
proof (rule convert_civil)
  note x = extractYearOffset_spec [OF assms(1)]
  have c: "civil (y, m, d)" "day_number (y, m, d) = n" using Date_convert_spec [OF assms(2)] by auto
  have y: "y = 1970 + k + 400 * (n div DAYS_PER_YEAR_INTERVAL)" using x(4) by simp
  show "civil (1970 + k, m, d)" using c(1) unfolding y civil_def prod.case monthDays_period .
  show "day_number (1970 + k, m, d) = n'"
    using c(2) x(7) unfolding day_number_def prod.case
    by (simp add: y monthDays_period [of "1970 + k"])
qed

lemma first_of_month:
  assumes "civil (y, m, d)" "day_number (y, m, d) = n" "MIN_YEAR \<le> y" "y \<le> MAX_YEAR" "1 \<le> p" "p \<le> m"
  shows "\<exists>n'. fromDate y p 1 = Inr n' \<and> Date_convert n' = (y, p, 1) \<and> n' \<le> n"
proof -
  have m: "m \<le> 12" "1 \<le> d" using assms(1) by (auto simp: civil_def)
  have c: "civil (y, p, 1)" using assms(5,6) m monthDays_bounds [of p y] by (simp add: civil_def)
  moreover have "day_number (y, p, 1) \<le> n"
    using cumulative_mono [of "p - 1" "m - 1" y] assms(2,5,6) m by (auto simp: day_number_def)
  ultimately show ?thesis
    using fromDate_valid [of y p 1] assms(3,4) Date_convert_day_number [OF c] by (simp add: Date_isValid_iff)
qed

subsection \<open>Properties\<close>

text \<open>(C28) Dates and day numbers correspond one to one: every valid year, month and day has a day number that
  is converted back to it, and the date of a day number within the supported years has that day number.
  Every other combination is refused.\<close>

theorem date_round_trip:
  "(Date_isValid y m d \<longrightarrow> (\<exists>n. fromDate y m d = Inr n \<and> Date_convert n = (y, m, d))) \<and>
   (\<not> Date_isValid y m d \<longrightarrow> (\<exists>msg. fromDate y m d = Inl (ConversionException msg))) \<and>
   (Date_convert n = (y, m, d) \<and> MIN_YEAR \<le> y \<and> y \<le> MAX_YEAR \<longrightarrow> fromDate y m d = Inr n)"
  using fromDate_valid [of y m d] fromDate_convert [of n y m d] Date_convert_day_number [of "(y, m, d)"]
    fromDate_invalid [of y m d]
  by (auto simp: Date_isValid_iff)

theorem date_round_trip_witness:
  "(\<exists>n. fromDate 2024 2 29 = Inr n \<and> Date_convert n = (2024, 2, 29)) \<and>
   (\<exists>msg. fromDate 2023 2 29 = Inl (ConversionException msg)) \<and> fromDate 1970 1 1 = Inr 0"
proof -
  have "Date_isValid 2024 2 29" "\<not> Date_isValid 2023 2 29" "MIN_YEAR \<le> 1970" "1970 \<le> MAX_YEAR"
    by (simp_all add: Date_isValid_def MIN_YEAR_def MAX_YEAR_def isLeapYear_def signed_modulo_int_def at_def
        NORMAL_DAYS_def LEAP_DAYS_def)
  then show ?thesis
    using date_round_trip [of 2024 2 29 0] date_round_trip [of 2023 2 29 0] date_round_trip [of 1970 1 1 0] Date_convert_0 by blast
qed

text \<open>(C29) The conversion is the Gregorian calendar: day 0 is 1 January 1970, and the date of the next day is the next
  day of the month, the first of the next month, or the first of the next year, with the leap years of the
  Gregorian rule. The weekday of day 0 is Thursday and advances by one each day.\<close>

theorem date_calendar:
  "Date_convert 0 = (1970, 1, 1) \<and> Date_convert (n + 1) = next_day (Date_convert n) \<and>
   map (monthDays y) [1..12] =
     [31, if 4 dvd y \<and> (\<not> 100 dvd y \<or> 400 dvd y) then 29 else 28, 31, 30, 31, 30, 31, 31, 30, 31, 30, 31] \<and>
   getDayName n = dayNames ! nat ((n + 4) mod 7)"
proof -
  have "map (monthDays y) [1..12] =
     [31, if 4 dvd y \<and> (\<not> 100 dvd y \<or> 400 dvd y) then 29 else 28, 31, 30, 31, 30, 31, 31, 30, 31, 30, 31]"
    unfolding isLeapYear_iff [symmetric]
    by (simp add: monthDays_def at_def NORMAL_DAYS_def LEAP_DAYS_def upto_rec1)
  then show ?thesis using Date_convert_0 Date_convert_Suc getDayName_eq by blast
qed

theorem date_calendar_witness:
  "Date_convert 0 = (1970, 1, 1) \<and> monthDays 2024 2 = 29 \<and> getDayName 0 = ''Thursday''"
  using date_calendar [of 0 2024] by (simp add: upto_rec1 dayNames_def)

text \<open>(C30) Adding months to a date moves to the month that many months later and keeps the day, or takes the last
  day of that month when it is shorter; days and whole days of microseconds are then added to the day
  number.\<close>

theorem date_add_months:
  assumes "Date_convert n = (y, m, d)" "i_months i \<noteq> 0" "i_days i = 0" "i_micros i = 0"
    and "y' = (12 * y + (m - 1) + i_months i) div 12" "m' = (12 * y + (m - 1) + i_months i) mod 12 + 1"
    and "MIN_YEAR \<le> y'" "y' \<le> MAX_YEAR"
  shows "\<exists>n'. date_add_interval n i = Inr n' \<and> Date_convert n' = (y', m', min d (monthDays y' m')) \<and>
    (\<forall>k u. in_range INT32 (n' + k) \<and> in_range INT32 (u sdiv MICROS_PER_DAY) \<and>
           in_range INT32 (n' + k + u sdiv MICROS_PER_DAY) \<longrightarrow>
           date_add_interval n (i\<lparr>i_days := k, i_micros := u\<rparr>) = Inr (n' + k + u sdiv MICROS_PER_DAY))"
proof -
  let ?a = "(y', m', min d (monthDays y' m'))"
  have add: "civil ?a" "date_add_interval n j = rbind (Inr (day_number ?a)) (\<lambda>result.
          let result = (if i_days j \<noteq> 0 then wrap INT32 (result + i_days j) else result);
              result = (if i_micros j \<noteq> 0
                        then wrap INT32 (result + wrap INT32 (i_micros j sdiv MICROS_PER_DAY)) else result)
          in Inr result)" if "i_months j = i_months i" for j
    using add_months [OF assms(1), of j] assms(2,5-8) that by simp_all
  have zero: "(0 :: int) sdiv k = 0" for k by (simp add: signed_divide_int_def)
  show ?thesis
    using Date_convert_day_number [OF add(1)] add(2) [of i] add(2) [of "i\<lparr>i_days := _, i_micros := _\<rparr>"] assms(3,4)
    by (auto simp: Let_def wrap_id zero)
qed

text \<open>31 January 2024 and one month is 29 February.\<close>

theorem date_add_months_witness:
  "\<exists>n n'. fromDate 2024 1 31 = Inr n \<and> date_add_interval n (interval 1 0 0) = Inr n' \<and> Date_convert n' = (2024, 2, 29)"
proof -
  have v: "Date_isValid 2024 1 31" "monthDays 2024 2 = 29" "MIN_YEAR \<le> 2024" "2024 \<le> MAX_YEAR"
    by (simp_all add: Date_isValid_def MIN_YEAR_def MAX_YEAR_def isLeapYear_def signed_modulo_int_def at_def
        LEAP_DAYS_def monthDays_def)
  let ?i = "interval 1 0 0"
  have c: "Date_convert (day_number (2024, 1, 31)) = (2024, 1, 31)"
    using v(1) Date_convert_day_number [of "(2024, 1, 31)"] by (simp add: Date_isValid_iff)
  have i: "i_months ?i \<noteq> 0" "i_days ?i = 0" "i_micros ?i = 0"
    "2024 = (12 * 2024 + (1 - 1) + i_months ?i) div 12" "2 = (12 * 2024 + (1 - 1) + i_months ?i) mod 12 + 1"
    by (simp_all add: interval_def)
  have "\<exists>n'. date_add_interval (day_number (2024, 1, 31)) ?i = Inr n' \<and>
      Date_convert n' = (2024, 2, min 31 (monthDays 2024 2))"
    using date_add_months [OF c i v(3,4)] by blast
  then show ?thesis using fromDate_valid [OF v(1)] v(2) by simp
qed

text \<open>The last day of the month of a date is in the same month and has the length of the month as its day.\<close>

theorem last_day_of_month:
  assumes "Date_convert n = (y, m, d)" "MIN_YEAR \<le> y" "y < MAX_YEAR"
  shows "\<exists>n'. getLastDay n = Inr n' \<and> Date_convert n' = (y, m, monthDays y m)"
  by (rule getLastDay_month [OF assms])

theorem last_day_of_month_witness:
  "\<exists>n'. getLastDay 0 = Inr n' \<and> Date_convert n' = (1970, 1, 31)"
  using last_day_of_month [OF Date_convert_0]
  by (simp add: MIN_YEAR_def MAX_YEAR_def monthDays_def at_def isLeapYear_def signed_modulo_int_def NORMAL_DAYS_def)

text \<open>Truncating a date of a supported year gives the first day of its year, quarter or month, although the
  year is read through a reference that moves the date by whole cycles of 400 years.\<close>

theorem date_trunc_periods:
  assumes "Date_convert n = (y, m, d)" "MIN_YEAR \<le> y" "y \<le> MAX_YEAR"
  shows "(\<exists>n'. Date_trunc YEAR n = Inr n' \<and> Date_convert n' = (y, 1, 1) \<and> n' \<le> n) \<and>
    (\<exists>n'. Date_trunc QUARTER n = Inr n' \<and> Date_convert n' = (y, 3 * ((m - 1) div 3) + 1, 1) \<and> n' \<le> n) \<and>
    (\<exists>n'. Date_trunc MONTH n = Inr n' \<and> Date_convert n' = (y, m, 1) \<and> n' \<le> n)"
proof -
  have c: "civil (y, m, d)" "day_number (y, m, d) = n" using Date_convert_spec [OF assms(1)] by auto
  then have m: "1 \<le> m" "m \<le> 12" "1 \<le> d" by (auto simp: civil_def)
  obtain n' k where x: "extractYearOffset n = (n', y, k)" by (rule Date_convert_year [OF assms(1)])
  have part: "getDatePart YEAR n = (y, n')" "fst (getDatePart MONTH n') = m"
    using extractYearOffset_month [OF x assms(1)] by (simp_all add: getDatePart_def Let_def x split: prod.splits)
  have first: "\<exists>n'. fromDate y p 1 = Inr n' \<and> Date_convert n' = (y, p, 1) \<and> n' \<le> n" if "1 \<le> p" "p \<le> m" for p
    by (rule first_of_month [OF c assms(2,3) that])
  have q: "(m - 1) sdiv 3 = (m - 1) div 3" using m by (simp add: signed_divide_int_def sgn_if)
  have "1 \<le> 3 * ((m - 1) div 3) + 1" "3 * ((m - 1) div 3) + 1 \<le> m" using m by (simp_all add: div_int_pos_iff)
  then show ?thesis
    using first [of 1] first [of m] first [of "3 * ((m - 1) div 3) + 1"] m part assms(1)
    by (simp add: Date_trunc_def Let_def q ac_simps)
qed

theorem date_trunc_periods_witness:
  "\<exists>n'. Date_trunc QUARTER 0 = Inr n' \<and> Date_convert n' = (1970, 1, 1)"
  using date_trunc_periods [OF Date_convert_0] by (auto simp: MIN_YEAR_def MAX_YEAR_def)

subsection \<open>A reference that is written\<close>

text \<open>Asking for the year of 31 December 1969 leaves the caller with a date in 2369.\<close>

theorem getDatePart_changes_date:
  "\<exists>n'. getDatePart YEAR (- 1) = (1969, n') \<and> n' \<noteq> - 1 \<and> Date_convert n' = (2369, 12, 31)"
proof -
  let ?a = "(1969, 12, 31)" and ?b = "(2369, 12, 31)"
  have "civil ?a" "day_number ?a = - 1" "civil ?b" "day_number ?b = 146096"
    by (simp_all add: civil_def day_number_def year_start_def leaps_def cumulative_def isLeapYear_def
        signed_modulo_int_def monthDays_def at_def NORMAL_DAYS_def CUMULATIVE_DAYS_def)
  then have c: "Date_convert (- 1) = ?a" "Date_convert 146096 = ?b" by (auto intro: convert_civil)
  obtain n' k where x: "extractYearOffset (- 1) = (n', 1969, k)" by (rule Date_convert_year [OF c(1)])
  have "n' = 146096" using extractYearOffset_spec(1) [OF x] by (simp add: DAYS_PER_YEAR_INTERVAL_def)
  then show ?thesis using c(2) by (simp add: getDatePart_def Let_def c(1) x)
qed

end
