(* ===== verification/Date_Text.thy ===== *)
theory Date_Text
  imports Date
begin

text \<open>
  The text of dates: the parser of \<^verbatim>\<open>src/src/common/types/date_t.cpp\<close> and the printer \<^verbatim>\<open>DateToStringCast\<close> of
  \<^verbatim>\<open>src/src/include/common/types/cast_helpers.h\<close>. A position in a buffer is the rest of the text from it.
\<close>

subsection \<open>Parsing\<close>

definition parseDoubleDigit :: "string \<Rightarrow> (int \<times> string) option" where
  "parseDoubleDigit buf =
     (case buf of
        [] \<Rightarrow> None
      | c # rest \<Rightarrow>
          if CharacterIsDigit c then
            (case rest of
               [] \<Rightarrow> Some (digit_value c, rest)
             | c' # rest' \<Rightarrow>
                 if CharacterIsDigit c' then Some (digit_value c' + digit_value c * 10, rest')
                 else Some (digit_value c, rest))
          else None)"

text \<open>The digits of the year; the loop stops in front of the digit that makes the year too large.\<close>

fun tryConvertDate_year :: "int \<Rightarrow> string \<Rightarrow> int \<times> string" where
  "tryConvertDate_year year [] = (year, [])"
| "tryConvertDate_year year (c # rest) =
     (if CharacterIsDigit c then
        let year = digit_value c + year * 10
        in if year > MAX_YEAR then (year, c # rest) else tryConvertDate_year year rest
      else (year, c # rest))"

definition tryConvertDate :: "string \<Rightarrow> date_t option result" where
  "tryConvertDate buf =
     (if length buf = 0 then Inr None
      else
        let buf = dropWhile isSpace buf in
        if buf = [] then Inr None
        else if \<not> CharacterIsDigit (hd buf) then Inr None
        else
          case tryConvertDate_year 0 buf of
            (year, []) \<Rightarrow> Inr None
          | (year, sep # buf) \<Rightarrow>
              if sep \<noteq> CHR '' '' \<and> sep \<noteq> CHR ''-'' \<and> sep \<noteq> CHR ''/'' \<and> sep \<noteq> CHR 0x5C then Inr None
              else
                case parseDoubleDigit buf of
                  None \<Rightarrow> Inr None
                | Some (month, []) \<Rightarrow> Inr None
                | Some (month, c # buf) \<Rightarrow>
                    if c \<noteq> sep then Inr None
                    else if buf = [] then Inr None
                    else
                      case parseDoubleDigit buf of
                        None \<Rightarrow> Inr None
                      | Some (day, buf) \<Rightarrow>
                          if dropWhile isSpace buf \<noteq> [] then Inr None
                          else if \<not> Date_isValid year month day then Inr None
                          else rbind (fromDate year month day) (\<lambda>d. Inr (Some d)))"

definition Date_fromCString :: "string \<Rightarrow> date_t result" where
  "Date_fromCString str =
     rbind (tryConvertDate str) (\<lambda>res. case res of
        None \<Rightarrow> Inl (ConversionException (''Error occurred during parsing date. Given: '' @ [CHR 0x22] @ str @
                       [CHR 0x22] @ ''. Expected format: (YYYY-MM-DD)''))
      | Some d \<Rightarrow> Inr d)"

subsection \<open>Printing\<close>

definition BC_SUFFIX :: string where
  "BC_SUFFIX = '' (BC)''"

text \<open>The length of the text, the length of the year, whether the suffix is added, and the year that is printed.\<close>

definition DateToStringCast_Length :: "int \<Rightarrow> nat \<times> nat \<times> bool \<times> int" where
  "DateToStringCast_Length year =
     (let (len, addBC, year) =
            (if year \<le> 0 then (6 + length BC_SUFFIX, True, - year + 1) else (6, False, year));
          yearLength = 4 + of_bool (year \<ge> 10000) + of_bool (year \<ge> 100000) + of_bool (year \<ge> 1000000) +
                       of_bool (year \<ge> 10000000)
      in (len + yearLength, yearLength, addBC, year))"

text \<open>Leading zeros up to a width, in front of a number written from the right.\<close>

definition pad_zeros :: "nat \<Rightarrow> string \<Rightarrow> string" where
  "pad_zeros w s = replicate (w - length s) (CHR ''0'') @ s"

definition FormatTwoDigits :: "nat \<Rightarrow> string" where
  "FormatTwoDigits v =
     (if v < 10 then [CHR ''0'', digit_char v] else [digits ! (v * 2), digits ! (v * 2 + 1)])"

definition DateToStringCast_Format :: "int \<Rightarrow> int \<Rightarrow> int \<Rightarrow> nat \<Rightarrow> bool \<Rightarrow> string" where
  "DateToStringCast_Format year month day yearLen addBC =
     pad_zeros yearLen (FormatUnsigned (nat year) []) @
     ''-'' @ FormatTwoDigits (nat month) @ ''-'' @ FormatTwoDigits (nat day) @
     (if addBC then BC_SUFFIX else [])"

definition Date_toString :: "date_t \<Rightarrow> string" where
  "Date_toString date =
     (let (year, month, day) = Date_convert date;
          (len, yearLength, addBC, year) = DateToStringCast_Length year
      in take len (DateToStringCast_Format year month day yearLength addBC))"

subsection \<open>Two digits and years\<close>

lemma FormatTwoDigits_eq: "v < 100 \<Longrightarrow> FormatTwoDigits v = [digit_char (v div 10), digit_char (v mod 10)]"
  using digits_nth [of v] by (auto simp: FormatTwoDigits_def digit_char_0)

lemma parse_two_digits: "v < 100 \<Longrightarrow> parseDoubleDigit (FormatTwoDigits v @ rest) = Some (int v, rest)"
  by (simp add: FormatTwoDigits_eq parseDoubleDigit_def zdiv_int zmod_int)

lemma year_loop:
  assumes "list_all CharacterIsDigit ds" "\<not> CharacterIsDigit c" "0 \<le> v" "extend_digits False v ds \<le> MAX_YEAR"
  shows "tryConvertDate_year v (ds @ c # rest) = (extend_digits False v ds, c # rest)"
  using assms
proof (induction ds arbitrary: v)
  case (Cons a ds)
  have d: "0 \<le> digit_value a" using digit_value_bounds [of a] Cons.prems(1) by simp
  then have v: "0 \<le> v * 10 + digit_value a" using Cons.prems(3) by simp
  have "v * 10 + digit_value a \<le> extend_digits False (v * 10 + digit_value a) ds"
    using extend_digits_grows [of ds False "v * 10 + digit_value a"] Cons.prems(1) v by simp
  then have "v * 10 + digit_value a \<le> MAX_YEAR" using Cons.prems(4) by simp
  then show ?case using Cons.IH [OF _ _ v] Cons.prems by (simp add: add.commute)
qed simp

lemma extend_zeros: "extend_digits False 0 (replicate k (CHR ''0'') @ ds) = extend_digits False 0 ds"
  by (induction k) (simp_all add: digit_value_def)

lemma year_digits:
  "list_all CharacterIsDigit (pad_zeros w (FormatUnsigned n []))"
  "extend_digits False 0 (pad_zeros w (FormatUnsigned n [])) = int n" "pad_zeros w (FormatUnsigned n []) \<noteq> []"
proof -
  have zero: "CharacterIsDigit (CHR ''0'')" by (simp add: CharacterIsDigit_def)
  have ds: "list_all CharacterIsDigit (FormatUnsigned n [])"
    using decimal_digits [of n] zero by (simp add: FormatUnsigned_decimal list_all_iff)
  then show "list_all CharacterIsDigit (pad_zeros w (FormatUnsigned n []))"
    using zero by (auto simp: pad_zeros_def list_all_iff)
  show "extend_digits False 0 (pad_zeros w (FormatUnsigned n [])) = int n"
    unfolding pad_zeros_def extend_zeros extend_digits_0 [OF ds]
    using read_decimal_snoc [of 0 "[]"] by (simp add: FormatUnsigned_decimal digit_char_0 read_decimal_def [of "[]"])
  show "pad_zeros w (FormatUnsigned n []) \<noteq> []"
    by (simp add: pad_zeros_def FormatUnsigned_decimal)
qed

lemma length_pad_zeros: "length s \<le> w \<Longrightarrow> length (pad_zeros w s) = w"
  by (simp add: pad_zeros_def)

subsection \<open>Properties\<close>

text \<open>The length computed for the buffer is the length of the text.\<close>

lemma Date_toString_length:
  assumes "Date_convert n = (y, m, d)" "DateToStringCast_Length y = (len, w, bc, y')" "\<bar>y\<bar> < 10000000"
  shows "length (DateToStringCast_Format y' m d w bc) = len"
proof -
  have two: "length (FormatTwoDigits v) = 2" for v by (simp add: FormatTwoDigits_def)
  have y': "0 < y'" "y' \<le> 10000000" using assms(2,3) by (auto simp: DateToStringCast_Length_def Let_def split: if_splits)
  have w: "w = 4 + of_bool (y' \<ge> 10000) + of_bool (y' \<ge> 100000) + of_bool (y' \<ge> 1000000) + of_bool (y' \<ge> 10000000)"
    "len = 6 + w + (if bc then length BC_SUFFIX else 0)"
    using assms(2) by (auto simp: DateToStringCast_Length_def Let_def split: if_splits)
  have "nat y' < 10 ^ w"
    using y' by (auto simp: w(1) nat_less_iff)
  then have "length (FormatUnsigned (nat y') []) \<le> w"
    using length_decimal_le [of "nat y'" w] y' by (simp add: FormatUnsigned_decimal)
  then show ?thesis using w(2) by (simp add: DateToStringCast_Format_def two length_pad_zeros)
qed

lemma tryConvertDate_toString:
  assumes "Date_isValid y m d" "1 \<le> y"
  shows "tryConvertDate (pad_zeros w (FormatUnsigned (nat y) []) @ ''-'' @ FormatTwoDigits (nat m) @ ''-'' @
    FormatTwoDigits (nat d)) = Inr (Some (day_number (y, m, d)))"
proof -
  let ?y = "pad_zeros w (FormatUnsigned (nat y) [])"
  have c: "1 \<le> m" "m \<le> 12" "1 \<le> d" "d \<le> 31" "y \<le> MAX_YEAR"
    using assms(1) monthDays_bounds [of m y] by (auto simp: Date_isValid_iff civil_def)
  note ds = year_digits [of w "nat y"]
  have hd: "CharacterIsDigit (hd ?y)" "\<not> isSpace (hd ?y)"
    using ds(1,3) not_space_digit by (cases ?y; auto)+
  have drop: "dropWhile isSpace (?y @ rest) = ?y @ rest" for rest using hd(2) ds(3) by (cases ?y) auto
  have year: "tryConvertDate_year 0 (?y @ CHR ''-'' # rest) = (y, CHR ''-'' # rest)" for rest
    using year_loop [OF ds(1), of "CHR ''-''" 0 rest] ds(2) assms(2) c(5) by (simp add: CharacterIsDigit_def)
  have "parseDoubleDigit (FormatTwoDigits (nat d)) = Some (d, [])"
    using parse_two_digits [of "nat d" "[]"] c by simp
  moreover have "FormatTwoDigits v \<noteq> []" for v by (simp add: FormatTwoDigits_def)
  ultimately show ?thesis
    using c assms(1) ds(3) hd(1) parse_two_digits [of "nat m"]
    by (simp add: tryConvertDate_def drop year fromDate_valid)
qed

text \<open>(C31) The text of a date from the year 1 on is parsed back to the date, for years of any number of digits.\<close>

theorem date_text_round_trip:
  assumes "Date_convert n = (y, m, d)" "1 \<le> y" "y \<le> MAX_YEAR"
  shows "Date_fromCString (Date_toString n) = Inr n"
proof -
  obtain len w bc y' where len: "DateToStringCast_Length y = (len, w, bc, y')" by (metis prod_cases4)
  then have y': "y' = y" "\<not> bc" using assms(2) by (auto simp: DateToStringCast_Length_def Let_def)
  have v: "Date_isValid y m d" "day_number (y, m, d) = n"
    using Date_convert_spec [OF assms(1)] assms(2,3) by (auto simp: Date_isValid_iff MIN_YEAR_def)
  have "\<bar>y\<bar> < 10000000" using assms(2,3) by (simp add: MAX_YEAR_def)
  from Date_toString_length [OF assms(1) len this]
  have "Date_toString n = DateToStringCast_Format y m d w bc"
    by (simp add: Date_toString_def Let_def assms(1) len y')
  then show ?thesis
    using tryConvertDate_toString [OF v(1) assms(2), of w] v(2) y'(2)
    by (simp add: DateToStringCast_Format_def Date_fromCString_def)
qed

theorem date_text_round_trip_witness:
  "Date_fromCString (Date_toString 0) = Inr 0"
  by (rule date_text_round_trip [OF Date_convert_0]) (simp_all add: MAX_YEAR_def)

end
