(* ===== verification/Time.thy ===== *)
theory Time
  imports Date_Text
begin

text \<open>
  Times of day: \<^verbatim>\<open>src/src/common/types/dtime_t.cpp\<close> and the printer \<^verbatim>\<open>TimeToStringCast\<close> of
  \<^verbatim>\<open>src/src/include/common/types/cast_helpers.h\<close>. A \<^verbatim>\<open>dtime_t\<close> is its one field, the microseconds since midnight.
\<close>

type_synonym dtime_t = int

subsection \<open>Conversion\<close>

definition Time_isValid :: "int \<Rightarrow> int \<Rightarrow> int \<Rightarrow> int \<Rightarrow> bool" where
  "Time_isValid hour minute second microseconds =
     (if hour > 23 \<or> hour < 0 \<or> minute > 59 \<or> minute < 0 \<or> second > 59 \<or> second < 0 \<or>
         microseconds > 999999 \<or> microseconds < 0 then False else True)"

definition fromTimeInternal :: "int \<Rightarrow> int \<Rightarrow> int \<Rightarrow> int \<Rightarrow> dtime_t" where
  "fromTimeInternal hour minute second microseconds =
     (let result = hour;
          result = result * MINS_PER_HOUR + minute;
          result = result * SECS_PER_MINUTE + second;
          result = result * MICROS_PER_SEC + microseconds
      in result)"

definition fromTime :: "int \<Rightarrow> int \<Rightarrow> int \<Rightarrow> int \<Rightarrow> dtime_t result" where
  "fromTime hour minute second microseconds =
     (if \<not> Time_isValid hour minute second microseconds
      then Inl (ConversionException (''Time field value out of range: '' @ decimal_int hour @ '':'' @ decimal_int minute @
             '':'' @ decimal_int second @ ''[.'' @ decimal_int microseconds @ ''].''))
      else Inr (fromTimeInternal hour minute second microseconds))"

definition Time_convert :: "dtime_t \<Rightarrow> int \<times> int \<times> int \<times> int" where
  "Time_convert dtime =
     (let time = dtime;
          hour = wrap INT32 (time sdiv MICROS_PER_HOUR);
          time = time - hour * MICROS_PER_HOUR;
          minute = wrap INT32 (time sdiv MICROS_PER_MINUTE);
          time = time - minute * MICROS_PER_MINUTE;
          sec = wrap INT32 (time sdiv MICROS_PER_SEC);
          time = time - sec * MICROS_PER_SEC;
          micros = wrap INT32 time
      in (hour, minute, sec, micros))"

subsection \<open>Parsing\<close>

text \<open>The hours, of at most nine digits, and the digits of a fraction, of which the seventh and later ones count
  nothing.\<close>

fun tryConvertInternal_hour :: "nat \<Rightarrow> int \<Rightarrow> string \<Rightarrow> (int \<times> string) option" where
  "tryConvertInternal_hour left hour [] = Some (hour, [])"
| "tryConvertInternal_hour left hour (c # buf) =
     (if CharacterIsDigit c then
        (case left of
           0 \<Rightarrow> None
         | Suc left \<Rightarrow> tryConvertInternal_hour left (hour * 10 + digit_value c) buf)
      else Some (hour, c # buf))"

fun parse_fraction :: "int \<Rightarrow> int \<Rightarrow> string \<Rightarrow> int \<times> string" where
  "parse_fraction mult micros [] = (micros, [])"
| "parse_fraction mult micros (c # buf) =
     (if CharacterIsDigit c
      then parse_fraction (mult sdiv 10) (if mult > 0 then micros + digit_value c * mult else micros) buf
      else (micros, c # buf))"

text \<open>The time and the text after it.\<close>

definition tryConvertInternal :: "string \<Rightarrow> (dtime_t \<times> string) option" where
  "tryConvertInternal buf =
     (if length buf = 0 then None
      else
        let buf = dropWhile isSpace buf in
        if buf = [] then None
        else if \<not> CharacterIsDigit (hd buf) then None
        else
          case tryConvertInternal_hour 9 0 buf of
            None \<Rightarrow> None
          | Some (hour, []) \<Rightarrow> None
          | Some (hour, sep # buf) \<Rightarrow>
              if sep \<noteq> CHR '':'' then None
              else
                case parseDoubleDigit buf of
                  None \<Rightarrow> None
                | Some (minute, buf) \<Rightarrow>
                    if minute < 0 \<or> minute \<ge> 60 then None
                    else
                      case buf of
                        [] \<Rightarrow> None
                      | c # buf \<Rightarrow>
                          if c \<noteq> sep then None
                          else
                            case parseDoubleDigit buf of
                              None \<Rightarrow> None
                            | Some (sec, buf) \<Rightarrow>
                                if sec < 0 \<or> sec \<ge> 60 then None
                                else
                                  let (micros, buf) =
                                        (if buf \<noteq> [] \<and> hd buf = CHR ''.''
                                         then parse_fraction 100000 0 (tl buf) else (0, buf))
                                  in Some (fromTimeInternal hour minute sec micros, buf))"

definition tryConvertInterval :: "string \<Rightarrow> dtime_t option" where
  "tryConvertInterval buf =
     (case tryConvertInternal buf of
        None \<Rightarrow> None
      | Some (result, buf) \<Rightarrow> if dropWhile isSpace buf \<noteq> [] then None else Some result)"

definition tryConvertTime :: "string \<Rightarrow> (dtime_t \<times> string) option" where
  "tryConvertTime buf =
     (case tryConvertInternal buf of
        None \<Rightarrow> None
      | Some (result, buf) \<Rightarrow> if result < MICROS_PER_DAY then Some (result, buf) else None)"

definition Time_fromCString :: "string \<Rightarrow> dtime_t result" where
  "Time_fromCString buf =
     (case tryConvertTime buf of
        None \<Rightarrow> Inl (ConversionException (''Error occurred during parsing time. Given: '' @ [CHR 0x22] @ buf @
                  [CHR 0x22] @ ''. Expected format: (hh:mm:ss[.zzzzzz]).''))
      | Some (result, _) \<Rightarrow> Inr result)"

subsection \<open>Printing\<close>

text \<open>The six digits of the microseconds, and the number of zeros at the end that are not printed.\<close>

definition FormatMicros :: "nat \<Rightarrow> string \<times> nat" where
  "FormatMicros microseconds =
     (let micro_buffer = pad_zeros 6 (FormatUnsigned microseconds [])
      in (micro_buffer, length (takeWhile (\<lambda>c. c = CHR ''0'') (rev (drop 1 micro_buffer)))))"

definition TimeToStringCast_Length :: "int \<Rightarrow> nat \<times> string" where
  "TimeToStringCast_Length micros =
     (if micros = 0 then (8, [])
      else let (micro_buffer, zeros) = FormatMicros (nat micros) in (15 - zeros, micro_buffer))"

definition TimeToStringCast_Format :: "nat \<Rightarrow> int \<Rightarrow> int \<Rightarrow> int \<Rightarrow> string \<Rightarrow> string" where
  "TimeToStringCast_Format len hour minute sec micro_buffer =
     FormatTwoDigits (nat hour) @ '':'' @ FormatTwoDigits (nat minute) @ '':'' @ FormatTwoDigits (nat sec) @
     (if 8 < len then ''.'' @ take (len - 9) micro_buffer else [])"

definition Time_toString :: "dtime_t \<Rightarrow> string" where
  "Time_toString time =
     (let (hour, minute, sec, micros) = Time_convert time;
          (len, micro_buffer) = TimeToStringCast_Length micros
      in take len (TimeToStringCast_Format len hour minute sec micro_buffer))"

subsection \<open>Conversion is a mixed-radix representation\<close>

lemmas time_units = MICROS_PER_DAY_def MICROS_PER_HOUR_def MICROS_PER_MINUTE_def MICROS_PER_SEC_def
  MINS_PER_HOUR_def SECS_PER_MINUTE_def HOURS_PER_DAY_def

lemma fromTimeInternal_eq:
  "fromTimeInternal h m s u = h * MICROS_PER_HOUR + m * MICROS_PER_MINUTE + s * MICROS_PER_SEC + u"
  by (simp add: fromTimeInternal_def)

lemma fromTimeInternal_range:
  "Time_isValid h m s u \<Longrightarrow> 0 \<le> fromTimeInternal h m s u \<and> fromTimeInternal h m s u < MICROS_PER_DAY"
  by (simp add: fromTimeInternal_eq Time_isValid_def split: if_splits)

lemma sdiv_div_nonneg: "0 \<le> a \<Longrightarrow> 0 < b \<Longrightarrow> a sdiv b = a div b" for a b :: int
  by (simp add: signed_divide_int_def sgn_if)

lemma Time_convert_valid:
  assumes "0 \<le> t" "t < MICROS_PER_DAY"
  obtains h m s u where "Time_convert t = (h, m, s, u)" "Time_isValid h m s u" "fromTimeInternal h m s u = t"
proof -
  define h where "h = t div MICROS_PER_HOUR"
  define r where "r = t mod MICROS_PER_HOUR"
  define m where "m = r div MICROS_PER_MINUTE"
  define r' where "r' = r mod MICROS_PER_MINUTE"
  define s where "s = r' div MICROS_PER_SEC"
  define u where "u = r' mod MICROS_PER_SEC"
  note d = div_mult_mod_eq [of t MICROS_PER_HOUR] div_mult_mod_eq [of r MICROS_PER_MINUTE]
    div_mult_mod_eq [of r' MICROS_PER_SEC]
  have eq: "t - h * MICROS_PER_HOUR = r" "r - m * MICROS_PER_MINUTE = r'" "r' - s * MICROS_PER_SEC = u"
    using d unfolding h_def m_def s_def r_def [symmetric] r'_def [symmetric] u_def [symmetric] by linarith+
  have r: "0 \<le> r" "r < MICROS_PER_HOUR" "0 \<le> r'" "r' < MICROS_PER_MINUTE" "0 \<le> u" "u < MICROS_PER_SEC"
    by (simp_all add: r_def r'_def u_def)
  have h: "0 \<le> h" "h < 24" using eq(1) r(1,2) assms by (simp_all add: h_def)
  have m: "0 \<le> m" "m < 60" using eq(2) r by (simp_all add: m_def)
  have s: "0 \<le> s" "s < 60" using eq(3) r by (simp_all add: s_def)
  have u6: "u < 1000000" using r(6) by simp
  have w: "wrap INT32 x = x" if "0 \<le> x" "x < 1000000" for x
    using that by (intro wrap_id) (simp add: in_range_def)
  have "Time_convert t = (h, m, s, u)"
    using h m s r assms w [OF r(5) u6]
    by (simp add: Time_convert_def Let_def sdiv_div_nonneg w eq h_def [symmetric] m_def [symmetric] s_def [symmetric] del: time_units)
  moreover have "Time_isValid h m s u" using h m s r by (simp add: Time_isValid_def)
  moreover have "fromTimeInternal h m s u = t" using eq by (simp add: fromTimeInternal_eq)
  ultimately show ?thesis by (rule that)
qed

lemma radix_unique:
  fixes a n :: int
  assumes "a * n + b = a' * n + b'" "0 \<le> b" "b < n" "0 \<le> b'" "b' < n"
  shows "a = a' \<and> b = b'"
proof -
  have "a = (a * n + b) div n" "a' = (a' * n + b') div n" using assms(2-5) by simp_all
  then show ?thesis using assms(1) by simp
qed

lemma fromTimeInternal_inj:
  assumes "fromTimeInternal h m s u = fromTimeInternal h' m' s' u'" "Time_isValid h m s u" "Time_isValid h' m' s' u'"
  shows "(h, m, s, u) = (h', m', s', u')"
proof -
  have b: "0 \<le> m" "m < 60" "0 \<le> s" "s < 60" "0 \<le> u" "u < 1000000"
    "0 \<le> m'" "m' < 60" "0 \<le> s'" "s' < 60" "0 \<le> u'" "u' < 1000000"
    using assms(2,3) by (simp_all add: Time_isValid_def split: if_splits)
  have "((h * 60 + m) * 60 + s) * 1000000 + u = ((h' * 60 + m') * 60 + s') * 1000000 + u'"
    using assms(1) by (simp add: fromTimeInternal_def)
  from radix_unique [OF this b(5,6,11,12)] have u:
    "(h * 60 + m) * 60 + s = (h' * 60 + m') * 60 + s'" "u = u'" by blast+
  from radix_unique [OF u(1) b(3,4,9,10)] have s: "h * 60 + m = h' * 60 + m'" "s = s'" by blast+
  from radix_unique [OF s(1) b(1,2,7,8)] show ?thesis using u(2) s(2) by simp
qed

text \<open>(C32) Times of day and their fields are in bijection: the fields of a valid time make a time below one day that is
  converted back to them, every time below one day has valid fields that make it again, and fields out of range are
  refused.\<close>

theorem time_fields:
  "(Time_isValid h m s u \<longrightarrow> (\<exists>t. fromTime h m s u = Inr t \<and> 0 \<le> t \<and> t < MICROS_PER_DAY \<and> Time_convert t = (h, m, s, u))) \<and>
   (\<not> Time_isValid h m s u \<longrightarrow> (\<exists>e. fromTime h m s u = Inl (ConversionException e))) \<and>
   (0 \<le> t \<and> t < MICROS_PER_DAY \<longrightarrow> (case Time_convert t of (h, m, s, u) \<Rightarrow> fromTime h m s u = Inr t))"
proof (intro conjI impI)
  assume v: "Time_isValid h m s u"
  note r = fromTimeInternal_range [OF v]
  obtain h' m' s' u' where c: "Time_convert (fromTimeInternal h m s u) = (h', m', s', u')" "Time_isValid h' m' s' u'"
    "fromTimeInternal h' m' s' u' = fromTimeInternal h m s u"
    using Time_convert_valid r by blast
  then have "Time_convert (fromTimeInternal h m s u) = (h, m, s, u)"
    using fromTimeInternal_inj [OF c(3,2) v] by simp
  then show "\<exists>t. fromTime h m s u = Inr t \<and> 0 \<le> t \<and> t < MICROS_PER_DAY \<and> Time_convert t = (h, m, s, u)"
    using r v by (simp add: fromTime_def)
next
  assume "\<not> Time_isValid h m s u"
  then show "\<exists>e. fromTime h m s u = Inl (ConversionException e)" by (simp add: fromTime_def)
next
  assume t: "0 \<le> t \<and> t < MICROS_PER_DAY"
  obtain h m s u where "Time_convert t = (h, m, s, u)" "Time_isValid h m s u" "fromTimeInternal h m s u = t"
    using t by (blast elim: Time_convert_valid)
  then show "case Time_convert t of (h, m, s, u) \<Rightarrow> fromTime h m s u = Inr t" by (simp add: fromTime_def)
qed

theorem time_fields_witness:
  "(\<exists>t. fromTime 13 5 59 250000 = Inr t \<and> 0 \<le> t \<and> t < MICROS_PER_DAY \<and> Time_convert t = (13, 5, 59, 250000)) \<and>
   (\<exists>e. fromTime 24 0 0 0 = Inl (ConversionException e))"
  using time_fields [of 13 5 59 250000 0] time_fields [of 24 0 0 0 0] by (simp add: Time_isValid_def)

subsection \<open>Fractions of a second\<close>

lemma extend_shift: "extend_digits False v ds = v * 10 ^ length ds + extend_digits False 0 ds"
proof (induction ds arbitrary: v)
  case (Cons c ds)
  show ?case using Cons.IH [of "v * 10 + digit_value c"] Cons.IH [of "digit_value c"] by (simp add: algebra_simps)
qed simp

lemma extend_append: "extend_digits neg v (ds @ es) = extend_digits neg (extend_digits neg v ds) es"
  by (simp add: extend_digits_def)

lemma parse_fraction_digits:
  assumes "list_all CharacterIsDigit ds" "length ds \<le> Suc k" and rest: "rest = [] \<or> \<not> CharacterIsDigit (hd rest)"
  shows "parse_fraction (10 ^ k) v (ds @ rest) = (v + extend_digits False 0 ds * 10 ^ (Suc k - length ds), rest)"
  using assms(1,2)
proof (induction ds arbitrary: v k)
  case Nil
  then show ?case using rest by (cases rest) simp_all
next
  case (Cons c ds)
  have e: "extend_digits False (digit_value c) ds = digit_value c * 10 ^ length ds + extend_digits False 0 ds"
    by (rule extend_shift)
  show ?case
  proof (cases k)
    case 0
    then have ds: "ds = []" using Cons.prems by simp
    show ?thesis using Cons.prems 0 rest by (cases rest) (simp_all add: ds)
  next
    case (Suc k')
    have "(10::int) ^ Suc k' sdiv 10 = 10 ^ k'" by (simp add: sdiv_div_nonneg)
    moreover have "(10::int) ^ length ds * 10 ^ (Suc k' - length ds) = 10 ^ k"
      using Cons.prems(2) Suc by (simp flip: power_add)
    ultimately show ?thesis
      using Cons.IH [of k' "v + digit_value c * 10 ^ k"] Cons.prems Suc
      by (simp add: e distrib_right mult.assoc del: power_Suc)
  qed
qed

text \<open>The printed fraction keeps its first digit and loses only zeros.\<close>

lemma FormatMicros_spec:
  assumes "u < 1000000" "FormatMicros u = (buf, z)"
  shows "length buf = 6 \<and> z \<le> 5 \<and> list_all CharacterIsDigit buf \<and>
    extend_digits False 0 (take (6 - z) buf) * 10 ^ z = int u"
proof -
  let ?ds = "drop 1 buf"
  have buf: "buf = pad_zeros 6 (FormatUnsigned u [])" and z: "z = length (takeWhile (\<lambda>c. c = CHR ''0'') (rev ?ds))"
    using assms(2) by (auto simp: FormatMicros_def Let_def)
  have "length (FormatUnsigned u []) \<le> 6"
    using length_decimal_le [of u 6] assms(1) by (simp add: FormatUnsigned_decimal)
  then have len: "length buf = 6" by (simp add: buf length_pad_zeros)
  have z5: "z \<le> 5" using length_takeWhile_le [of "\<lambda>c. c = CHR ''0''" "rev ?ds"] len by (simp add: z)
  have "takeWhile (\<lambda>c. c = CHR ''0'') (rev ?ds) = replicate z (CHR ''0'')"
    unfolding z by (rule replicate_eqI [symmetric, THEN sym]) (auto dest: set_takeWhileD)
  then have "take z (rev ?ds) = replicate z (CHR ''0'')"
    by (metis takeWhile_eq_take z)
  then have "drop (5 - z) ?ds = replicate z (CHR ''0'')"
    using len by (simp add: take_rev rev_swap)
  moreover have "drop (5 - z) ?ds = drop (6 - z) buf" using z5 by (simp add: Suc_diff_le [symmetric])
  ultimately have "buf = take (6 - z) buf @ replicate z (CHR ''0'')"
    by (metis append_take_drop_id)
  then have "extend_digits False 0 buf = extend_digits False (extend_digits False 0 (take (6 - z) buf)) (replicate z (CHR ''0''))"
    by (metis extend_append)
  also have "\<dots> = extend_digits False 0 (take (6 - z) buf) * 10 ^ z"
    using extend_zeros [of z "[]"] by (subst extend_shift) simp
  finally show ?thesis using len z5 year_digits(1,2) [of 6 u] by (simp add: buf)
qed

subsection \<open>Text\<close>

lemma length_two_digits [simp]: "length (FormatTwoDigits v) = 2"
  by (simp add: FormatTwoDigits_def)

lemma tryConvertInternal_hour_digits:
  assumes "list_all CharacterIsDigit ds" "length ds \<le> left" "\<not> CharacterIsDigit c"
  shows "tryConvertInternal_hour left v (ds @ c # rest) = Some (extend_digits False v ds, c # rest)"
  using assms
proof (induction ds arbitrary: left v)
  case (Cons d ds)
  then show ?case by (cases left) simp_all
qed simp

lemma two_digits:
  assumes "v < 100"
  shows "list_all CharacterIsDigit (FormatTwoDigits v)" "extend_digits False 0 (FormatTwoDigits v) = int v"
proof -
  have "v div 10 < 10" using assms by (simp add: div_less_iff)
  then show "list_all CharacterIsDigit (FormatTwoDigits v)" "extend_digits False 0 (FormatTwoDigits v) = int v"
    using assms by (simp_all add: FormatTwoDigits_eq zdiv_int zmod_int)
qed

lemma tryConvertInternal_hour_two:
  assumes "h < 24"
  shows "tryConvertInternal_hour 9 0 (FormatTwoDigits h @ CHR '':'' # rest) = Some (int h, CHR '':'' # rest)"
    "\<exists>c cs. FormatTwoDigits h = c # cs \<and> CharacterIsDigit c"
proof -
  have h: "h < 100" using assms by simp
  show "tryConvertInternal_hour 9 0 (FormatTwoDigits h @ CHR '':'' # rest) = Some (int h, CHR '':'' # rest)"
    using tryConvertInternal_hour_digits [OF two_digits(1) [OF h], of 9 "CHR '':''" 0 rest] two_digits(2) [OF h]
    by (simp add: CharacterIsDigit_def)
  show "\<exists>c cs. FormatTwoDigits h = c # cs \<and> CharacterIsDigit c"
    using two_digits(1) [OF h] length_two_digits [of h] by (cases "FormatTwoDigits h") simp_all
qed

text \<open>A time written with a fraction or without one.\<close>

definition time_text :: "int \<Rightarrow> int \<Rightarrow> int \<Rightarrow> int \<Rightarrow> string" where
  "time_text h m s u =
     FormatTwoDigits (nat h) @ '':'' @ FormatTwoDigits (nat m) @ '':'' @ FormatTwoDigits (nat s) @
     (if u = 0 then [] else case FormatMicros (nat u) of (buf, z) \<Rightarrow> CHR ''.'' # take (6 - z) buf)"

lemma Time_toString_text:
  assumes "Time_convert t = (h, m, s, u)" "Time_isValid h m s u"
  shows "Time_toString t = time_text h m s u"
proof (cases "u = 0")
  case True
  then show ?thesis
    using assms(1) by (simp add: Time_toString_def TimeToStringCast_Length_def TimeToStringCast_Format_def time_text_def)
next
  case False
  obtain buf z where f: "FormatMicros (nat u) = (buf, z)" by fastforce
  have "nat u < 1000000" using assms(2) by (simp add: Time_isValid_def nat_less_iff split: if_splits)
  then have "length buf = 6" "z \<le> 5" using FormatMicros_spec [OF _ f] by simp_all
  moreover from this have "15 - z - 9 = 6 - z" "8 < 15 - z" by simp_all
  ultimately show ?thesis
    using assms(1) f False
    by (simp add: Time_toString_def TimeToStringCast_Length_def TimeToStringCast_Format_def time_text_def)
qed

lemma tryConvertInternal_parts:
  assumes "nat h < 24" "nat m < 60" "nat s < 60" "0 \<le> h" "0 \<le> m" "0 \<le> s"
    and f: "(if f \<noteq> [] \<and> hd f = CHR ''.'' then parse_fraction 100000 0 (tl f) else (0, f)) = (u, rest)"
  shows "tryConvertInternal (FormatTwoDigits (nat h) @ CHR '':'' # FormatTwoDigits (nat m) @ CHR '':'' #
    FormatTwoDigits (nat s) @ f) = Some (fromTimeInternal h m s u, rest)"
proof -
  obtain c cs where c: "FormatTwoDigits (nat h) = c # cs" "CharacterIsDigit c"
    using tryConvertInternal_hour_two(2) [OF assms(1)] by blast
  have first: "dropWhile isSpace (FormatTwoDigits (nat h) @ r) = FormatTwoDigits (nat h) @ r"
    "CharacterIsDigit (hd (FormatTwoDigits (nat h) @ r))" "FormatTwoDigits (nat h) @ r \<noteq> []" for r
    using c not_space_digit by simp_all
  have hour: "tryConvertInternal_hour 9 0 (FormatTwoDigits (nat h) @ CHR '':'' # r) = Some (h, CHR '':'' # r)" for r
    using tryConvertInternal_hour_two(1) [OF assms(1)] assms(4) by simp
  have two: "parseDoubleDigit (FormatTwoDigits (nat m) @ r) = Some (m, r)"
    "parseDoubleDigit (FormatTwoDigits (nat s) @ r) = Some (s, r)" for r
    using parse_two_digits [of "nat m"] parse_two_digits [of "nat s"] assms(2,3,5,6) by simp_all
  show ?thesis
    unfolding tryConvertInternal_def using assms by (simp add: first hour two f nat_less_iff)
qed

lemma tryConvertInternal_text:
  assumes v: "Time_isValid h m s u" and rest: "rest = [] \<or> \<not> CharacterIsDigit (hd rest) \<and> hd rest \<noteq> CHR ''.''"
  shows "tryConvertInternal (time_text h m s u @ rest) = Some (fromTimeInternal h m s u, rest)"
proof -
  have b: "nat h < 24" "nat m < 60" "nat s < 60" "0 \<le> h" "0 \<le> m" "0 \<le> s" "nat u < 1000000" "0 \<le> u"
    using v by (simp_all add: Time_isValid_def nat_less_iff split: if_splits)
  define f where "f = (if u = 0 then [] else case FormatMicros (nat u) of (buf, z) \<Rightarrow> CHR ''.'' # take (6 - z) buf)"
  have "(if f @ rest \<noteq> [] \<and> hd (f @ rest) = CHR ''.'' then parse_fraction 100000 0 (tl (f @ rest)) else (0, f @ rest)) =
      (u, rest)"
  proof (cases "u = 0")
    case False
    obtain buf z where z: "FormatMicros (nat u) = (buf, z)" by fastforce
    note s = FormatMicros_spec [OF b(7) z]
    have "list_all CharacterIsDigit (take (6 - z) buf)" using s by (auto simp: list_all_iff dest: in_set_takeD)
    from parse_fraction_digits [OF this, of 5 rest 0] s b(8) rest show ?thesis by (auto simp: f_def z False)
  qed (use rest in \<open>auto simp: f_def\<close>)
  from tryConvertInternal_parts [OF b(1-6) this] show ?thesis
    by (simp add: time_text_def f_def)
qed

text \<open>(C33) The text of every time of day is parsed back to the same time, the microseconds included, both as a time and
  as an interval.\<close>

theorem time_text_round_trip:
  assumes "0 \<le> t" "t < MICROS_PER_DAY"
  shows "Time_fromCString (Time_toString t) = Inr t \<and> tryConvertInterval (Time_toString t) = Some t"
proof -
  obtain h m s u where c: "Time_convert t = (h, m, s, u)" "Time_isValid h m s u" "fromTimeInternal h m s u = t"
    using assms by (blast elim: Time_convert_valid)
  then show ?thesis
    using assms Time_toString_text [OF c(1,2)] tryConvertInternal_text [OF c(2), of "[]"]
    by (simp add: Time_fromCString_def tryConvertTime_def tryConvertInterval_def)
qed

theorem time_text_round_trip_witness:
  "Time_fromCString (Time_toString 47159250000) = Inr 47159250000 \<and> tryConvertInterval (Time_toString 47159250000) = Some 47159250000"
  by (rule time_text_round_trip) simp_all

text \<open>A text that goes on after the time is refused as an interval and accepted as a time.\<close>

lemma time_accepts_trailing_text:
  "tryConvertInterval ''10:00:00xyz'' = None \<and> Time_fromCString ''10:00:00xyz'' = Inr 36000000000"
  by code_simp

end
