(* ===== verification/Timestamp.thy ===== *)
theory Timestamp
  imports Time
begin

text \<open>
  Timestamps: \<^verbatim>\<open>src/src/common/types/timestamp_t.cpp\<close>, and the comparisons of dates with timestamps in
  \<^verbatim>\<open>src/src/common/types/date_t.cpp\<close>. A \<^verbatim>\<open>timestamp_t\<close> is its one field, the microseconds since the epoch. A position
  in a text is the rest of the text from it; the text ends with a character that is not a space.
\<close>

type_synonym timestamp_t = int

subsection \<open>Dates and times of a timestamp\<close>

definition getDate :: "timestamp_t \<Rightarrow> date_t" where
  "getDate timestamp =
     wrap INT32 ((timestamp + of_bool (timestamp < 0)) sdiv MICROS_PER_DAY - of_bool (timestamp < 0))"

definition getTime :: "timestamp_t \<Rightarrow> dtime_t" where
  "getTime timestamp = wrap INT64 (timestamp - getDate timestamp * MICROS_PER_DAY)"

definition fromDateTime :: "date_t \<Rightarrow> dtime_t \<Rightarrow> timestamp_t result" where
  "fromDateTime date time =
     (let (year, month, day) = Date_convert date;
          (hour, minute, second, microsecond) = Time_convert time
      in if \<not> Date_isValid year month day \<or> \<not> Time_isValid hour minute second microsecond
         then Inl (ConversionException ''Invalid date or time format'')
         else Inr (wrap INT64 (date * MICROS_PER_DAY + time)))"

definition Timestamp_convert :: "timestamp_t \<Rightarrow> date_t \<times> dtime_t" where
  "Timestamp_convert timestamp = (getDate timestamp, getTime timestamp)"

subsection \<open>Arithmetic and comparison\<close>

definition timestamp_add_interval :: "timestamp_t \<Rightarrow> interval_t \<Rightarrow> timestamp_t result" where
  "timestamp_add_interval ts i =
     (let (date, time) = Timestamp_convert ts in
      rbind (date_add_interval date i) (\<lambda>date.
        let diff = i_micros i - i_micros i sdiv MICROS_PER_DAY * MICROS_PER_DAY;
            time = time + diff;
            (date, time) =
              (if time \<ge> MICROS_PER_DAY then (wrap INT32 (date + 1), time - MICROS_PER_DAY)
               else if time < 0 then (wrap INT32 (date - 1), time + MICROS_PER_DAY)
               else (date, time))
        in fromDateTime date time))"

definition timestamp_sub_interval :: "timestamp_t \<Rightarrow> interval_t \<Rightarrow> timestamp_t result" where
  "timestamp_sub_interval ts i =
     timestamp_add_interval ts
       (interval (wrap INT32 (- i_months i)) (wrap INT32 (- i_days i)) (wrap INT64 (- i_micros i)))"

definition timestamp_diff :: "timestamp_t \<Rightarrow> timestamp_t \<Rightarrow> interval_t" where
  "timestamp_diff l r =
     (let diff = wrap UINT64 \<bar>wrap INT64 (l - r)\<bar>;
          days = wrap INT32 (diff div MICROS_PER_DAY);
          micros = wrap INT64 (diff mod MICROS_PER_DAY)
      in if l < r then interval 0 (wrap INT32 (- days)) (wrap INT64 (- micros)) else interval 0 days micros)"

definition date_eq_timestamp :: "date_t \<Rightarrow> timestamp_t \<Rightarrow> bool result" where
  "date_eq_timestamp date ts = rbind (fromDateTime date 0) (\<lambda>v. Inr (v = ts))"

definition date_neq_timestamp :: "date_t \<Rightarrow> timestamp_t \<Rightarrow> bool result" where
  "date_neq_timestamp date ts = rbind (date_eq_timestamp date ts) (\<lambda>b. Inr (\<not> b))"

definition date_lt_timestamp :: "date_t \<Rightarrow> timestamp_t \<Rightarrow> bool result" where
  "date_lt_timestamp date ts = rbind (fromDateTime date 0) (\<lambda>v. Inr (v < ts))"

definition date_le_timestamp :: "date_t \<Rightarrow> timestamp_t \<Rightarrow> bool result" where
  "date_le_timestamp date ts =
     rbind (date_lt_timestamp date ts) (\<lambda>b. if b then Inr True else date_eq_timestamp date ts)"

definition date_gt_timestamp :: "date_t \<Rightarrow> timestamp_t \<Rightarrow> bool result" where
  "date_gt_timestamp date ts = rbind (date_le_timestamp date ts) (\<lambda>b. Inr (\<not> b))"

definition date_ge_timestamp :: "date_t \<Rightarrow> timestamp_t \<Rightarrow> bool result" where
  "date_ge_timestamp date ts = rbind (date_lt_timestamp date ts) (\<lambda>b. Inr (\<not> b))"

definition timestamp_eq_date :: "timestamp_t \<Rightarrow> date_t \<Rightarrow> bool result" where
  "timestamp_eq_date ts date = date_eq_timestamp date ts"

definition timestamp_neq_date :: "timestamp_t \<Rightarrow> date_t \<Rightarrow> bool result" where
  "timestamp_neq_date ts date = rbind (date_eq_timestamp date ts) (\<lambda>b. Inr (\<not> b))"

definition timestamp_lt_date :: "timestamp_t \<Rightarrow> date_t \<Rightarrow> bool result" where
  "timestamp_lt_date ts date = date_gt_timestamp date ts"

definition timestamp_le_date :: "timestamp_t \<Rightarrow> date_t \<Rightarrow> bool result" where
  "timestamp_le_date ts date = date_ge_timestamp date ts"

definition timestamp_gt_date :: "timestamp_t \<Rightarrow> date_t \<Rightarrow> bool result" where
  "timestamp_gt_date ts date = date_lt_timestamp date ts"

definition timestamp_ge_date :: "timestamp_t \<Rightarrow> date_t \<Rightarrow> bool result" where
  "timestamp_ge_date ts date = date_le_timestamp date ts"

subsection \<open>Epochs and parts\<close>

definition fromEpochMicroSeconds :: "int \<Rightarrow> timestamp_t" where
  "fromEpochMicroSeconds micros = micros"

definition fromEpochMilliSeconds :: "int \<Rightarrow> timestamp_t result" where
  "fromEpochMilliSeconds ms =
     rbind (Multiply_operation INT64 ms MICROS_PER_MSEC) (\<lambda>(microSeconds, l, r). Inr (fromEpochMicroSeconds microSeconds))"

definition fromEpochSeconds :: "int \<Rightarrow> timestamp_t result" where
  "fromEpochSeconds sec =
     rbind (Multiply_operation INT64 sec MICROS_PER_SEC) (\<lambda>(microSeconds, l, r). Inr (fromEpochMicroSeconds microSeconds))"

definition fromEpochNanoSeconds :: "int \<Rightarrow> timestamp_t" where
  "fromEpochNanoSeconds ns = fromEpochMicroSeconds (ns sdiv 1000)"

definition getEpochNanoSeconds :: "timestamp_t \<Rightarrow> int result" where
  "getEpochNanoSeconds timestamp =
     rbind (Multiply_operation INT64 timestamp NANOS_PER_MICRO) (\<lambda>(v, l, r). Inr v)"

definition getEpochMilliSeconds :: "timestamp_t \<Rightarrow> int" where
  "getEpochMilliSeconds timestamp = timestamp sdiv MICROS_PER_MSEC"

definition getEpochSeconds :: "timestamp_t \<Rightarrow> int" where
  "getEpochSeconds timestamp = timestamp sdiv MICROS_PER_SEC"

definition getTimestampPart_micros :: "timestamp_t \<Rightarrow> int" where
  "getTimestampPart_micros timestamp = wrap INT32 (getTime timestamp smod MICROS_PER_MINUTE)"

definition getTimestampPart :: "DatePartSpecifier \<Rightarrow> timestamp_t \<Rightarrow> int" where
  "getTimestampPart specifier timestamp =
     (case specifier of
        MICROSECOND \<Rightarrow> getTimestampPart_micros timestamp
      | MILLISECOND \<Rightarrow> getTimestampPart_micros timestamp sdiv MICROS_PER_MSEC
      | SECOND \<Rightarrow> getTimestampPart_micros timestamp sdiv MICROS_PER_SEC
      | MINUTE \<Rightarrow> wrap INT32 (getTime timestamp smod MICROS_PER_HOUR sdiv MICROS_PER_MINUTE)
      | HOUR \<Rightarrow> wrap INT32 (getTime timestamp sdiv MICROS_PER_HOUR)
      | _ \<Rightarrow> fst (getDatePart specifier (getDate timestamp)))"

definition Timestamp_trunc :: "DatePartSpecifier \<Rightarrow> timestamp_t \<Rightarrow> timestamp_t result" where
  "Timestamp_trunc specifier timestamp =
     (let (date, time) = Timestamp_convert timestamp;
          (hour, minute, sec, micros) = Time_convert time
      in case specifier of
           MICROSECOND \<Rightarrow> Inr timestamp
         | MILLISECOND \<Rightarrow>
             (let micros = micros - micros smod MICROS_PER_MSEC
              in rbind (fromTime hour minute sec micros) (fromDateTime date))
         | SECOND \<Rightarrow> rbind (fromTime hour minute sec 0) (fromDateTime date)
         | MINUTE \<Rightarrow> rbind (fromTime hour minute 0 0) (fromDateTime date)
         | HOUR \<Rightarrow> rbind (fromTime hour 0 0 0) (fromDateTime date)
         | _ \<Rightarrow> rbind (Date_trunc specifier (getDate timestamp)) (\<lambda>date. fromDateTime date 0))"

subsection \<open>Text\<close>





subsection \<open>Days and times are quotient and remainder\<close>

lemma day_pos: "0 < MICROS_PER_DAY" "0 \<le> ts mod MICROS_PER_DAY" "ts mod MICROS_PER_DAY < MICROS_PER_DAY"
  by simp_all

lemma getDate_div:
  assumes "in_range INT64 ts"
  shows "getDate ts = ts div MICROS_PER_DAY"
proof -
  have "\<bar>ts div MICROS_PER_DAY\<bar> \<le> 106751992"
    using assms by (simp add: in_range_def div_less_iff abs_le_iff) linarith
  then have w: "wrap INT32 (ts div MICROS_PER_DAY) = ts div MICROS_PER_DAY"
    by (intro wrap_id) (auto simp: in_range_def)
  have neg: "(ts + 1) sdiv MICROS_PER_DAY - 1 = ts div MICROS_PER_DAY" if "ts < 0"
  proof -
    let ?q = "ts div MICROS_PER_DAY" and ?r = "ts mod MICROS_PER_DAY"
    have "- (ts + 1) = (- ?q - 1) * MICROS_PER_DAY + (MICROS_PER_DAY - 1 - ?r)" "0 \<le> ?r" "?r < MICROS_PER_DAY"
      using div_mult_mod_eq [of ts MICROS_PER_DAY] by (simp_all add: algebra_simps)
    then have "- (ts + 1) div MICROS_PER_DAY = - ?q - 1"
      by (intro int_div_pos_eq [where r = "MICROS_PER_DAY - 1 - ?r"]) (simp_all add: mult.commute)
    moreover have "(ts + 1) sdiv MICROS_PER_DAY = - (- (ts + 1) div MICROS_PER_DAY)"
      using that by (simp add: signed_divide_int_def sgn_if)
    ultimately show ?thesis by simp
  qed
  show ?thesis
    by (cases "ts < 0") (simp_all add: getDate_def neg w sdiv_div_nonneg day_pos(1) del: time_units)
qed

lemma getTime_mod:
  assumes "in_range INT64 ts"
  shows "getTime ts = ts mod MICROS_PER_DAY"
proof -
  have "in_range INT64 r" if "0 \<le> r" "r < MICROS_PER_DAY" for r
    using that by (simp add: in_range_def)
  then have "wrap INT64 (ts mod MICROS_PER_DAY) = ts mod MICROS_PER_DAY"
    by (intro wrap_id) simp
  then show ?thesis
    by (simp add: getTime_def getDate_div [OF assms] minus_div_mult_eq_mod del: time_units)
qed

lemma fromDateTime_eq:
  assumes "Date_convert n = (y, m, d)" "0 \<le> t" "t < MICROS_PER_DAY"
  shows "fromDateTime n t =
    (if MIN_YEAR \<le> y \<and> y \<le> MAX_YEAR then Inr (wrap INT64 (n * MICROS_PER_DAY + t))
     else Inl (ConversionException ''Invalid date or time format''))"
proof -
  obtain h mi s u where t: "Time_convert t = (h, mi, s, u)" "Time_isValid h mi s u"
    using assms(2,3) by (blast elim: Time_convert_valid)
  have "Date_isValid y m d \<longleftrightarrow> MIN_YEAR \<le> y \<and> y \<le> MAX_YEAR"
    using Date_convert_spec(1) [OF assms(1)] by (simp add: Date_isValid_iff)
  then show ?thesis using assms(1) t by (auto simp: fromDateTime_def)
qed

lemma fromDateTime_div_mod:
  assumes "in_range INT64 ts" "Date_convert (ts div MICROS_PER_DAY) = (y, m, d)" "MIN_YEAR \<le> y" "y \<le> MAX_YEAR"
  shows "fromDateTime (ts div MICROS_PER_DAY) (ts mod MICROS_PER_DAY) = Inr ts"
  using fromDateTime_eq [OF assms(2) day_pos(2,3)] assms(3,4) wrap_id [OF assms(1)]
  by (simp del: time_units)

text \<open>(C34) The date and the time of a timestamp are its floored quotient and remainder by a day, for negative timestamps
  too; a date and a time of day are put together to a timestamp, within 64 bits, that has them as its date and its time;
  and a timestamp in a valid year is put together from its parts.\<close>

theorem timestamp_parts:
  assumes "in_range INT64 ts"
  shows "Timestamp_convert ts = (ts div MICROS_PER_DAY, ts mod MICROS_PER_DAY) \<and>
    (\<forall>n t. fromDateTime n t = Inr ts \<and> in_range INT64 (n * MICROS_PER_DAY + t) \<and> 0 \<le> t \<and> t < MICROS_PER_DAY \<longrightarrow>
       Timestamp_convert ts = (n, t)) \<and>
    (\<forall>y m d. Date_convert (getDate ts) = (y, m, d) \<and> MIN_YEAR \<le> y \<and> y \<le> MAX_YEAR \<longrightarrow>
       fromDateTime (getDate ts) (getTime ts) = Inr ts)"
proof (intro conjI allI impI)
  show c: "Timestamp_convert ts = (ts div MICROS_PER_DAY, ts mod MICROS_PER_DAY)"
    by (simp only: Timestamp_convert_def getDate_div [OF assms] getTime_mod [OF assms])
  fix n t
  assume a: "fromDateTime n t = Inr ts \<and> in_range INT64 (n * MICROS_PER_DAY + t) \<and> 0 \<le> t \<and> t < MICROS_PER_DAY"
  obtain y m d where n: "Date_convert n = (y, m, d)" by (metis prod_cases3)
  have "ts = n * MICROS_PER_DAY + t"
    using a fromDateTime_eq [OF n, of t] wrap_id [of INT64 "n * MICROS_PER_DAY + t"] by (auto split: if_splits)
  then show "Timestamp_convert ts = (n, t)" using a c by (simp del: time_units)
next
  fix y m d
  assume "Date_convert (getDate ts) = (y, m, d) \<and> MIN_YEAR \<le> y \<and> y \<le> MAX_YEAR"
  then show "fromDateTime (getDate ts) (getTime ts) = Inr ts"
    using fromDateTime_div_mod [OF assms] by (simp only: getDate_div [OF assms] getTime_mod [OF assms])
qed

theorem timestamp_parts_witness:
  "Timestamp_convert (- 1) = (- 1, 86399999999)"
  using timestamp_parts [of "- 1"] by (simp add: in_range_def)


subsection \<open>Arithmetic\<close>

lemma day_before_epoch: "Date_convert (- 1) = (1969, 12, 31)" "getDate (- 1) = - 1"
    using Date_convert_day_number [of "(1969, 12, 31)"]
    by (simp_all add: civil_def monthDays_def isLeapYear_def signed_modulo_int_def at_def NORMAL_DAYS_def
        day_number_def year_start_def leaps_def cumulative_def CUMULATIVE_DAYS_def getDate_def wrap.simps)


lemma add_no_months:
  assumes "in_range INT64 ts" "i_months i = 0" "in_range INT32 (i_micros i sdiv MICROS_PER_DAY)"
    "in_range INT32 (getDate ts + i_days i)" "in_range INT32 (getDate ts + i_days i + i_micros i sdiv MICROS_PER_DAY)"
  shows "date_add_interval (getDate ts) i = Inr (getDate ts + i_days i + i_micros i sdiv MICROS_PER_DAY)"
  using assms(2-5) by (auto simp: date_add_interval_def Let_def wrap_id signed_divide_int_def [of 0] simp del: time_units)

lemma carry_day:
  assumes "x = n * MICROS_PER_DAY + t" "- MICROS_PER_DAY < t" "t < 2 * MICROS_PER_DAY"
  shows "(if t \<ge> MICROS_PER_DAY then (n + 1, t - MICROS_PER_DAY) else if t < 0 then (n - 1, t + MICROS_PER_DAY) else (n, t)) =
    (x div MICROS_PER_DAY, x mod MICROS_PER_DAY)"
proof -
  have eq: "x div MICROS_PER_DAY = q \<and> x mod MICROS_PER_DAY = r"
    if "x = q * MICROS_PER_DAY + r" "0 \<le> r" "r < MICROS_PER_DAY" for q r
    using that by (simp del: time_units)
  consider "t \<ge> MICROS_PER_DAY" | "t < 0" | "0 \<le> t" "t < MICROS_PER_DAY" by linarith
  then show ?thesis
    using eq [of "n + 1" "t - MICROS_PER_DAY"] eq [of "n - 1" "t + MICROS_PER_DAY"] eq [of n t] assms day_pos(1)
    by cases (simp_all add: algebra_simps del: time_units)
qed

lemma sdiv_rest: "\<bar>u - u sdiv MICROS_PER_DAY * MICROS_PER_DAY\<bar> < MICROS_PER_DAY"
proof -
  have "u sdiv MICROS_PER_DAY = sgn u * (\<bar>u\<bar> div MICROS_PER_DAY)"
    using day_pos(1) by (simp add: signed_divide_int_def del: time_units)
  then have "u - u sdiv MICROS_PER_DAY * MICROS_PER_DAY = sgn u * (\<bar>u\<bar> mod MICROS_PER_DAY)"
    unfolding minus_div_mult_eq_mod [symmetric] right_diff_distrib mult_sgn_abs by (simp only: mult.assoc)
  then show ?thesis using day_pos(2,3) [of "\<bar>u\<bar>"] by (auto simp: sgn_if abs_mult simp del: time_units)
qed

lemma sdiv_day_range:
  assumes "in_range INT64 u"
  shows "in_range INT32 (u sdiv MICROS_PER_DAY)"
proof -
  have "\<bar>u sdiv MICROS_PER_DAY\<bar> \<le> 106751992"
    using assms by (auto simp: in_range_def div_less_iff abs_le_iff signed_divide_int_def abs_mult sgn_if)
  then show ?thesis by (auto simp: in_range_def abs_le_iff simp del: time_units)
qed

lemma day_range: "in_range INT64 x \<Longrightarrow> in_range INT32 (x div MICROS_PER_DAY)"
  by (simp add: in_range_def div_less_iff) linarith

lemma timestamp_add_no_months:
  fixes ts i
  defines "x \<equiv> ts + i_days i * MICROS_PER_DAY + i_micros i"
  assumes "in_range INT64 ts" "in_range INT32 (x div MICROS_PER_DAY)" "i_months i = 0" "in_range INT64 (i_micros i)"
    "in_range INT32 (getDate ts + i_days i)" "in_range INT32 (getDate ts + i_days i + i_micros i sdiv MICROS_PER_DAY)"
  shows "timestamp_add_interval ts i = fromDateTime (x div MICROS_PER_DAY) (x mod MICROS_PER_DAY)"
proof -
  let ?n = "getDate ts + i_days i + i_micros i sdiv MICROS_PER_DAY"
  let ?t = "getTime ts + (i_micros i - i_micros i sdiv MICROS_PER_DAY * MICROS_PER_DAY)"
  have x: "x = ?n * MICROS_PER_DAY + ?t"
    unfolding x_def getDate_div [OF assms(2)] getTime_mod [OF assms(2)]
    using div_mult_mod_eq [of ts MICROS_PER_DAY] by (simp add: algebra_simps del: time_units)
  have "- MICROS_PER_DAY < ?t" "?t < 2 * MICROS_PER_DAY"
    using sdiv_rest [of "i_micros i"] day_pos(2,3) [of ts] unfolding getTime_mod [OF assms(2)] by linarith+
  note carry = carry_day [OF x this]
  have "(if ?t \<ge> MICROS_PER_DAY then (wrap INT32 (?n + 1), ?t - MICROS_PER_DAY)
      else if ?t < 0 then (wrap INT32 (?n - 1), ?t + MICROS_PER_DAY) else (?n, ?t)) = (x div MICROS_PER_DAY, x mod MICROS_PER_DAY)"
    using carry wrap_id [OF assms(3)] by (auto split: if_splits simp del: time_units)
  then show ?thesis
    unfolding timestamp_add_interval_def Timestamp_convert_def prod.case Let_def add_no_months [OF assms(2,4) sdiv_day_range [OF assms(5)] assms(6,7)]
    by (simp del: time_units)
qed

text \<open>(C35) Adding an interval without months to a timestamp, as long as the day numbers it passes through fit 32 bits: it throws
  exactly when the date of the sum is outside the valid years; otherwise the result is the timestamp with the days and the
  microseconds added, whatever their signs, where the sum fits 64 bits. The last valid year has dates after the last 64-bit
  timestamp: a sum on one of these wraps without an error.\<close>

theorem timestamp_add_exact:
  fixes ts i
  defines "x \<equiv> ts + i_days i * MICROS_PER_DAY + i_micros i"
  assumes "in_range INT64 ts" "in_range INT64 (i_micros i)" "i_months i = 0"
    "in_range INT32 (getDate ts + i_days i)" "in_range INT32 (getDate ts + i_days i + i_micros i sdiv MICROS_PER_DAY)"
    "in_range INT32 (x div MICROS_PER_DAY)" "Date_convert (x div MICROS_PER_DAY) = (y, m, d)"
  shows "timestamp_add_interval ts i =
    (if y < MIN_YEAR \<or> MAX_YEAR < y then Inl (ConversionException ''Invalid date or time format'')
     else if in_range INT64 x then Inr x else Inr (wrap INT64 x))"
  unfolding timestamp_add_no_months [OF assms(2,7,4,3,5,6) [unfolded x_def], folded x_def]
    fromDateTime_eq [OF assms(8) day_pos(2,3)] div_mult_mod_eq
  using wrap_id [of INT64 x] by (auto simp: not_less)

theorem timestamp_add_exact_witness:
  "timestamp_add_interval 0 (interval 0 0 (- 1)) = Inr (- 1)"
proof -
  have "(- 1) sdiv MICROS_PER_DAY = 0" "getDate 0 = 0" "(- 1) div MICROS_PER_DAY = - 1"
    by (simp_all add: signed_divide_int_def getDate_def wrap.simps)
  then show ?thesis
    using day_before_epoch timestamp_add_exact [of 0 "interval 0 0 (- 1)" 1969 12 31]
    by (simp add: interval_def in_range_def MIN_YEAR_def MAX_YEAR_def del: time_units)
qed

lemma timestamp_diff_eq:
  assumes "in_range INT64 (a - b)" "a - b \<noteq> - (2 ^ 63)"
  shows "timestamp_diff a b = interval 0 ((a - b) sdiv MICROS_PER_DAY) (a - b - (a - b) sdiv MICROS_PER_DAY * MICROS_PER_DAY)"
proof -
  let ?d = "\<bar>a - b\<bar>"
  have d: "?d < 2 ^ 63" using assms by (auto simp: in_range_def abs_if)
  have "wrap UINT64 ?d = ?d" using d by (intro wrap_id) (simp add: in_range_def)
  moreover have q: "0 \<le> ?d div MICROS_PER_DAY" "?d div MICROS_PER_DAY \<le> 106751992"
    using d by (simp_all add: div_less_iff)
  have "wrap INT32 (?d div MICROS_PER_DAY) = ?d div MICROS_PER_DAY"
    "wrap INT32 (- (?d div MICROS_PER_DAY)) = - (?d div MICROS_PER_DAY)"
    using q by (auto intro!: wrap_id simp: in_range_def simp del: time_units)
  moreover have "wrap INT64 (?d mod MICROS_PER_DAY) = ?d mod MICROS_PER_DAY"
    "wrap INT64 (- (?d mod MICROS_PER_DAY)) = - (?d mod MICROS_PER_DAY)"
    using day_pos(2,3) [of ?d] by (auto intro!: wrap_id simp: in_range_def)
  moreover have "(a - b) sdiv MICROS_PER_DAY = sgn (a - b) * (?d div MICROS_PER_DAY)"
    using day_pos(1) by (simp add: signed_divide_int_def del: time_units)
  moreover have "?d mod MICROS_PER_DAY = ?d - ?d div MICROS_PER_DAY * MICROS_PER_DAY"
    by (rule minus_div_mult_eq_mod [symmetric])
  ultimately show ?thesis
    using wrap_id [OF assms(1)]
    by (cases "a < b") (auto simp: timestamp_diff_def Let_def sgn_if intro!: arg_cong [where f = "interval 0 z" for z] simp del: time_units)
qed

text \<open>(C36) The difference of two timestamps, added to the second, gives the first.\<close>

theorem timestamp_difference:
  assumes "in_range INT64 a" "in_range INT64 b" "in_range INT64 (a - b)" "a - b \<noteq> - (2 ^ 63)"
    "Date_convert (getDate a) = (y, m, d)" "MIN_YEAR \<le> y" "y \<le> MAX_YEAR"
  shows "timestamp_add_interval b (timestamp_diff a b) = Inr a"
proof -
  let ?q = "(a - b) sdiv MICROS_PER_DAY" and ?i = "timestamp_diff a b"
  have i: "i_months ?i = 0" "i_days ?i = ?q" "i_micros ?i = a - b - ?q * MICROS_PER_DAY"
    by (simp_all add: timestamp_diff_eq [OF assms(3,4)] interval_def)
  then have x: "b + i_days ?i * MICROS_PER_DAY + i_micros ?i = a" by (simp del: time_units)
  have z: "i_micros ?i sdiv MICROS_PER_DAY = 0"
    using sdiv_rest [of "a - b"] day_pos(1) unfolding i by (simp add: signed_divide_int_def del: time_units)
  have micros: "in_range INT64 (i_micros ?i)"
    using sdiv_rest [of "a - b"] unfolding i by (auto simp: in_range_def abs_less_iff)
  have n: "\<bar>b div MICROS_PER_DAY\<bar> \<le> 106751992" "\<bar>?q\<bar> \<le> 106751992"
    using assms(2,3) abs_sdiv_le [of "a - b" MICROS_PER_DAY]
    by (auto simp: in_range_def div_less_iff abs_le_iff signed_divide_int_def abs_mult sgn_if)
  then have r: "in_range INT32 (getDate b + i_days ?i)"
    unfolding getDate_div [OF assms(2)] i by (auto simp: in_range_def abs_le_iff simp del: time_units)
  have c: "Date_convert (a div MICROS_PER_DAY) = (y, m, d)" using assms(5) unfolding getDate_div [OF assms(1)] .
  have "timestamp_add_interval b ?i = fromDateTime (a div MICROS_PER_DAY) (a mod MICROS_PER_DAY)"
    using timestamp_add_no_months [OF assms(2), of ?i] day_range [OF assms(1)] i(1) r micros unfolding x z by (simp del: time_units)
  then show ?thesis using fromDateTime_div_mod [OF assms(1) c assms(6,7)] by simp
qed

theorem timestamp_difference_witness:
  "timestamp_add_interval 90000000000 (timestamp_diff (- 1) 90000000000) = Inr (- 1)"
proof (rule timestamp_difference)
  show "Date_convert (getDate (- 1)) = (1969, 12, 31)" by (simp only: day_before_epoch)
qed (simp_all add: in_range_def MIN_YEAR_def MAX_YEAR_def)

subsection \<open>Truncation\<close>

lemma truncated_time:
  assumes v: "Time_isValid h m s u" and t: "fromTimeInternal h m s u = t"
  shows "fromTimeInternal h 0 0 0 = t - t mod MICROS_PER_HOUR" "fromTimeInternal h m 0 0 = t - t mod MICROS_PER_MINUTE"
    "fromTimeInternal h m s 0 = t - t mod MICROS_PER_SEC"
    "fromTimeInternal h m s (u - u smod MICROS_PER_MSEC) = t - t mod MICROS_PER_MSEC"
proof -
  have b: "0 \<le> m" "m < 60" "0 \<le> s" "s < 60" "0 \<le> u" "u < 1000000"
    using v by (simp_all add: Time_isValid_def split: if_splits)
  have r: "x = q * n + r \<Longrightarrow> 0 \<le> r \<Longrightarrow> r < n \<Longrightarrow> x mod n = r" for x q n r :: int by simp
  have "t mod MICROS_PER_HOUR = m * MICROS_PER_MINUTE + s * MICROS_PER_SEC + u"
    by (rule r [of _ h]) (use b t in \<open>simp_all add: fromTimeInternal_eq\<close>)
  then show "fromTimeInternal h 0 0 0 = t - t mod MICROS_PER_HOUR" using t by (simp add: fromTimeInternal_eq del: time_units)
  have "t mod MICROS_PER_MINUTE = s * MICROS_PER_SEC + u"
    by (rule r [of _ "h * 60 + m"]) (use b t in \<open>simp_all add: fromTimeInternal_eq\<close>)
  then show "fromTimeInternal h m 0 0 = t - t mod MICROS_PER_MINUTE" using t by (simp add: fromTimeInternal_eq del: time_units)
  have "t mod MICROS_PER_SEC = u"
    by (rule r [of _ "(h * 60 + m) * 60 + s"]) (use b t in \<open>simp_all add: fromTimeInternal_eq\<close>)
  then show "fromTimeInternal h m s 0 = t - t mod MICROS_PER_SEC" using t by (simp add: fromTimeInternal_eq del: time_units)
  have "t = u + ((h * 60 + m) * 60 + s) * 1000 * MICROS_PER_MSEC" using t by (simp add: fromTimeInternal_eq)
  then have "t mod MICROS_PER_MSEC = u mod MICROS_PER_MSEC" by (simp only: mod_mult_self1)
  moreover have "u smod MICROS_PER_MSEC = u mod MICROS_PER_MSEC" using b by (simp add: signed_modulo_int_def sgn_if)
  ultimately show "fromTimeInternal h m s (u - u smod MICROS_PER_MSEC) = t - t mod MICROS_PER_MSEC"
    using t by (simp add: fromTimeInternal_eq del: time_units)
qed

text \<open>(C37) Truncating a timestamp to hours, minutes, seconds or milliseconds rounds it down to a multiple of the unit,
  before the epoch too.\<close>

theorem timestamp_trunc_floor:
  assumes ts: "in_range INT64 ts" "Date_convert (getDate ts) = (y, m, d)" "MIN_YEAR \<le> y" "y \<le> MAX_YEAR"
    and k: "(spec, k) \<in> {(HOUR, MICROS_PER_HOUR), (MINUTE, MICROS_PER_MINUTE), (SECOND, MICROS_PER_SEC), (MILLISECOND, MICROS_PER_MSEC)}"
    and lower: "in_range INT64 (ts - ts mod k)"
  shows "Timestamp_trunc spec ts = Inr (ts - ts mod k)"
proof -
  let ?n = "ts div MICROS_PER_DAY" and ?t = "ts mod MICROS_PER_DAY"
  have c: "Date_convert ?n = (y, m, d)" using ts(2) unfolding getDate_div [OF ts(1)] .
  obtain h mi s u where t: "Time_convert ?t = (h, mi, s, u)" "Time_isValid h mi s u" "fromTimeInternal h mi s u = ?t"
    using day_pos(2,3) by (blast elim: Time_convert_valid)
  have from_date: "fromDateTime ?n t' = Inr (ts - ts mod k)" if "0 \<le> t'" "t' \<le> ?t" "t' = ?t - ts mod k" for t'
  proof -
    have "?n * MICROS_PER_DAY + t' = ts - ts mod k" using that(3) div_mult_mod_eq [of ts MICROS_PER_DAY] by linarith
    moreover have "t' < MICROS_PER_DAY" using that(2) day_pos(3) [of ts] by linarith
    ultimately show ?thesis using fromDateTime_eq [OF c that(1)] ts(3,4) wrap_id [OF lower] by simp
  qed
  have dvd: "ts mod k = ?t mod k" using k by (auto simp: mod_mod_cancel)
  have ok: "rbind (fromTime h' m' s' u') (fromDateTime ?n) = Inr (ts - ts mod k)"
    if "Time_isValid h' m' s' u'" "fromTimeInternal h' m' s' u' = ?t - ?t mod k" for h' m' s' u'
  proof -
    have "0 \<le> ?t mod k" using k by auto
    then have "fromDateTime ?n (fromTimeInternal h' m' s' u') = Inr (ts - ts mod k)"
      using that(2) fromTimeInternal_range [OF that(1)] unfolding dvd
      by - (rule from_date [unfolded dvd]; linarith)
    then show ?thesis using that(1) by (simp add: fromTime_def)
  qed
  have low: "0 \<le> u - u smod MICROS_PER_MSEC" "u - u smod MICROS_PER_MSEC \<le> u"
    using t(2) by (simp_all add: Time_isValid_def signed_modulo_int_def sgn_if zmod_le_nonneg_dividend split: if_splits)
  have valid: "Time_isValid h 0 0 0" "Time_isValid h mi 0 0" "Time_isValid h mi s 0"
    "Time_isValid h mi s (u - u smod MICROS_PER_MSEC)"
    using t(2) low by (simp_all add: Time_isValid_def split: if_splits del: time_units)
  note tr = truncated_time [OF t(2,3)]
  from k ok [OF valid(1)] ok [OF valid(2)] ok [OF valid(3)] ok [OF valid(4)] show ?thesis
    by (auto simp: Timestamp_trunc_def Timestamp_convert_def getDate_div [OF ts(1)] getTime_mod [OF ts(1)] t(1) tr
        simp del: time_units MICROS_PER_MSEC_def)
qed

theorem timestamp_trunc_floor_witness:
  "Timestamp_trunc HOUR (- 1) = Inr (- 3600000000)"
proof -
  have "Date_convert (getDate (- 1)) = (1969, 12, 31)" by (simp only: day_before_epoch)
  from timestamp_trunc_floor [OF _ this, of HOUR MICROS_PER_HOUR] show ?thesis
    by (simp add: in_range_def MIN_YEAR_def MAX_YEAR_def)
qed

subsection \<open>Text\<close>





subsection \<open>Dates and timestamps\<close>

lemma date_timestamp_order:
  assumes "Date_convert n = (y, m, d)" "MIN_YEAR \<le> y" "y \<le> MAX_YEAR" "in_range INT64 (n * MICROS_PER_DAY)"
  shows "date_eq_timestamp n ts = Inr (n * MICROS_PER_DAY = ts)" "date_neq_timestamp n ts = Inr (n * MICROS_PER_DAY \<noteq> ts)"
    "date_lt_timestamp n ts = Inr (n * MICROS_PER_DAY < ts)" "date_le_timestamp n ts = Inr (n * MICROS_PER_DAY \<le> ts)"
    "date_gt_timestamp n ts = Inr (n * MICROS_PER_DAY > ts)" "date_ge_timestamp n ts = Inr (n * MICROS_PER_DAY \<ge> ts)"
proof -
  have "fromDateTime n 0 = Inr (n * MICROS_PER_DAY)"
    using fromDateTime_eq [OF assms(1), of 0] assms(2,3) wrap_id [OF assms(4)] day_pos(1) by (simp del: time_units)
  then show "date_eq_timestamp n ts = Inr (n * MICROS_PER_DAY = ts)" "date_neq_timestamp n ts = Inr (n * MICROS_PER_DAY \<noteq> ts)"
    "date_lt_timestamp n ts = Inr (n * MICROS_PER_DAY < ts)" "date_le_timestamp n ts = Inr (n * MICROS_PER_DAY \<le> ts)"
    "date_gt_timestamp n ts = Inr (n * MICROS_PER_DAY > ts)" "date_ge_timestamp n ts = Inr (n * MICROS_PER_DAY \<ge> ts)"
    by (auto simp: date_eq_timestamp_def date_neq_timestamp_def date_lt_timestamp_def date_le_timestamp_def
        date_gt_timestamp_def date_ge_timestamp_def simp del: time_units)
qed

text \<open>The last valid date is later than the last timestamp of 64 bits: its timestamp wraps to one before the epoch.\<close>

lemma last_date_wraps:
  "\<exists>n ts. fromDate 294247 12 31 = Inr n \<and> fromDateTime n 0 = Inr ts \<and> ts < 0"
proof -
  have v: "Date_isValid 294247 12 31"
    by (simp add: Date_isValid_iff civil_def monthDays_def isLeapYear_def signed_modulo_int_def at_def NORMAL_DAYS_def
        MIN_YEAR_def MAX_YEAR_def)
  have n: "day_number (294247, 12, 31) = 106752346"
    by (simp add: day_number_def year_start_def leaps_def cumulative_def CUMULATIVE_DAYS_def isLeapYear_def signed_modulo_int_def at_def)
  have "Date_convert 106752346 = (294247, 12, 31)"
    using Date_convert_day_number [of "(294247, 12, 31)"] v n by (simp add: Date_isValid_iff)
  then have "fromDateTime 106752346 0 = Inr (wrap INT64 (106752346 * MICROS_PER_DAY))"
    using fromDateTime_eq [of 106752346 294247 12 31 0] by (simp add: MIN_YEAR_def MAX_YEAR_def)
  then show ?thesis using fromDate_valid [OF v] n by (simp add: wrap.simps)
qed

end
