(* ===== verification/Update_Info.thy ===== *)
theory Update_Info
  imports Column_Chunk_Data Transaction
begin

text \<open>
  Versioned updates of column chunks: \<^verbatim>\<open>src/src/storage/store/update_info.cpp\<close>, the update records of
  \<^verbatim>\<open>src/src/storage/undo_buffer.cpp\<close> and the reads of \<^verbatim>\<open>src/src/storage/store/column_chunk.cpp\<close>. Every vector of a chunk has a
  chain of versions, newest first; a version owns the older one (\<^verbatim>\<open>prev\<close>), so a chain is a list, and points to the newer
  one (\<^verbatim>\<open>next\<close>), which is an address. A version that leaves its chain is destroyed: following a pointer to it is
  \<open>DanglingPointer\<close>. Addresses are not used again.
\<close>

subsection \<open>Versions of a vector\<close>

record 'v VectorUpdateInfo =
  vui_addr :: nat
  vui_version :: transaction_t
  rowsInVector :: "nat list"
  numRowsUpdated :: nat
  vui_next :: "nat option"
  vui_data :: "'v ColumnChunkData"

record 'v UpdateInfo =
  vectorsInfo :: "'v VectorUpdateInfo list list"
  ui_brk :: nat

definition new_VectorUpdateInfo :: "'v \<Rightarrow> nat \<Rightarrow> transaction_t \<Rightarrow> 'v VectorUpdateInfo" where
  "new_VectorUpdateInfo zero addr transactionID =
     \<lparr>vui_addr = addr, vui_version = transactionID, rowsInVector = replicate DEFAULT_VECTOR_CAPACITY 0,
      numRowsUpdated = 0, vui_next = None,
      vui_data = new_ColumnChunkData zero DEFAULT_VECTOR_CAPACITY True IN_MEMORY\<rparr>"

definition new_UpdateInfo :: "'v UpdateInfo" where
  "new_UpdateInfo = \<lparr>vectorsInfo = [], ui_brk = 0\<rparr>"

text \<open>The rows a version has a value for.\<close>

definition updatedRows :: "'v VectorUpdateInfo \<Rightarrow> nat list" where
  "updatedRows info = take (numRowsUpdated info) (rowsInVector info)"

text \<open>The first position of a row.\<close>

fun index_of :: "nat \<Rightarrow> nat list \<Rightarrow> nat option" where
  "index_of r [] = None"
| "index_of r (x # xs) = (if x = r then Some 0 else map_option Suc (index_of r xs))"

fun find_version :: "Transaction \<Rightarrow> 'v VectorUpdateInfo list \<Rightarrow> 'v VectorUpdateInfo option" where
  "find_version transaction [] = None"
| "find_version transaction (current # older) =
     (if vui_version current = tx_ID transaction then Some current
      else if vui_version current \<le> tx_startTS transaction then Some current
      else find_version transaction older)"

definition UpdateInfo_getVectorInfo :: "Transaction \<Rightarrow> idx_t \<Rightarrow> 'v UpdateInfo \<Rightarrow> 'v VectorUpdateInfo option" where
  "UpdateInfo_getVectorInfo transaction idx u =
     (if idx \<ge> length (vectorsInfo u) then None else find_version transaction (vectorsInfo u ! idx))"

definition UpdateInfo_getNumUpdatedRows :: "Transaction \<Rightarrow> 'v UpdateInfo \<Rightarrow> nat" where
  "UpdateInfo_getNumUpdatedRows transaction u =
     sum_list (map (\<lambda>i. case UpdateInfo_getVectorInfo transaction i u of
                          Some info \<Rightarrow> numRowsUpdated info | None \<Rightarrow> 0) [0..<length (vectorsInfo u)])"

definition UpdateInfo_hasUpdates :: "Transaction \<Rightarrow> nat \<Rightarrow> nat \<Rightarrow> 'v UpdateInfo \<Rightarrow> bool" where
  "UpdateInfo_hasUpdates transaction startRow numRows u =
     (let startVector = startRow div DEFAULT_VECTOR_CAPACITY; rowInStartVector = startRow mod DEFAULT_VECTOR_CAPACITY;
          endVectorIdx = (startRow + numRows) div DEFAULT_VECTOR_CAPACITY;
          rowInEndVector = (startRow + numRows) mod DEFAULT_VECTOR_CAPACITY
      in list_ex (\<lambda>vectorIdx.
           case UpdateInfo_getVectorInfo transaction vectorIdx u of
             None \<Rightarrow> False
           | Some updateVector \<Rightarrow>
               if numRowsUpdated updateVector = 0 then False
               else
                 let startRowInVector = (if vectorIdx = startVector then rowInStartVector else 0);
                     endRowInVector = (if vectorIdx = endVectorIdx then rowInEndVector else DEFAULT_VECTOR_CAPACITY)
                 in list_ex (\<lambda>row. list_ex (\<lambda>updatedRow. row = updatedRow) (updatedRows updateVector))
                      [startRowInVector..<Suc endRowInVector])
           [startVector..<Suc endVectorIdx])"

subsection \<open>Updating\<close>

text \<open>The search of the chain for a version of the transaction and for conflicts starts at the newest version and follows
  \<^verbatim>\<open>next\<close>. A chain of distinct versions is left after as many steps as it has versions.\<close>

fun conflict_walk ::
  "nat \<Rightarrow> Transaction \<Rightarrow> nat \<Rightarrow> 'v VectorUpdateInfo list \<Rightarrow> 'v VectorUpdateInfo \<Rightarrow> nat option \<Rightarrow> nat option result" where
  "conflict_walk 0 transaction row chain current info = Inl Diverges"
| "conflict_walk (Suc fuel) transaction row chain current info =
     rbind
       (if vui_version current = tx_ID transaction then Inr (Some (vui_addr current))
        else if vui_version current > tx_startTS transaction \<and> row \<in> set (updatedRows current)
        then Inl (RuntimeException ''Write-write conflict of updating the same row.'')
        else Inr info)
       (\<lambda>info. case vui_next current of
          None \<Rightarrow> Inr info
        | Some a \<Rightarrow>
            (case find (\<lambda>n. vui_addr n = a) chain of
               None \<Rightarrow> Inl DanglingPointer
             | Some newer \<Rightarrow> conflict_walk fuel transaction row chain newer info))"

definition getOrCreateVectorInfo ::
  "'v \<Rightarrow> Transaction \<Rightarrow> idx_t \<Rightarrow> nat \<Rightarrow> 'v UpdateInfo \<Rightarrow> ('v UpdateInfo \<times> nat) result" where
  "getOrCreateVectorInfo zero transaction vectorIdx rowIdxInVector u =
     (let vs = vectorsInfo u @ replicate (Suc vectorIdx - length (vectorsInfo u)) [];
          newAddr = ui_brk u;
          newInfo = new_VectorUpdateInfo zero newAddr (tx_ID transaction)
      in case vs ! vectorIdx of
           [] \<Rightarrow> Inr (u\<lparr>vectorsInfo := vs[vectorIdx := [newInfo]], ui_brk := Suc newAddr\<rparr>, newAddr)
         | current # older \<Rightarrow>
             rbind (conflict_walk (Suc (length (vs ! vectorIdx))) transaction rowIdxInVector (vs ! vectorIdx) current None)
               (\<lambda>info. case info of
                  Some a \<Rightarrow> Inr (u\<lparr>vectorsInfo := vs\<rparr>, a)
                | None \<Rightarrow>
                    let prev = current\<lparr>vui_next := Some newAddr\<rparr>
                    in rbind (ColumnChunkData_append (vui_data prev) 0 (numRowsUpdated prev) (vui_data newInfo)) (\<lambda>d.
                         let info = newInfo\<lparr>rowsInVector := write_at (rowsInVector newInfo) 0 (updatedRows prev),
                                            vui_data := d, numRowsUpdated := numRowsUpdated prev\<rparr>
                         in Inr (u\<lparr>vectorsInfo := vs[vectorIdx := info # prev # older], ui_brk := Suc newAddr\<rparr>, newAddr))))"

text \<open>Writing a value to a version overwrites the value of the row, or adds the row.\<close>

definition write_row ::
  "nat \<Rightarrow> 'v ValueVector \<Rightarrow> nat \<Rightarrow> 'v VectorUpdateInfo \<Rightarrow> 'v VectorUpdateInfo" where
  "write_row rowIdxInVector values pos info =
     (case index_of rowIdxInVector (updatedRows info) of
        Some idxInUpdateData \<Rightarrow>
          info\<lparr>vui_data := ColumnChunkData_writeVector values pos idxInUpdateData (vui_data info)\<rparr>
      | None \<Rightarrow>
          info\<lparr>rowsInVector := (rowsInVector info)[numRowsUpdated info := rowIdxInVector],
               vui_data := ColumnChunkData_writeVector values pos (numRowsUpdated info) (vui_data info),
               numRowsUpdated := numRowsUpdated info + 1\<rparr>)"

definition UpdateInfo_update ::
  "'v \<Rightarrow> Transaction \<Rightarrow> idx_t \<Rightarrow> nat \<Rightarrow> 'v ValueVector \<Rightarrow> nat \<Rightarrow> 'v UpdateInfo \<Rightarrow> ('v UpdateInfo \<times> nat) result" where
  "UpdateInfo_update zero transaction vectorIdx rowIdxInVector values pos u =
     rbind (getOrCreateVectorInfo zero transaction vectorIdx rowIdxInVector u) (\<lambda>(u, a).
       Inr (u\<lparr>vectorsInfo := (vectorsInfo u)[vectorIdx :=
                map (\<lambda>n. if vui_addr n = a then write_row rowIdxInVector values pos n else n)
                  (vectorsInfo u ! vectorIdx)]\<rparr>, a))"

subsection \<open>Commit and rollback of update records\<close>

definition commitVectorUpdateInfo :: "transaction_t \<Rightarrow> idx_t \<Rightarrow> nat \<Rightarrow> 'v UpdateInfo \<Rightarrow> 'v UpdateInfo result" where
  "commitVectorUpdateInfo commitTS vectorIdx a u =
     (if vectorIdx < length (vectorsInfo u) \<and> a \<in> vui_addr ` set (vectorsInfo u ! vectorIdx)
      then Inr (u\<lparr>vectorsInfo := (vectorsInfo u)[vectorIdx :=
                   map (\<lambda>n. if vui_addr n = a then n\<lparr>vui_version := commitTS\<rparr> else n) (vectorsInfo u ! vectorIdx)]\<rparr>)
      else Inl DanglingPointer)"

definition rollbackVectorUpdateInfo :: "Transaction \<Rightarrow> idx_t \<Rightarrow> nat \<Rightarrow> 'v UpdateInfo \<Rightarrow> 'v UpdateInfo result" where
  "rollbackVectorUpdateInfo transaction vectorIdx a u =
     (case UpdateInfo_getVectorInfo transaction vectorIdx u of
        None \<Rightarrow> Inr u
      | Some info \<Rightarrow>
          if vui_addr info \<noteq> a then Inr u
          else
            let chain = vectorsInfo u ! vectorIdx;
                prevVersion = tl (dropWhile (\<lambda>n. vui_addr n \<noteq> a) chain)
            in (case vui_next info of
                  Some b \<Rightarrow>
                    (if b \<notin> vui_addr ` set chain then Inl DanglingPointer
                     else case prevVersion of
                            [] \<Rightarrow> Inl NullPointer
                          | p # older \<Rightarrow>
                              Inr (u\<lparr>vectorsInfo := (vectorsInfo u)[vectorIdx :=
                                takeWhile (\<lambda>n. vui_addr n \<noteq> b) chain @ [hd (dropWhile (\<lambda>n. vui_addr n \<noteq> b) chain)] @
                                p\<lparr>vui_next := Some b\<rparr> # older]\<rparr>))
                | None \<Rightarrow> Inr (u\<lparr>vectorsInfo := (vectorsInfo u)[vectorIdx := prevVersion]\<rparr>)))"

subsection \<open>Column chunks with updates\<close>

text \<open>Column chunks that are in memory. The chunks on disk are read through their columns and are not modelled.\<close>

record 'v ColumnChunk =
  ck_data :: "'v ColumnChunkData"
  ck_updateInfo :: "'v UpdateInfo option"

definition ColumnChunk_lookup ::
  "Transaction \<Rightarrow> nat \<Rightarrow> nat \<Rightarrow> 'v ColumnChunk \<Rightarrow> 'v ValueVector \<Rightarrow> 'v ValueVector" where
  "ColumnChunk_lookup transaction rowInChunk posInOutputVector c output =
     (let output = ColumnChunkData_lookup rowInChunk posInOutputVector (ck_data c) output
      in case ck_updateInfo c of
           None \<Rightarrow> output
         | Some u \<Rightarrow>
             (case UpdateInfo_getVectorInfo transaction (rowInChunk div DEFAULT_VECTOR_CAPACITY) u of
                None \<Rightarrow> output
              | Some vectorInfo \<Rightarrow>
                  (case index_of (rowInChunk mod DEFAULT_VECTOR_CAPACITY) (updatedRows vectorInfo) of
                     None \<Rightarrow> output
                   | Some i \<Rightarrow> ColumnChunkData_lookup i posInOutputVector (vui_data vectorInfo) output)))"

definition ColumnChunk_update ::
  "'v \<Rightarrow> nat \<Rightarrow> Transaction \<Rightarrow> nat \<Rightarrow> 'v ValueVector \<Rightarrow> nat \<Rightarrow> 'v ColumnChunk \<Rightarrow> ('v ColumnChunk \<times> Transaction) result" where
  "ColumnChunk_update zero addr transaction offsetInChunk values pos c =
     (if tx_ID transaction = DUMMY_TRANSACTION_ID
      then Inr (c\<lparr>ck_data := ColumnChunkData_writeVector values pos offsetInChunk (ck_data c)\<rparr>, transaction)
      else
        let u = (case ck_updateInfo c of None \<Rightarrow> new_UpdateInfo | Some u \<Rightarrow> u);
            vectorIdx = offsetInChunk div DEFAULT_VECTOR_CAPACITY;
            rowIdxInVector = offsetInChunk mod DEFAULT_VECTOR_CAPACITY
        in rbind (UpdateInfo_update zero transaction vectorIdx rowIdxInVector values pos u) (\<lambda>(u, a).
             Inr (c\<lparr>ck_updateInfo := Some u\<rparr>, pushVectorUpdateInfo addr vectorIdx a transaction)))"

text \<open>A scan reads the stored rows, then writes the updated rows of every vector it touches over them.\<close>

definition scan_vector ::
  "'v VectorUpdateInfo \<Rightarrow> nat \<Rightarrow> nat \<Rightarrow> nat \<Rightarrow> 'v ValueVector \<Rightarrow> 'v ValueVector" where
  "scan_vector vectorInfo startOffset numRowsInVector posInVector output =
     foldl (\<lambda>output i. case index_of (i + startOffset) (updatedRows vectorInfo) of
                         None \<Rightarrow> output
                       | Some k \<Rightarrow> ColumnChunkData_lookup k (posInVector + i) (vui_data vectorInfo) output)
       output [0..<numRowsInVector]"

definition ColumnChunk_scan ::
  "Transaction \<Rightarrow> nat \<Rightarrow> nat \<Rightarrow> 'v ColumnChunk \<Rightarrow> 'v ValueVector \<Rightarrow> 'v ValueVector result" where
  "ColumnChunk_scan transaction offsetInChunk len c output =
     rbind (ColumnChunkData_scan offsetInChunk len 0 (ck_data c) output) (\<lambda>output.
       case ck_updateInfo c of
         None \<Rightarrow> Inr output
       | Some u \<Rightarrow>
           let startVectorIdx = offsetInChunk div DEFAULT_VECTOR_CAPACITY;
               startOffsetInVector = offsetInChunk mod DEFAULT_VECTOR_CAPACITY;
               endVectorIdx = (offsetInChunk + len) div DEFAULT_VECTOR_CAPACITY;
               endOffsetInVector = (offsetInChunk + len) mod DEFAULT_VECTOR_CAPACITY
           in Inr (fst (foldl (\<lambda>(output, posInVector) idx.
                let startOffset = (if idx = startVectorIdx then startOffsetInVector else 0);
                    endOffset = (if idx = endVectorIdx then endOffsetInVector else DEFAULT_VECTOR_CAPACITY);
                    numRowsInVector = endOffset - startOffset
                in (case UpdateInfo_getVectorInfo transaction idx u of
                      Some vectorInfo \<Rightarrow>
                        if numRowsUpdated vectorInfo > 0
                        then scan_vector vectorInfo startOffset numRowsInVector posInVector output else output
                    | None \<Rightarrow> output,
                    posInVector + numRowsInVector))
              (output, 0) [startVectorIdx..<Suc endVectorIdx])))"

definition ColumnChunk_hasUpdates :: "Transaction \<Rightarrow> nat \<Rightarrow> nat \<Rightarrow> 'v ColumnChunk \<Rightarrow> bool" where
  "ColumnChunk_hasUpdates transaction startRow numRows c =
     (case ck_updateInfo c of None \<Rightarrow> False | Some u \<Rightarrow> UpdateInfo_hasUpdates transaction startRow numRows u)"

definition ColumnChunk_getNumUpdatedRows :: "Transaction \<Rightarrow> 'v ColumnChunk \<Rightarrow> nat" where
  "ColumnChunk_getNumUpdatedRows transaction c =
     (case ck_updateInfo c of None \<Rightarrow> 0 | Some u \<Rightarrow> UpdateInfo_getNumUpdatedRows transaction u)"

subsection \<open>Values of a version\<close>

lemma index_of_None: "index_of r xs = None \<longleftrightarrow> r \<notin> set xs"
  by (induction xs) auto

lemma index_of_Some: "index_of r xs = Some i \<Longrightarrow> i < length xs \<and> xs ! i = r"
  by (induction xs arbitrary: i) (auto split: if_splits)

lemma index_of_snoc:
  "index_of r (xs @ [x]) = (if r \<in> set xs then index_of r xs else if x = r then Some (length xs) else None)"
  by (induction xs) (auto simp: index_of_None)

lemma index_of_distinct: "distinct xs \<Longrightarrow> index_of r xs = Some i \<Longrightarrow> index_of r' xs = Some i \<Longrightarrow> r = r'"
  using index_of_Some by metis

lemma ColumnChunkData_writeVector_values:
  assumes wf: "cc_wf c" and i: "i \<le> cc_numValues c" "i < cc_capacity c" and nulls: "nullData c \<noteq> None"
  shows "cc_wf (ColumnChunkData_writeVector v p i c)" "cc_capacity (ColumnChunkData_writeVector v p i c) = cc_capacity c"
    "cc_numValues (ColumnChunkData_writeVector v p i c) = max (cc_numValues c) (Suc i)"
    "nullData (ColumnChunkData_writeVector v p i c) \<noteq> None"
    "cell (ColumnChunkData_writeVector v p i c) j = (if j = i then vector_cell v p else cell c j)"
proof -
  obtain n where n: "nullData c = Some n" using nulls by blast
  have w: "nc_wf (cc_capacity c) n" "nc_numValues n = cc_numValues c" "length (cc_buffer c) = cc_capacity c"
    "cc_numValues c \<le> cc_capacity c"
    using wf by (simp_all add: cc_wf_def n)
  note sn = NullChunkData_setNull [OF w(1) i(2)]
  show "cc_capacity (ColumnChunkData_writeVector v p i c) = cc_capacity c"
    "cc_numValues (ColumnChunkData_writeVector v p i c) = max (cc_numValues c) (Suc i)"
    "nullData (ColumnChunkData_writeVector v p i c) \<noteq> None"
    by (auto simp: ColumnChunkData_writeVector_def Let_def n)
  show "cc_wf (ColumnChunkData_writeVector v p i c)"
    using w i sn(1,3) by (auto simp: ColumnChunkData_writeVector_def Let_def n cc_wf_def max_def)
  show "cell (ColumnChunkData_writeVector v p i c) j = (if j = i then vector_cell v p else cell c j)"
    using w(3) i(2)
    by (auto simp: ColumnChunkData_writeVector_def Let_def n cell_def ColumnChunkData_isNull_def sn(2) vector_cell_def)
qed

definition value_in :: "'v VectorUpdateInfo \<Rightarrow> nat \<Rightarrow> 'v option option" where
  "value_in info row = map_option (cell (vui_data info)) (index_of row (updatedRows info))"

definition node_wf :: "'v VectorUpdateInfo \<Rightarrow> bool" where
  "node_wf info \<longleftrightarrow> length (rowsInVector info) = DEFAULT_VECTOR_CAPACITY \<and>
     numRowsUpdated info \<le> DEFAULT_VECTOR_CAPACITY \<and> distinct (updatedRows info) \<and>
     (\<forall>r \<in> set (updatedRows info). r < DEFAULT_VECTOR_CAPACITY) \<and>
     cc_wf (vui_data info) \<and> cc_capacity (vui_data info) = DEFAULT_VECTOR_CAPACITY \<and>
     cc_numValues (vui_data info) = numRowsUpdated info \<and> nullData (vui_data info) \<noteq> None"

lemma length_updatedRows: "node_wf n \<Longrightarrow> length (updatedRows n) = numRowsUpdated n"
  by (simp add: node_wf_def updatedRows_def)

lemma node_wf_new: "node_wf (new_VectorUpdateInfo zero a tid)" "value_in (new_VectorUpdateInfo zero a tid) row = None"
  using cc_wf_new [of zero DEFAULT_VECTOR_CAPACITY True IN_MEMORY]
  by (simp_all add: node_wf_def new_VectorUpdateInfo_def updatedRows_def value_in_def)
     (simp add: new_ColumnChunkData_def)

text \<open>A version has room for another row: its rows are distinct and fewer than the capacity.\<close>

lemma room_for_row:
  assumes "node_wf n" "row < DEFAULT_VECTOR_CAPACITY" "row \<notin> set (updatedRows n)"
  shows "numRowsUpdated n < DEFAULT_VECTOR_CAPACITY"
proof -
  have "card (set (row # updatedRows n)) \<le> card {..<DEFAULT_VECTOR_CAPACITY}"
    using assms by (intro card_mono) (auto simp: node_wf_def)
  then show ?thesis
    using assms length_updatedRows [OF assms(1)] by (simp add: node_wf_def distinct_card)
qed

lemma write_row_wf:
  assumes n: "node_wf n" and row: "row < DEFAULT_VECTOR_CAPACITY"
  shows "node_wf (write_row row v p n)"
    "value_in (write_row row v p n) r = (if r = row then Some (vector_cell v p) else value_in n r)"
    "vui_version (write_row row v p n) = vui_version n" "vui_addr (write_row row v p n) = vui_addr n"
    "vui_next (write_row row v p n) = vui_next n"
proof -
  show "vui_version (write_row row v p n) = vui_version n" "vui_addr (write_row row v p n) = vui_addr n"
    "vui_next (write_row row v p n) = vui_next n"
    by (auto simp: write_row_def split: option.splits)
  note d = n [unfolded node_wf_def]
  show "node_wf (write_row row v p n)"
    "value_in (write_row row v p n) r = (if r = row then Some (vector_cell v p) else value_in n r)"
  proof (atomize (full), cases "index_of row (updatedRows n)")
    case (Some i)
    then have i: "i < numRowsUpdated n" using index_of_Some length_updatedRows [OF n] by metis
    note w = ColumnChunkData_writeVector_values [of "vui_data n" i v p]
    have rows: "updatedRows (write_row row v p n) = updatedRows n" by (simp add: write_row_def Some) (simp add: updatedRows_def)
    show "node_wf (write_row row v p n) \<and>
      value_in (write_row row v p n) r = (if r = row then Some (vector_cell v p) else value_in n r)"
      using d i w Some index_of_distinct [of "updatedRows n" row i r]
      by (cases "index_of r (updatedRows n)")
         (auto simp: node_wf_def rows value_in_def, auto simp: write_row_def max_def)
  next
    case None
    then have fresh: "row \<notin> set (updatedRows n)" by (simp add: index_of_None)
    note room = room_for_row [OF n row fresh]
    note w = ColumnChunkData_writeVector_values [of "vui_data n" "numRowsUpdated n" v p]
    have rows: "updatedRows (write_row row v p n) = updatedRows n @ [row]"
      using room d by (simp add: write_row_def None) (simp add: updatedRows_def take_Suc_conv_app_nth)
    show "node_wf (write_row row v p n) \<and>
      value_in (write_row row v p n) r = (if r = row then Some (vector_cell v p) else value_in n r)"
      using d w None fresh row room length_updatedRows [OF n]
      by (cases "index_of r (updatedRows n)")
         (auto simp: node_wf_def rows value_in_def index_of_snoc, auto simp: write_row_def dest: index_of_Some)
  qed
qed

text \<open>A new version starts with the rows and the values of the one before it.\<close>

lemma copied_version:
  fixes prev :: "'v VectorUpdateInfo"
  assumes "node_wf prev"
  shows "\<exists>d. ColumnChunkData_append (vui_data prev) 0 (numRowsUpdated prev) (vui_data (new_VectorUpdateInfo zero a tid)) = Inr d \<and>
    (let info = (new_VectorUpdateInfo zero a tid)\<lparr>rowsInVector := write_at (replicate DEFAULT_VECTOR_CAPACITY 0) 0 (updatedRows prev),
         vui_data := d, numRowsUpdated := numRowsUpdated prev\<rparr>
     in node_wf info \<and> (\<forall>r. value_in info r = value_in prev r))"
proof -
  let ?new = "new_VectorUpdateInfo zero a tid" and ?k = "numRowsUpdated prev"
  note p = assms [unfolded node_wf_def]
  have new: "cc_wf (vui_data ?new)" "cc_capacity (vui_data ?new) = DEFAULT_VECTOR_CAPACITY" "cc_numValues (vui_data ?new) = 0"
    "nullData (vui_data ?new) \<noteq> None" "column_values (vui_data ?new) = []"
    using node_wf_new(1) [of zero a tid] by (simp_all add: node_wf_def new_VectorUpdateInfo_def column_values_def)
  obtain d where d: "ColumnChunkData_append (vui_data prev) 0 ?k (vui_data ?new) = Inr d" "cc_wf d"
    "cc_capacity d = DEFAULT_VECTOR_CAPACITY" "nullData d \<noteq> None" "column_values d = column_values (vui_data prev)"
    using ColumnChunkData_append_values [of "vui_data ?new" "vui_data prev" 0 ?k] new p by (auto simp: same_nulls_def)
  have k: "cc_numValues d = ?k" using arg_cong [OF d(5), of length] p by simp
  have rows: "take ?k (write_at (replicate DEFAULT_VECTOR_CAPACITY 0) 0 (updatedRows prev)) = updatedRows prev"
    using p length_updatedRows [OF assms]
    by (intro nth_equalityI) (simp_all add: nth_write_at)
  have cells: "cell d i = cell (vui_data prev) i" if "i < ?k" for i
    using arg_cong [OF d(5), of "\<lambda>xs. xs ! i"] that k p by simp
  have "map_option (cell d) (index_of r (updatedRows prev)) = map_option (cell (vui_data prev)) (index_of r (updatedRows prev))" for r
    using cells index_of_Some [of r "updatedRows prev"] length_updatedRows [OF assms]
    by (cases "index_of r (updatedRows prev)") auto
  moreover have "updatedRows (?new\<lparr>rowsInVector := write_at (replicate DEFAULT_VECTOR_CAPACITY 0) 0 (updatedRows prev),
      vui_data := d, numRowsUpdated := ?k\<rparr>) = updatedRows prev"
    using rows by (simp add: updatedRows_def)
  ultimately show ?thesis
    using d k p by (intro exI [of _ d]) (simp add: node_wf_def value_in_def Let_def)
qed

subsection \<open>Version chains\<close>

text \<open>What a transaction reads of a chain does not depend on the pointers to newer versions.\<close>

definition strip :: "'v VectorUpdateInfo \<Rightarrow> 'v VectorUpdateInfo" where
  "strip n = n\<lparr>vui_next := None\<rparr>"

definition chain_value :: "Transaction \<Rightarrow> 'v VectorUpdateInfo list \<Rightarrow> nat \<Rightarrow> 'v option option" where
  "chain_value r chain row = (case find_version r chain of None \<Rightarrow> None | Some n \<Rightarrow> value_in n row)"

lemma strip_simps [simp]:
  "vui_addr (strip n) = vui_addr n" "vui_version (strip n) = vui_version n" "value_in (strip n) = value_in n"
  "node_wf (strip n) = node_wf n" "strip (n\<lparr>vui_next := b\<rparr>) = strip n"
  by (auto simp: strip_def value_in_def updatedRows_def node_wf_def)

lemma chain_value_strip: "chain_value r (map strip chain) row = chain_value r chain row"
  by (induction chain) (auto simp: chain_value_def)

lemma chain_value_cong: "map strip chain = map strip chain' \<Longrightarrow> chain_value r chain row = chain_value r chain' row"
  by (metis chain_value_strip)

lemma find_version_cong:
  "tx_ID t = tx_ID t' \<Longrightarrow> tx_startTS t = tx_startTS t' \<Longrightarrow> find_version t chain = find_version t' chain"
  by (induction chain) auto

lemma chain_value_tx:
  "tx_ID t = tx_ID t' \<Longrightarrow> tx_startTS t = tx_startTS t' \<Longrightarrow> chain_value t chain row = chain_value t' chain row"
  using find_version_cong [of t t' chain] by (simp add: chain_value_def)

definition chain_at :: "'v UpdateInfo \<Rightarrow> nat \<Rightarrow> 'v VectorUpdateInfo list" where
  "chain_at u idx = (if idx < length (vectorsInfo u) then vectorsInfo u ! idx else [])"

lemma getVectorInfo_chain: "UpdateInfo_getVectorInfo t idx u = find_version t (chain_at u idx)"
  by (simp add: UpdateInfo_getVectorInfo_def chain_at_def)

text \<open>Well-formed update information: the newest version has no newer one, and all versions are allocated.\<close>

definition ui_wf :: "'v UpdateInfo \<Rightarrow> bool" where
  "ui_wf u \<longleftrightarrow> (\<forall>idx. (\<forall>n \<in> set (chain_at u idx). node_wf n \<and> vui_addr n < ui_brk u) \<and>
     distinct (map vui_addr (chain_at u idx)) \<and> (chain_at u idx \<noteq> [] \<longrightarrow> vui_next (hd (chain_at u idx)) = None))"

lemma ui_wf_new: "ui_wf new_UpdateInfo" "chain_at new_UpdateInfo idx = []"
  by (simp_all add: ui_wf_def new_UpdateInfo_def chain_at_def)

text \<open>All versions were committed before the transaction started.\<close>

definition settled :: "Transaction \<Rightarrow> 'v VectorUpdateInfo list \<Rightarrow> bool" where
  "settled t chain \<longleftrightarrow> (\<forall>n \<in> set chain. vui_version n \<le> tx_startTS t)"

text \<open>A chain during a transaction: as at its start, or with one version of the transaction in front.\<close>

definition owns :: "Transaction \<Rightarrow> 'v VectorUpdateInfo list \<Rightarrow> 'v VectorUpdateInfo \<Rightarrow> 'v VectorUpdateInfo list \<Rightarrow> bool" where
  "owns t chain0 own old \<longleftrightarrow> map strip old = map strip chain0 \<and> vui_version own = tx_ID t \<and> vui_next own = None \<and>
     node_wf own \<and> vui_addr own \<notin> vui_addr ` set old"

definition extended :: "Transaction \<Rightarrow> 'v VectorUpdateInfo list \<Rightarrow> 'v VectorUpdateInfo list \<Rightarrow> bool" where
  "extended t chain0 chain \<longleftrightarrow> chain = chain0 \<or> (\<exists>own old. chain = own # old \<and> owns t chain0 own old)"

lemma settled_not_own: "settled t chain \<Longrightarrow> tx_startTS t < tx_ID t \<Longrightarrow> n \<in> set chain \<Longrightarrow> vui_version n \<noteq> tx_ID t"
  by (auto simp: settled_def)

abbreviation padded :: "nat \<Rightarrow> 'v UpdateInfo \<Rightarrow> 'v VectorUpdateInfo list list" where
  "padded idx u \<equiv> vectorsInfo u @ replicate (Suc idx - length (vectorsInfo u)) []"

lemma padded_nth: "j < length (padded idx u) \<Longrightarrow> padded idx u ! j = chain_at u j" "padded idx u ! idx = chain_at u idx"
  by (auto simp: chain_at_def nth_append)

lemma chain_at_padded:
  assumes "vectorsInfo u' = (padded idx u)[idx := ch]"
  shows "chain_at u' j = (if j = idx then ch else chain_at u j)" "idx < length (vectorsInfo u')"
  using assms padded_nth(1) [of j u idx] by (auto simp: chain_at_def nth_list_update)

text \<open>The outcome of looking for the version of a transaction: its own version is in front, with the values the transaction
  sees.\<close>

definition created ::
  "Transaction \<Rightarrow> 'v VectorUpdateInfo list \<Rightarrow> nat \<Rightarrow> 'v UpdateInfo \<Rightarrow> 'v UpdateInfo \<Rightarrow> 'v VectorUpdateInfo \<Rightarrow>
   'v VectorUpdateInfo list \<Rightarrow> bool" where
  "created t chain0 idx u u' own old \<longleftrightarrow> idx < length (vectorsInfo u') \<and>
     (\<forall>j. chain_at u' j = (if j = idx then own # old else chain_at u j)) \<and> owns t chain0 own old \<and> ui_wf u' \<and>
     (\<forall>r. value_in own r = chain_value t (chain_at u idx) r) \<and>
     (\<forall>own' old'. chain_at u idx = own' # old' \<and> vui_version own' = tx_ID t \<longrightarrow> own = own' \<and> old = old')"

lemma getOrCreate_empty:
  assumes wf: "ui_wf u" and e: "chain_at u idx = []"
  shows "\<exists>u' own old. getOrCreateVectorInfo zero t idx row u = Inr (u', vui_addr own) \<and> created t [] idx u u' own old"
proof -
  let ?a = "ui_brk u" and ?new = "new_VectorUpdateInfo zero (ui_brk u) (tx_ID t)"
  let ?u = "u\<lparr>vectorsInfo := (padded idx u)[idx := [?new]], ui_brk := Suc ?a\<rparr>"
  have new: "vui_addr ?new = ?a" "vui_version ?new = tx_ID t" "vui_next ?new = None"
    by (simp_all add: new_VectorUpdateInfo_def)
  have "getOrCreateVectorInfo zero t idx row u = Inr (?u, ?a)"
    using padded_nth(2) [of u idx] e by (simp add: getOrCreateVectorInfo_def Let_def)
  moreover have "chain_at ?u j = (if j = idx then [?new] else chain_at u j)" "idx < length (vectorsInfo ?u)" for j
    by (rule chain_at_padded; simp)+
  moreover from this have "ui_wf ?u"
    using wf by (auto simp: ui_wf_def node_wf_new new intro: less_SucI)
  ultimately show ?thesis
    using e new by (intro exI [of _ ?u] exI [of _ ?new] exI [of _ "[]"])
      (simp add: created_def owns_def node_wf_new chain_value_def)
qed

lemma getOrCreate_own:
  assumes wf: "ui_wf u" and own: "chain_at u idx = own # old" "owns t chain0 own old"
  shows "\<exists>u' own old. getOrCreateVectorInfo zero t idx row u = Inr (u', vui_addr own) \<and> created t chain0 idx u u' own old"
proof -
  let ?u = "u\<lparr>vectorsInfo := padded idx u\<rparr>"
  have o: "vui_version own = tx_ID t" "vui_next own = None" using own(2) by (simp_all add: owns_def)
  have "getOrCreateVectorInfo zero t idx row u = Inr (?u, vui_addr own)"
    using padded_nth(2) [of u idx] own(1) o by (simp add: getOrCreateVectorInfo_def Let_def)
  moreover have ch: "chain_at ?u j = chain_at u j" for j using padded_nth(1) [of j u idx] by (auto simp: chain_at_def)
  moreover have "ui_wf ?u" using wf by (auto simp: ui_wf_def ch)
  ultimately show ?thesis
    using own o by (intro exI [of _ ?u] exI [of _ own] exI [of _ old]) (auto simp: created_def chain_value_def)
qed

text \<open>Over a version of another transaction that does not conflict, a new version is made with the rows of that version.\<close>

lemma getOrCreate_over:
  assumes wf: "ui_wf u" and cur: "chain_at u idx = cur # older" "vui_version cur \<noteq> tx_ID t"
    and free: "tx_startTS t < vui_version cur \<Longrightarrow> row \<notin> set (updatedRows cur)"
  obtains u' info where "getOrCreateVectorInfo zero t idx row u = Inr (u', vui_addr info)" "ui_wf u'" "idx < length (vectorsInfo u')"
    "\<And>j. chain_at u' j = (if j = idx then info # cur\<lparr>vui_next := Some (vui_addr info)\<rparr> # older else chain_at u j)"
    "vui_version info = tx_ID t" "vui_next info = None" "node_wf info" "vui_addr info \<notin> vui_addr ` set (cur # older)"
    "\<And>r. value_in info r = value_in cur r"
proof -
  let ?a = "ui_brk u" and ?new = "new_VectorUpdateInfo zero (ui_brk u) (tx_ID t)"
  let ?prev = "cur\<lparr>vui_next := Some ?a\<rparr>"
  have new: "vui_addr ?new = ?a" "vui_version ?new = tx_ID t" "vui_next ?new = None"
    "rowsInVector ?new = replicate DEFAULT_VECTOR_CAPACITY 0"
    by (simp_all add: new_VectorUpdateInfo_def)
  have old: "\<forall>n \<in> set (cur # older). node_wf n \<and> vui_addr n < ?a" "distinct (map vui_addr (cur # older))"
    "vui_next cur = None"
    using wf [unfolded ui_wf_def, rule_format, of idx] cur(1) by simp_all
  have wp: "node_wf ?prev" "value_in ?prev = value_in cur" "updatedRows ?prev = updatedRows cur"
    using old(1) strip_simps(3,4) [of ?prev] strip_simps(3,4) [of cur] by (simp_all add: updatedRows_def)
  define info where "info d = ?new\<lparr>rowsInVector := write_at (replicate DEFAULT_VECTOR_CAPACITY 0) 0 (updatedRows ?prev),
      vui_data := d, numRowsUpdated := numRowsUpdated ?prev\<rparr>" for d
  obtain d where d: "ColumnChunkData_append (vui_data ?prev) 0 (numRowsUpdated ?prev) (vui_data ?new) = Inr d"
    and i: "node_wf (info d)" "\<And>r. value_in (info d) r = value_in cur r"
    using copied_version [OF wp(1), of zero ?a "tx_ID t"] unfolding Let_def wp(2) info_def by blast
  let ?u = "u\<lparr>vectorsInfo := (padded idx u)[idx := info d # ?prev # older], ui_brk := Suc ?a\<rparr>"
  have ad: "vui_addr (info d) = ?a" "vui_version (info d) = tx_ID t" "vui_next (info d) = None"
    by (simp_all add: info_def new)
  have ch: "chain_at ?u j = (if j = idx then info d # ?prev # older else chain_at u j)" "idx < length (vectorsInfo ?u)" for j
    by (rule chain_at_padded; simp)+
  show ?thesis
  proof (rule that [of ?u "info d"])
    show "getOrCreateVectorInfo zero t idx row u = Inr (?u, vui_addr (info d))"
      using padded_nth(2) [of u idx] cur free old(3) d by (simp add: getOrCreateVectorInfo_def Let_def new(1,4) info_def)
    show "ui_wf ?u" using wf old i(1) wp(1) ad ch(1) by (auto simp: ui_wf_def intro: less_SucI)
  qed (use ch ad i old in auto)
qed

lemma getOrCreate_committed:
  assumes wf: "ui_wf u" and cur: "chain_at u idx = cur # older" "vui_version cur \<le> tx_startTS t" "tx_startTS t < tx_ID t"
  shows "\<exists>u' own old. getOrCreateVectorInfo zero t idx row u = Inr (u', vui_addr own) \<and>
    created t (cur # older) idx u u' own old"
proof -
  have v: "\<not> tx_startTS t < vui_version cur" "vui_version cur \<noteq> tx_ID t" using cur(2,3) by auto
  obtain u' info where n: "getOrCreateVectorInfo zero t idx row u = Inr (u', vui_addr info)" "ui_wf u'" "idx < length (vectorsInfo u')"
    "\<And>j. chain_at u' j = (if j = idx then info # cur\<lparr>vui_next := Some (vui_addr info)\<rparr> # older else chain_at u j)"
    "vui_version info = tx_ID t" "vui_next info = None" "node_wf info" "vui_addr info \<notin> vui_addr ` set (cur # older)"
    "\<And>r. value_in info r = value_in cur r"
    using getOrCreate_over [OF wf cur(1) v(2)] v(1) by metis
  then show ?thesis
    using cur(1,2) v(2)
    by (intro exI [of _ u'] exI [of _ info] exI [of _ "cur\<lparr>vui_next := Some (vui_addr info)\<rparr> # older"])
      (simp add: created_def owns_def chain_value_def)
qed

lemma getOrCreate_step:
  assumes wf: "ui_wf u" and ext: "extended t chain0 (chain_at u idx)" and set: "settled t chain0" "tx_startTS t < tx_ID t"
  shows "\<exists>u' own old. getOrCreateVectorInfo zero t idx row u = Inr (u', vui_addr own) \<and> created t chain0 idx u u' own old"
proof -
  consider (empty) "chain_at u idx = []" "chain0 = []"
    | (own) own old where "chain_at u idx = own # old" "owns t chain0 own old"
    | (committed) cur older where "chain_at u idx = cur # older" "chain0 = cur # older"
    using ext by (cases "chain_at u idx") (auto simp: extended_def)
  then show ?thesis
  proof cases
    case empty
    then show ?thesis using getOrCreate_empty [OF wf] by simp
  next
    case own
    then show ?thesis by (rule getOrCreate_own [OF wf])
  next
    case committed
    then show ?thesis using getOrCreate_committed [OF wf committed(1) _ set(2)] set(1) by (simp add: settled_def)
  qed
qed

lemma ui_wf_head:
  assumes wf: "ui_wf u" "chain_at u idx = n # old" and n': "node_wf n'" "vui_addr n' = vui_addr n" "vui_next n' = None"
    and u': "ui_brk u' = ui_brk u" "\<And>j. chain_at u' j = (if j = idx then n' # old else chain_at u j)"
  shows "ui_wf u'"
  unfolding ui_wf_def
proof
  fix j
  have "(\<forall>n \<in> set (chain_at u j). node_wf n \<and> vui_addr n < ui_brk u) \<and>
     distinct (map vui_addr (chain_at u j)) \<and> (chain_at u j \<noteq> [] \<longrightarrow> vui_next (hd (chain_at u j)) = None)"
    using wf(1) by (simp add: ui_wf_def)
  then show "(\<forall>n \<in> set (chain_at u' j). node_wf n \<and> vui_addr n < ui_brk u') \<and>
     distinct (map vui_addr (chain_at u' j)) \<and> (chain_at u' j \<noteq> [] \<longrightarrow> vui_next (hd (chain_at u' j)) = None)"
    using wf(2) n' by (cases "j = idx") (simp_all add: u')
qed

text \<open>An update writes one row of the transaction's version.\<close>

lemma update_step:
  assumes wf: "ui_wf u" and ext: "extended t chain0 (chain_at u idx)" and set: "settled t chain0" "tx_startTS t < tx_ID t"
    and row: "row < DEFAULT_VECTOR_CAPACITY"
  shows "\<exists>u' own old. UpdateInfo_update zero t idx row v p u = Inr (u', vui_addr own) \<and> ui_wf u' \<and>
    (\<forall>j. chain_at u' j = (if j = idx then own # old else chain_at u j)) \<and> owns t chain0 own old \<and>
    (\<forall>r. value_in own r = (if r = row then Some (vector_cell v p) else chain_value t (chain_at u idx) r)) \<and>
    (\<forall>own' old'. chain_at u idx = own' # old' \<and> vui_version own' = tx_ID t \<longrightarrow> vui_addr own = vui_addr own' \<and> old = old')"
proof -
  obtain u1 own old where g: "getOrCreateVectorInfo zero t idx row u = Inr (u1, vui_addr own)"
    and c: "created t chain0 idx u u1 own old"
    using getOrCreate_step [OF wf ext set] by blast
  note c' = c [unfolded created_def]
  let ?own = "write_row row v p own"
  let ?u = "u1\<lparr>vectorsInfo := (vectorsInfo u1)[idx := ?own # old]\<rparr>"
  have o: "node_wf own" "vui_addr own \<notin> vui_addr ` set old" using c' by (simp_all add: owns_def)
  note w = write_row_wf [OF o(1) row, where v = v and p = p]
  have "vectorsInfo u1 ! idx = own # old" using c' by (auto simp: chain_at_def split: if_splits)
  moreover have "map (\<lambda>n. if vui_addr n = vui_addr own then write_row row v p n else n) old = old"
    using o(2) by (intro map_idI) (metis imageI)
  ultimately have u: "UpdateInfo_update zero t idx row v p u = Inr (?u, vui_addr ?own)"
    using g by (simp add: UpdateInfo_update_def w(4))
  have ch: "chain_at ?u j = (if j = idx then ?own # old else chain_at u j)" for j
    using c' by (auto simp: chain_at_def nth_list_update split: if_splits)
  have u1: "ui_wf u1" "chain_at u1 idx = own # old" "vui_next own = None" using c' by (simp_all add: owns_def)
  have "ui_wf ?u"
    by (rule ui_wf_head [OF u1(1,2) w(1,4)]) (use u1(3) w(5) c' ch in simp_all)
  moreover have "owns t chain0 ?own old" using c' w by (simp add: owns_def)
  moreover have "value_in ?own r = (if r = row then Some (vector_cell v p) else chain_value t (chain_at u idx) r)" for r
    using c' by (simp add: w(2))
  moreover have "vui_addr ?own = vui_addr own' \<and> old = old'"
    if "chain_at u idx = own' # old'" "vui_version own' = tx_ID t" for own' old'
    using c' that w(4) by auto
  ultimately show ?thesis using u ch by (intro exI [of _ ?u] exI [of _ ?own] exI [of _ old]) simp
qed

text \<open>A row that another transaction has updated in the newest version, uncommitted or committed after the start, is a
  write-write conflict.\<close>

lemma update_conflict_head:
  assumes "chain_at u idx = cur # older" "vui_version cur \<noteq> tx_ID t" "tx_startTS t < vui_version cur"
    "row \<in> set (updatedRows cur)"
  shows "UpdateInfo_update zero t idx row v p u = Inl (RuntimeException ''Write-write conflict of updating the same row.'')"
  using assms padded_nth(2) [of u idx] by (simp add: UpdateInfo_update_def getOrCreateVectorInfo_def Let_def)

text \<open>There is no other conflict: the update then writes to a version of the transaction in front.\<close>

definition conflicting :: "Transaction \<Rightarrow> 'v VectorUpdateInfo list \<Rightarrow> nat \<Rightarrow> bool" where
  "conflicting t chain row \<longleftrightarrow>
     (case chain of [] \<Rightarrow> False
      | cur # older \<Rightarrow> vui_version cur \<noteq> tx_ID t \<and> tx_startTS t < vui_version cur \<and> value_in cur row \<noteq> None)"

lemma conflicting_Cons:
  "conflicting t (cur # older) row \<longleftrightarrow>
   vui_version cur \<noteq> tx_ID t \<and> tx_startTS t < vui_version cur \<and> row \<in> set (updatedRows cur)"
  by (auto simp: conflicting_def value_in_def index_of_None)

lemma created_own:
  "created t chain0 idx u u' own old \<Longrightarrow>
   idx < length (vectorsInfo u') \<and> chain_at u' idx = own # old \<and> vui_version own = tx_ID t \<and> node_wf own"
  by (simp add: created_def owns_def)

lemma getOrCreate_accepts:
  assumes wf: "ui_wf u" and free: "\<not> conflicting t (chain_at u idx) row"
  shows "\<exists>u' own old. getOrCreateVectorInfo zero t idx row u = Inr (u', vui_addr own) \<and> idx < length (vectorsInfo u') \<and>
    chain_at u' idx = own # old \<and> vui_version own = tx_ID t \<and> node_wf own"
proof (cases "chain_at u idx")
  case Nil
  from getOrCreate_empty [OF wf this] created_own show ?thesis by blast
next
  case (Cons cur older)
  show ?thesis
  proof (cases "vui_version cur = tx_ID t")
    case True
    then have "owns t older cur older" using wf [unfolded ui_wf_def, rule_format, of idx] Cons by (simp add: owns_def)
    from getOrCreate_own [OF wf Cons this] created_own show ?thesis by blast
  next
    case False
    have "tx_startTS t < vui_version cur \<Longrightarrow> row \<notin> set (updatedRows cur)" using free False by (simp add: Cons conflicting_Cons)
    from getOrCreate_over [OF wf Cons False this, of zero] show ?thesis by metis
  qed
qed

lemma update_accepted:
  assumes wf: "ui_wf u" and free: "\<not> conflicting t (chain_at u idx) row" and row: "row < DEFAULT_VECTOR_CAPACITY"
  shows "\<exists>u' a. UpdateInfo_update zero t idx row v p u = Inr (u', a) \<and>
    chain_value t (chain_at u' idx) row = Some (vector_cell v p)"
proof -
  obtain u1 own old where n: "getOrCreateVectorInfo zero t idx row u = Inr (u1, vui_addr own)" "idx < length (vectorsInfo u1)"
    "chain_at u1 idx = own # old" "vui_version own = tx_ID t" "node_wf own"
    using getOrCreate_accepts [OF wf free, of zero] by blast
  note w = write_row_wf [OF n(5) row, where v = v and p = p]
  have "vectorsInfo u1 ! idx = own # old" using n(2,3) by (simp add: chain_at_def)
  then show ?thesis using n w by (auto simp: UpdateInfo_update_def chain_at_def chain_value_def)
qed

text \<open>A version of the transaction in front hides the versions behind it from the check: the row of another transaction that has
  not committed is overwritten.\<close>

lemma own_version_hides_conflict:
  assumes wf: "ui_wf u" and chain: "chain_at u idx = own # other # older" "vui_version own = tx_ID t"
    and other: "conflicting t (other # older) row" and row: "row < DEFAULT_VECTOR_CAPACITY"
  shows "\<exists>u' a. UpdateInfo_update zero t idx row v p u = Inr (u', a) \<and>
    chain_value t (chain_at u' idx) row = Some (vector_cell v p)"
  by (rule update_accepted [OF wf _ row]) (simp add: chain conflicting_Cons)

text \<open>The version of a transaction holds the values of a version that another transaction has not committed.\<close>

lemma update_copies_uncommitted:
  assumes wf: "ui_wf u" and cur: "chain_at u idx = cur # older" "vui_version cur \<noteq> tx_ID t"
    and row: "row < DEFAULT_VECTOR_CAPACITY" "row \<notin> set (updatedRows cur)" "row' \<noteq> row"
  shows "\<exists>u' a. UpdateInfo_update zero t idx row v p u = Inr (u', a) \<and> chain_value t (chain_at u' idx) row' = value_in cur row'"
proof -
  obtain u1 info where n: "getOrCreateVectorInfo zero t idx row u = Inr (u1, vui_addr info)" "idx < length (vectorsInfo u1)"
    "chain_at u1 idx = info # cur\<lparr>vui_next := Some (vui_addr info)\<rparr> # older"
    "vui_version info = tx_ID t" "node_wf info" "\<And>r. value_in info r = value_in cur r"
    using getOrCreate_over [OF wf cur, of row zero] row(2) by metis
  note w = write_row_wf [OF n(5) row(1), where v = v and p = p]
  have "vectorsInfo u1 ! idx = info # cur\<lparr>vui_next := Some (vui_addr info)\<rparr> # older"
    using n(2,3) by (simp add: chain_at_def)
  then show ?thesis
    using n row(3) w by (auto simp: UpdateInfo_update_def chain_at_def chain_value_def)
qed

text \<open>A new version also counts the rows it took over as updated: a transaction that updates one of them conflicts with the
  new version, whose transaction did not write the row.\<close>

lemma update_conflicts_with_copied_row:
  assumes wf: "ui_wf u" and cur: "chain_at u idx = cur # older" "vui_version cur \<le> tx_startTS t" "tx_startTS t < tx_ID t"
    and row: "row < DEFAULT_VECTOR_CAPACITY" "row' \<in> set (updatedRows cur)"
    and other: "tx_ID t' \<noteq> tx_ID t" "tx_startTS t' < tx_ID t"
  shows "\<exists>u' a. UpdateInfo_update zero t idx row v p u = Inr (u', a) \<and>
    UpdateInfo_update zero t' idx row' v' p' u' = Inl (RuntimeException ''Write-write conflict of updating the same row.'')"
proof -
  have v: "\<not> tx_startTS t < vui_version cur" "vui_version cur \<noteq> tx_ID t" using cur(2,3) by auto
  obtain u1 info where n: "getOrCreateVectorInfo zero t idx row u = Inr (u1, vui_addr info)" "idx < length (vectorsInfo u1)"
    "chain_at u1 idx = info # cur\<lparr>vui_next := Some (vui_addr info)\<rparr> # older"
    "vui_version info = tx_ID t" "node_wf info" "\<And>r. value_in info r = value_in cur r"
    using getOrCreate_over [OF wf cur(1) v(2), of row zero] v(1) by metis
  note w = write_row_wf [OF n(5) row(1), where v = v and p = p]
  let ?n = "write_row row v p info"
  have "value_in cur row' \<noteq> None" using row(2) by (simp add: value_in_def index_of_None)
  then have "value_in ?n row' \<noteq> None" using w(2) n(6) by simp
  then have in_n: "row' \<in> set (updatedRows ?n)" by (simp add: value_in_def index_of_None)
  let ?ch = "map (\<lambda>n. if vui_addr n = vui_addr info then write_row row v p n else n)
    (info # cur\<lparr>vui_next := Some (vui_addr info)\<rparr> # older)"
  let ?u = "u1\<lparr>vectorsInfo := (vectorsInfo u1)[idx := ?ch]\<rparr>"
  have "vectorsInfo u1 ! idx = info # cur\<lparr>vui_next := Some (vui_addr info)\<rparr> # older"
    using n(2,3) by (simp add: chain_at_def)
  then have u: "UpdateInfo_update zero t idx row v p u = Inr (?u, vui_addr info)" using n(1) by (simp add: UpdateInfo_update_def)
  have ch: "chain_at ?u idx = ?n # tl ?ch" using n(2) by (simp add: chain_at_def)
  have "vui_version ?n \<noteq> tx_ID t'" "tx_startTS t' < vui_version ?n" using w(3) n(4) other by simp_all
  from update_conflict_head [OF ch this in_n, of zero v' p'] u show ?thesis by blast
qed

text \<open>Rolling back the newest version leaves the pointer of the version before it: the next update of the vector by any
  transaction follows it to the destroyed version.\<close>

lemma update_after_rollback_dangles:
  assumes cur: "chain_at u idx = own # prev # older" "vui_version own = tx_ID t" "vui_next own = None"
      "vui_next prev = Some (vui_addr own)" "vui_addr own \<notin> vui_addr ` set (prev # older)"
    and other: "vui_version prev \<le> tx_startTS t'"
  shows "\<exists>u'. rollbackVectorUpdateInfo t idx (vui_addr own) u = Inr u' \<and>
    UpdateInfo_update zero t' idx row v p u' = Inl DanglingPointer"
proof -
  let ?u = "u\<lparr>vectorsInfo := (vectorsInfo u)[idx := prev # older]\<rparr>"
  have at: "vectorsInfo u ! idx = own # prev # older" "idx < length (vectorsInfo u)"
    using cur(1) by (simp_all add: chain_at_def split: if_splits)
  have "rollbackVectorUpdateInfo t idx (vui_addr own) u = Inr ?u"
    using cur(1,2,3) at by (simp add: rollbackVectorUpdateInfo_def getVectorInfo_chain Let_def)
  moreover have "find (\<lambda>n. vui_addr n = vui_addr own) (prev # older) = None"
    unfolding find_None_iff using cur(5) by (metis imageI)
  then have "conflict_walk (Suc (length (prev # older))) t' row (prev # older) prev None = Inl DanglingPointer"
    using other cur(4) by (auto simp del: find.simps simp: not_less)
  then have "UpdateInfo_update zero t' idx row v p ?u = Inl DanglingPointer"
    using at by (simp add: UpdateInfo_update_def getOrCreateVectorInfo_def Let_def del: conflict_walk.simps)
  ultimately show ?thesis by blast
qed

text \<open>The test for updates in a range of rows also looks at the row after the range.\<close>

lemma hasUpdates_looks_past_range:
  assumes "UpdateInfo_getVectorInfo t 0 u = Some n" "updatedRows n = [k]" "k < DEFAULT_VECTOR_CAPACITY"
  shows "UpdateInfo_hasUpdates t 0 k u"
proof -
  have "numRowsUpdated n \<noteq> 0" using assms(2) unfolding updatedRows_def by (metis take0 list.distinct(1))
  then show ?thesis using assms by (simp add: UpdateInfo_hasUpdates_def Let_def)
qed

subsection \<open>Reading a chunk\<close>

definition updates_of :: "'v ColumnChunk \<Rightarrow> 'v UpdateInfo" where
  "updates_of c = (case ck_updateInfo c of None \<Rightarrow> new_UpdateInfo | Some u \<Rightarrow> u)"

abbreviation chain_of :: "'v ColumnChunk \<Rightarrow> nat \<Rightarrow> 'v VectorUpdateInfo list" where
  "chain_of c \<equiv> chain_at (updates_of c)"

definition visible :: "Transaction \<Rightarrow> 'v ColumnChunk \<Rightarrow> nat \<Rightarrow> 'v option" where
  "visible r c off =
     (case chain_value r (chain_of c (off div DEFAULT_VECTOR_CAPACITY)) (off mod DEFAULT_VECTOR_CAPACITY) of
        Some x \<Rightarrow> x
      | None \<Rightarrow> cell (ck_data c) off)"

definition chunk_wf :: "'v ColumnChunk \<Rightarrow> bool" where
  "chunk_wf c \<longleftrightarrow> cc_wf (ck_data c) \<and> ui_wf (updates_of c)"

lemma find_version_in: "find_version r chain = Some n \<Longrightarrow> n \<in> set chain"
  by (induction chain) (auto split: if_splits)

lemma version_value:
  assumes "ui_wf u" "UpdateInfo_getVectorInfo r idx u = Some n" "index_of row (updatedRows n) = Some i"
  shows "i < cc_numValues (vui_data n)" "value_in n row = Some (cell (vui_data n) i)"
proof -
  have "node_wf n"
    using assms(1,2) find_version_in [of r "chain_at u idx" n] by (auto simp: getVectorInfo_chain ui_wf_def)
  then show "i < cc_numValues (vui_data n)"
    using index_of_Some [OF assms(3)] length_updatedRows [of n] by (simp add: node_wf_def)
  show "value_in n row = Some (cell (vui_data n) i)" using assms(3) by (simp add: value_in_def)
qed

lemma lookup_frame:
  "length (vv_data (ColumnChunkData_lookup i p c v)) = length (vv_data v)"
  "length (nm_data (vv_nullMask (ColumnChunkData_lookup i p c v))) = length (nm_data (vv_nullMask v))"
  "q \<noteq> p \<Longrightarrow> p < 64 * length (nm_data (vv_nullMask v)) \<Longrightarrow>
   vector_cell (ColumnChunkData_lookup i p c v) q = vector_cell v q"
proof -
  show "length (vv_data (ColumnChunkData_lookup i p c v)) = length (vv_data v)"
    by (simp add: ColumnChunkData_lookup_def ValueVector_setNull_def Let_def)
  show "length (nm_data (vv_nullMask (ColumnChunkData_lookup i p c v))) = length (nm_data (vv_nullMask v))"
    by (simp add: ColumnChunkData_lookup_def ValueVector_setNull_def NullMask_setNull_def Let_def)
  assume q: "q \<noteq> p" "p < 64 * length (nm_data (vv_nullMask v))"
  then have "p div 64 < length (nm_data (vv_nullMask v))" by auto
  then show "vector_cell (ColumnChunkData_lookup i p c v) q = vector_cell v q"
    using q(1) by (simp add: ColumnChunkData_lookup_def vector_cell_def ValueVector_isNull_def
        ValueVector_setNull_def NullMask_isNull_def NullMask_setNull_def isNull_nbit setNull_nbit Let_def)
qed

lemma ColumnChunk_lookup_visible:
  assumes wf: "chunk_wf c" and off: "off < cc_numValues (ck_data c)"
    and out: "p < 64 * length (nm_data (vv_nullMask v))" "p < length (vv_data v)"
  shows "vector_cell (ColumnChunk_lookup r off p c v) p = visible r c off"
proof -
  let ?v = "ColumnChunkData_lookup off p (ck_data c) v"
  have base: "vector_cell ?v p = cell (ck_data c) off" by (rule ColumnChunkData_lookup_value [OF off out])
  have out': "p < 64 * length (nm_data (vv_nullMask ?v))" "p < length (vv_data ?v)"
    using out by (simp_all add: lookup_frame)
  show ?thesis
  proof (cases "ck_updateInfo c")
    case None
    then show ?thesis
      using base by (simp add: ColumnChunk_lookup_def visible_def updates_of_def ui_wf_new chain_value_def)
  next
    case (Some u)
    then have u: "updates_of c = u" "ui_wf u" using wf by (simp_all add: updates_of_def chunk_wf_def)
    let ?idx = "off div DEFAULT_VECTOR_CAPACITY" and ?row = "off mod DEFAULT_VECTOR_CAPACITY"
    show ?thesis
    proof (cases "UpdateInfo_getVectorInfo r ?idx u")
      case None
      then show ?thesis
        using base Some u by (simp add: ColumnChunk_lookup_def visible_def chain_value_def getVectorInfo_chain)
    next
      case n: (Some n)
      show ?thesis
      proof (cases "index_of ?row (updatedRows n)")
        case None
        then show ?thesis using base Some u n
          by (simp add: ColumnChunk_lookup_def visible_def chain_value_def getVectorInfo_chain value_in_def)
      next
        case i: (Some i)
        note vv = version_value [OF u(2) n i]
        show ?thesis using ColumnChunkData_lookup_value [OF vv(1) out'] Some u n i vv(2)
          by (simp add: ColumnChunk_lookup_def visible_def chain_value_def getVectorInfo_chain)
      qed
    qed
  qed
qed

subsection \<open>An example\<close>

text \<open>A chunk of one row with a committed update.\<close>

definition example_vector :: "int \<Rightarrow> int ValueVector" where
  "example_vector x = \<lparr>vv_data = [x], vv_nullMask = new_NullMask 64\<rparr>"

definition example_chunk :: "int ColumnChunk" where
  "example_chunk =
     \<lparr>ck_data = ColumnChunkData_writeVector (example_vector 3) 0 0 (new_ColumnChunkData 0 64 True IN_MEMORY),
      ck_updateInfo = Some \<lparr>vectorsInfo = [[write_row 0 (example_vector 7) 0 (new_VectorUpdateInfo 0 0 5)]], ui_brk = 1\<rparr>\<rparr>"

lemma example_vector_fits: "nm_wf (vv_nullMask (example_vector x))" "1 \<le> 64 * length (nm_data (vv_nullMask (example_vector x)))"
  "1 \<le> length (vv_data (example_vector x))"
  by (simp_all add: example_vector_def nm_wf_new) (simp add: new_NullMask_def NUM_BITS_PER_NULL_ENTRY_def)

lemma example_chunk_wf: "chunk_wf example_chunk" "cc_numValues (ck_data example_chunk) = 1" "nullData (ck_data example_chunk) \<noteq> None"
proof -
  let ?d = "new_ColumnChunkData (0 :: int) 64 True IN_MEMORY" and ?n = "new_VectorUpdateInfo (0 :: int) 0 5"
  note d = ColumnChunkData_writeVector_values [OF cc_wf_new, of 0 0 64 True IN_MEMORY "example_vector 3" 0]
  have new: "cc_capacity ?d = 64" "cc_numValues ?d = 0" "nullData ?d \<noteq> None" by (simp_all add: new_ColumnChunkData_def)
  show "cc_numValues (ck_data example_chunk) = 1" "nullData (ck_data example_chunk) \<noteq> None"
    using d new by (simp_all add: example_chunk_def)
  note w = write_row_wf [OF node_wf_new(1), of 0 "example_vector 7" 0 0 0 5]
  have "vui_addr ?n = 0" "vui_next ?n = None" by (simp_all add: new_VectorUpdateInfo_def)
  then show "chunk_wf example_chunk"
    using d(1) new w by (simp add: chunk_wf_def example_chunk_def ui_wf_def updates_of_def chain_at_def)
qed

end
