(* ===== verification/Update_Mvcc.thy ===== *)
theory Update_Mvcc
  imports Update_Info
begin

text \<open>
  Transactions that update column chunks: runs of \<^verbatim>\<open>ColumnChunk::update\<close>, and the commit and the rollback of their undo
  buffers. A state maps the addresses of column chunks to the chunks; the update information of a chunk has the address of
  the chunk. Only the update records are handled here.
\<close>

subsection \<open>Runs\<close>

definition run_write ::
  "'v \<Rightarrow> nat \<times> nat \<times> 'v ValueVector \<times> nat \<Rightarrow> (nat \<Rightarrow> 'v ColumnChunk) \<times> Transaction \<Rightarrow>
   ((nat \<Rightarrow> 'v ColumnChunk) \<times> Transaction) result" where
  "run_write zero w s =
     (case (w, s) of ((ua, off, v, p), (cs, t)) \<Rightarrow>
        rbind (ColumnChunk_update zero ua t off v p (cs ua)) (\<lambda>(c, t). Inr (cs(ua := c), t)))"

definition on_updates ::
  "(idx_t \<Rightarrow> nat \<Rightarrow> 'v UpdateInfo \<Rightarrow> 'v UpdateInfo result) \<Rightarrow> UndoRecord \<Rightarrow> (nat \<Rightarrow> 'v ColumnChunk) \<Rightarrow>
   (nat \<Rightarrow> 'v ColumnChunk) result" where
  "on_updates f rec cs =
     (case rec of
        VectorUpdateRecord ua vectorIdx a \<Rightarrow>
          (case ck_updateInfo (cs ua) of
             None \<Rightarrow> Inl NullPointer
           | Some u \<Rightarrow> rbind (f vectorIdx a u) (\<lambda>u. Inr (cs(ua := (cs ua)\<lparr>ck_updateInfo := Some u\<rparr>))))
      | _ \<Rightarrow> Inr cs)"

definition commitUpdates :: "transaction_t \<Rightarrow> UndoBuffer \<Rightarrow> (nat \<Rightarrow> 'v ColumnChunk) \<Rightarrow> (nat \<Rightarrow> 'v ColumnChunk) result" where
  "commitUpdates commitTS = iterate (on_updates (commitVectorUpdateInfo commitTS))"

definition rollbackUpdates :: "Transaction \<Rightarrow> UndoBuffer \<Rightarrow> (nat \<Rightarrow> 'v ColumnChunk) \<Rightarrow> (nat \<Rightarrow> 'v ColumnChunk) result" where
  "rollbackUpdates t = reverseIterate (on_updates (rollbackVectorUpdateInfo t))"

text \<open>The effect of a list of writes on the values of all rows.\<close>

definition apply_writes ::
  "(nat \<times> nat \<times> 'v ValueVector \<times> nat) list \<Rightarrow> (nat \<Rightarrow> nat \<Rightarrow> 'v option) \<Rightarrow> nat \<Rightarrow> nat \<Rightarrow> 'v option" where
  "apply_writes ws m = foldl (\<lambda>m (ua, off, v, p). m(ua := (m ua)(off := vector_cell v p))) m ws"

text \<open>The start of a transaction: its undo buffer is empty and everything it finds was committed before.\<close>

definition update_start :: "Transaction \<Rightarrow> (nat \<Rightarrow> 'v ColumnChunk) \<Rightarrow> bool" where
  "update_start t cs \<longleftrightarrow> undoRecords (undoBuffer t) = [] \<and> tx_ID t \<noteq> DUMMY_TRANSACTION_ID \<and> tx_startTS t < tx_ID t \<and>
     (\<forall>ua. ui_wf (updates_of (cs ua)) \<and> (\<forall>idx. settled t (chain_of (cs ua) idx)))"

definition owned :: "Transaction \<Rightarrow> (nat \<Rightarrow> 'v ColumnChunk) \<Rightarrow> nat \<Rightarrow> nat \<Rightarrow> nat \<Rightarrow> bool" where
  "owned t cs ua idx a \<longleftrightarrow>
     (case chain_of (cs ua) idx of [] \<Rightarrow> False | own # old \<Rightarrow> vui_version own = tx_ID t \<and> vui_addr own = a)"

definition run_inv ::
  "Transaction \<Rightarrow> (nat \<Rightarrow> 'v ColumnChunk) \<Rightarrow> (nat \<Rightarrow> nat \<Rightarrow> 'v option) \<Rightarrow> (nat \<Rightarrow> 'v ColumnChunk) \<Rightarrow> Transaction \<Rightarrow> bool" where
  "run_inv t0 cs0 m cs t \<longleftrightarrow> tx_ID t = tx_ID t0 \<and> tx_startTS t = tx_startTS t0 \<and>
     (\<forall>ua. ck_data (cs ua) = ck_data (cs0 ua)) \<and> (\<forall>ua. ui_wf (updates_of (cs ua))) \<and>
     (\<forall>ua idx. extended t0 (chain_of (cs0 ua) idx) (chain_of (cs ua) idx)) \<and>
     set (undoRecords (undoBuffer t)) = {VectorUpdateRecord ua idx a | ua idx a. owned t0 cs ua idx a} \<and>
     (\<forall>ua off. visible t0 (cs ua) off = m ua off)"

lemma run_invD:
  assumes "run_inv t0 cs0 m cs t"
  shows "tx_ID t = tx_ID t0" "tx_startTS t = tx_startTS t0" "ck_data (cs ua) = ck_data (cs0 ua)" "ui_wf (updates_of (cs ua))"
    "extended t0 (chain_of (cs0 ua) idx) (chain_of (cs ua) idx)"
    "set (undoRecords (undoBuffer t)) = {VectorUpdateRecord ua idx a | ua idx a. owned t0 cs ua idx a}"
    "visible t0 (cs ua) off = m ua off"
  using assms by (simp_all add: run_inv_def)

lemma update_startD:
  assumes "update_start t cs"
  shows "undoRecords (undoBuffer t) = []" "tx_ID t \<noteq> DUMMY_TRANSACTION_ID" "tx_startTS t < tx_ID t"
    "ui_wf (updates_of (cs ua))" "settled t (chain_of (cs ua) idx)"
  using assms by (simp_all add: update_start_def)

lemma start_not_owned:
  assumes "update_start t cs"
  shows "\<not> owned t cs ua idx a"
  using settled_not_own [OF update_startD(5) [OF assms] update_startD(3) [OF assms], of _ ua idx]
  by (auto simp: owned_def split: list.splits)

lemma run_inv_start: "update_start t cs \<Longrightarrow> run_inv t cs (\<lambda>ua. visible t (cs ua)) cs t"
  by (simp add: run_inv_def update_startD start_not_owned extended_def)

lemma push_update [simp]:
  "tx_ID (pushVectorUpdateInfo ua idx a t) = tx_ID t" "tx_startTS (pushVectorUpdateInfo ua idx a t) = tx_startTS t"
  "undoRecords (undoBuffer (pushVectorUpdateInfo ua idx a t)) = undoRecords (undoBuffer t) @ [VectorUpdateRecord ua idx a]"
  by (simp_all add: pushVectorUpdateInfo_def)

lemma visible_update:
  assumes d: "ck_data c' = ck_data c" and o: "vui_version own = tx_ID t"
    and ch: "\<And>j. chain_of c' j = (if j = off div DEFAULT_VECTOR_CAPACITY then own # old else chain_of c j)"
    and v: "\<And>r. value_in own r = (if r = off mod DEFAULT_VECTOR_CAPACITY then Some x
              else chain_value t (chain_of c (off div DEFAULT_VECTOR_CAPACITY)) r)"
  shows "visible t c' off' = (if off' = off then x else visible t c off')"
proof (cases "off' div DEFAULT_VECTOR_CAPACITY = off div DEFAULT_VECTOR_CAPACITY")
  case True
  then have eq: "off' = off \<longleftrightarrow> off' mod DEFAULT_VECTOR_CAPACITY = off mod DEFAULT_VECTOR_CAPACITY"
    by (metis div_mult_mod_eq)
  have "chain_value t (chain_of c' (off' div DEFAULT_VECTOR_CAPACITY)) r = value_in own r" for r
    using True o by (simp add: ch chain_value_def)
  then show ?thesis using True v eq unfolding visible_def d by simp
next
  case False
  then show ?thesis using ch unfolding visible_def d by auto
qed

lemma run_inv_step:
  assumes start: "update_start t0 cs0" and inv: "run_inv t0 cs0 m cs t"
  shows "\<exists>cs' t'. run_write zero (ua, off, v, p) (cs, t) = Inr (cs', t') \<and>
    run_inv t0 cs0 (m(ua := (m ua)(off := vector_cell v p))) cs' t'"
proof -
  let ?idx = "off div DEFAULT_VECTOR_CAPACITY" and ?row = "off mod DEFAULT_VECTOR_CAPACITY"
  note i = run_invD [OF inv]
  have eq: "owns t = owns t0" "extended t = extended t0" "settled t = settled t0"
    using i(1,2) by (simp_all add: owns_def extended_def settled_def fun_eq_iff)
  note cv = chain_value_tx [OF i(1,2)]
  obtain u own old where u: "UpdateInfo_update zero t ?idx ?row v p (updates_of (cs ua)) = Inr (u, vui_addr own)" "ui_wf u"
    and ch: "\<And>j. chain_at u j = (if j = ?idx then own # old else chain_of (cs ua) j)" and o: "owns t0 (chain_of (cs0 ua) ?idx) own old"
    and val: "\<And>r. value_in own r = (if r = ?row then Some (vector_cell v p) else chain_value t0 (chain_of (cs ua) ?idx) r)"
    and same: "\<And>own' old'. chain_of (cs ua) ?idx = own' # old' \<Longrightarrow> vui_version own' = tx_ID t0 \<Longrightarrow> vui_addr own = vui_addr own'"
    using update_step [of "updates_of (cs ua)" t "chain_of (cs0 ua) ?idx" ?idx ?row zero v p] i(1,2,4,5)
      update_startD(3,5) [OF start] DEFAULT_VECTOR_CAPACITY_pos unfolding eq cv by auto
  let ?c = "(cs ua)\<lparr>ck_updateInfo := Some u\<rparr>" and ?t = "pushVectorUpdateInfo ua ?idx (vui_addr own) t"
  have c: "updates_of ?c = u" "ck_data ?c = ck_data (cs ua)" by (simp_all add: updates_of_def)
  have own: "vui_version own = tx_ID t0" using o by (simp add: owns_def)
  have run: "run_write zero (ua, off, v, p) (cs, t) = Inr (cs(ua := ?c), ?t)"
    using u(1) update_startD(2) [OF start] i(1)
    by (simp add: run_write_def ColumnChunk_update_def Let_def updates_of_def)
  have vis: "visible t0 ?c off' = (if off' = off then vector_cell v p else visible t0 (cs ua) off')" for off'
    by (rule visible_update [OF c(2) own _ val]) (simp add: c(1) ch)
  have ow: "owned t0 (cs(ua := ?c)) ua' idx' a' \<longleftrightarrow> owned t0 cs ua' idx' a' \<or> ua' = ua \<and> idx' = ?idx \<and> a' = vui_addr own"
    for ua' idx' a'
    using own same by (cases "ua' = ua \<and> idx' = ?idx") (auto simp: owned_def c ch split: list.splits)
  have recs: "set (undoRecords (undoBuffer ?t)) = {VectorUpdateRecord x y a | x y a. owned t0 (cs(ua := ?c)) x y a}"
    unfolding ow using i(6) by auto
  have "extended t0 (chain_of (cs0 ua) j) (chain_at u j)" for j
    using i(5) [of ua j] o by (cases "j = ?idx") (auto simp: ch extended_def)
  then have "run_inv t0 cs0 (m(ua := (m ua)(off := vector_cell v p))) (cs(ua := ?c)) ?t"
    using i u(2) recs vis by (simp add: run_inv_def c)
  then show ?thesis using run by blast
qed

lemma run_inv_run:
  assumes start: "update_start t0 cs0"
  shows "run_inv t0 cs0 m cs t \<Longrightarrow> \<exists>cs' t'. foldM (run_write zero) ws (cs, t) = Inr (cs', t') \<and>
    run_inv t0 cs0 (apply_writes ws m) cs' t'"
proof (induction ws arbitrary: m cs t)
  case Nil
  then show ?case by (simp add: apply_writes_def)
next
  case (Cons w ws)
  obtain ua off v p where w: "w = (ua, off, v, p)" by (metis prod_cases4)
  from run_inv_step [OF start Cons.prems, of zero ua off v p] obtain cs1 t1
    where s: "run_write zero (ua, off, v, p) (cs, t) = Inr (cs1, t1)"
      "run_inv t0 cs0 (m(ua := (m ua)(off := vector_cell v p))) cs1 t1"
    by blast
  from Cons.IH [OF s(2)] show ?case by (simp add: s(1) apply_writes_def w del: fun_upd_apply)
qed

lemma run_updates:
  assumes "update_start t0 cs0"
  obtains cs t where "foldM (run_write zero) ws (cs0, t0) = Inr (cs, t)"
    "run_inv t0 cs0 (apply_writes ws (\<lambda>ua. visible t0 (cs0 ua))) cs t"
  using run_inv_run [OF assms run_inv_start [OF assms]] by blast

subsection \<open>What the run leaves for others\<close>

lemma run_inv_other:
  assumes inv: "run_inv t0 cs0 m cs t" and r: "tx_ID r \<noteq> tx_ID t0" "tx_startTS r < tx_ID t0"
  shows "visible r (cs ua) off = visible r (cs0 ua) off"
proof -
  let ?idx = "off div DEFAULT_VECTOR_CAPACITY"
  have "chain_value r (chain_of (cs ua) ?idx) row = chain_value r (chain_of (cs0 ua) ?idx) row" for row
    using run_invD(5) [OF inv, of ua ?idx] unfolding extended_def
  proof (elim disjE exE conjE)
    fix own old
    assume e: "chain_of (cs ua) ?idx = own # old" and o: "owns t0 (chain_of (cs0 ua) ?idx) own old"
    have "chain_value r (own # old) row = chain_value r old row"
      using o r by (auto simp: owns_def chain_value_def)
    also have "\<dots> = chain_value r (chain_of (cs0 ua) ?idx) row"
      using o by (intro chain_value_cong) (simp add: owns_def)
    finally show ?thesis using e by simp
  qed simp
  then show ?thesis unfolding visible_def run_invD(3) [OF inv] by simp
qed

subsection \<open>Handling the records\<close>

text \<open>Commit and rollback handle a record in the same way: the first record of a version changes its chain, the later ones of
  the same version find the change made. The laws are about a chain with a version of the transaction in front.\<close>

locale version_record =
  fixes handle :: "idx_t \<Rightarrow> nat \<Rightarrow> 'v UpdateInfo \<Rightarrow> 'v UpdateInfo result"
    and effect :: "'v VectorUpdateInfo list \<Rightarrow> 'v VectorUpdateInfo list"
    and tid :: transaction_t
  assumes handle_first:
    "chain_at u idx = own # old \<Longrightarrow> vui_version own = tid \<Longrightarrow> vui_next own = None \<Longrightarrow> vui_addr own \<notin> vui_addr ` set old \<Longrightarrow>
     handle idx (vui_addr own) u = Inr (u\<lparr>vectorsInfo := (vectorsInfo u)[idx := effect (own # old)]\<rparr>)"
    and handle_again:
    "chain_at u idx = effect (own # old) \<Longrightarrow> vui_version own = tid \<Longrightarrow> vui_addr own \<notin> vui_addr ` set old \<Longrightarrow>
     handle idx (vui_addr own) u = Inr u"

definition processing ::
  "('v VectorUpdateInfo list \<Rightarrow> 'v VectorUpdateInfo list) \<Rightarrow> Transaction \<Rightarrow> (nat \<Rightarrow> 'v ColumnChunk) \<Rightarrow> (nat \<Rightarrow> 'v ColumnChunk) \<Rightarrow> bool" where
  "processing effect t0 cs cs' \<longleftrightarrow> (\<forall>ua. ck_data (cs' ua) = ck_data (cs ua)) \<and>
     (\<forall>ua. ck_updateInfo (cs ua) \<noteq> None \<longrightarrow> ck_updateInfo (cs' ua) \<noteq> None) \<and>
     (\<forall>ua idx. chain_of (cs' ua) idx = chain_of (cs ua) idx \<or>
        (\<exists>a. owned t0 cs ua idx a) \<and> chain_of (cs' ua) idx = effect (chain_of (cs ua) idx))"

lemma processingD:
  assumes "processing effect t0 cs cs'"
  shows "ck_data (cs' ua) = ck_data (cs ua)" "ck_updateInfo (cs ua) \<noteq> None \<Longrightarrow> ck_updateInfo (cs' ua) \<noteq> None"
    "chain_of (cs' ua) idx = chain_of (cs ua) idx \<or>
       (\<exists>a. owned t0 cs ua idx a) \<and> chain_of (cs' ua) idx = effect (chain_of (cs ua) idx)"
  using assms unfolding processing_def by blast+

lemma processing_refl: "processing effect t0 cs cs"
  by (simp add: processing_def)

lemma owned_owns:
  assumes inv: "run_inv t0 cs0 m cs t" and start: "update_start t0 cs0" and o: "owned t0 cs ua idx a"
  obtains own old where "chain_of (cs ua) idx = own # old" "owns t0 (chain_of (cs0 ua) idx) own old" "vui_addr own = a"
proof -
  have "chain_of (cs ua) idx \<noteq> chain_of (cs0 ua) idx"
    using o start_not_owned [OF start, of ua idx a] by (auto simp: owned_def)
  then show ?thesis
    using run_invD(5) [OF inv, of ua idx] o that by (auto simp: extended_def owned_def)
qed

lemma owned_chain:
  assumes "run_inv t0 cs0 m cs t" "update_start t0 cs0" "owned t0 cs ua idx a"
  shows "chain_of (cs ua) idx = hd (chain_of (cs ua) idx) # tl (chain_of (cs ua) idx)"
    "owns t0 (chain_of (cs0 ua) idx) (hd (chain_of (cs ua) idx)) (tl (chain_of (cs ua) idx))"
  by (rule owned_owns [OF assms], simp)+

lemma not_owned_same:
  assumes inv: "run_inv t0 cs0 m cs t" and o: "\<not> (\<exists>a. owned t0 cs ua idx a)"
  shows "chain_of (cs ua) idx = chain_of (cs0 ua) idx"
  using run_invD(5) [OF inv, of ua idx] o by (auto simp: extended_def owns_def owned_def)

lemma chain_update:
  assumes "chain_at u idx \<noteq> []" "u' = u\<lparr>vectorsInfo := (vectorsInfo u)[idx := ch]\<rparr>"
  shows "chain_at u' j = (if j = idx then ch else chain_at u j)"
  using assms by (auto simp: chain_at_def nth_list_update split: if_splits)

lemma on_updates_chain:
  assumes "ck_updateInfo (cs ua) = Some u" "f idx a u = Inr (u\<lparr>vectorsInfo := (vectorsInfo u)[idx := ch]\<rparr>)" "chain_at u idx \<noteq> []"
  shows "\<exists>cs'. on_updates f (VectorUpdateRecord ua idx a) cs = Inr cs' \<and> (\<forall>x. ck_data (cs' x) = ck_data (cs x)) \<and>
    (\<forall>x. ck_updateInfo (cs' x) = None \<longleftrightarrow> ck_updateInfo (cs x) = None) \<and>
    (\<forall>x y. chain_of (cs' x) y = (if x = ua \<and> y = idx then ch else chain_of (cs x) y))"
proof -
  let ?u = "u\<lparr>vectorsInfo := (vectorsInfo u)[idx := ch]\<rparr>"
  let ?c = "(cs ua)\<lparr>ck_updateInfo := Some ?u\<rparr>"
  have "on_updates f (VectorUpdateRecord ua idx a) cs = Inr (cs(ua := ?c))" using assms(1,2) by (simp add: on_updates_def)
  moreover have "updates_of ?c = ?u" "updates_of (cs ua) = u" using assms(1) by (simp_all add: updates_of_def)
  then have "chain_of ((cs(ua := ?c)) x) y = (if x = ua \<and> y = idx then ch else chain_of (cs x) y)" for x y
    using chain_update [OF assms(3) refl, of ch y] by (cases "x = ua") simp_all
  ultimately show ?thesis using assms(1) by (intro exI [of _ "cs(ua := ?c)"]) simp
qed

lemma on_updates_same:
  assumes "ck_updateInfo (cs ua) = Some u" "f idx a u = Inr u"
  shows "on_updates f (VectorUpdateRecord ua idx a) cs = Inr cs"
proof -
  have "cs(ua := (cs ua)\<lparr>ck_updateInfo := Some u\<rparr>) = cs" using assms(1) by (intro fun_upd_idem) simp
  then show ?thesis using assms by (simp add: on_updates_def)
qed

context version_record
begin

lemma process_step:
  assumes inv: "run_inv t0 cs0 m cs t" and start: "update_start t0 cs0" and tid: "tx_ID t0 = tid"
    and pr: "processing effect t0 cs cs'" and o: "owned t0 cs ua idx a"
  shows "\<exists>cs''. on_updates handle (VectorUpdateRecord ua idx a) cs' = Inr cs'' \<and> processing effect t0 cs cs'' \<and>
    (\<forall>x y. chain_of (cs'' x) y = (if x = ua \<and> y = idx then effect (chain_of (cs ua) idx) else chain_of (cs' x) y))"
proof -
  obtain own old where ch: "chain_of (cs ua) idx = own # old" and ow: "owns t0 (chain_of (cs0 ua) idx) own old" "vui_addr own = a"
    using owned_owns [OF inv start o] by blast
  have own: "vui_version own = tid" "vui_next own = None" "vui_addr own \<notin> vui_addr ` set old"
    using ow tid by (auto simp: owns_def)
  have "ck_updateInfo (cs ua) \<noteq> None" using ch by (cases "ck_updateInfo (cs ua)") (simp_all add: updates_of_def ui_wf_new)
  from processingD(2) [OF pr this] obtain u where u: "ck_updateInfo (cs' ua) = Some u" "updates_of (cs' ua) = u"
    by (auto simp: updates_of_def)
  consider (first) "chain_at u idx = own # old" | (again) "chain_at u idx = effect (own # old)"
    using processingD(3) [OF pr, of ua idx] ch u(2) by auto
  then show ?thesis
  proof cases
    case first
    from on_updates_chain [where f = handle and cs = cs' and ua = ua, OF u(1) handle_first [OF first own]] first obtain cs''
      where s: "on_updates handle (VectorUpdateRecord ua idx a) cs' = Inr cs''"
        "\<And>x. ck_data (cs'' x) = ck_data (cs' x)" "\<And>x. ck_updateInfo (cs'' x) = None \<longleftrightarrow> ck_updateInfo (cs' x) = None"
        "\<And>x y. chain_of (cs'' x) y = (if x = ua \<and> y = idx then effect (own # old) else chain_of (cs' x) y)"
      using ow(2) by auto
    then have "processing effect t0 cs cs''" using pr o ch by (auto simp: processing_def)
    then show ?thesis using s ch by auto
  next
    case again
    from on_updates_same [where f = handle and cs = cs' and ua = ua, OF u(1) handle_again [OF again own(1,3)]] show ?thesis
      using pr again u(2) ch ow(2) by auto
  qed
qed

lemma process_records:
  assumes inv: "run_inv t0 cs0 m cs t" and start: "update_start t0 cs0" and tid: "tx_ID t0 = tid"
  shows "processing effect t0 cs cs' \<Longrightarrow> \<forall>rec \<in> set recs. \<exists>ua idx a. rec = VectorUpdateRecord ua idx a \<and> owned t0 cs ua idx a \<Longrightarrow>
    \<exists>cs''. foldM (on_updates handle) recs cs' = Inr cs'' \<and> processing effect t0 cs cs'' \<and>
      (\<forall>ua idx. (\<exists>a. VectorUpdateRecord ua idx a \<in> set recs) \<or> chain_of (cs' ua) idx = effect (chain_of (cs ua) idx) \<longrightarrow>
         chain_of (cs'' ua) idx = effect (chain_of (cs ua) idx))"
proof (induction recs arbitrary: cs')
  case (Cons rec recs)
  obtain ua idx a where r: "rec = VectorUpdateRecord ua idx a" "owned t0 cs ua idx a" using Cons.prems(2) by auto
  obtain cs1 where s: "on_updates handle rec cs' = Inr cs1" "processing effect t0 cs cs1"
    "\<And>x y. chain_of (cs1 x) y = (if x = ua \<and> y = idx then effect (chain_of (cs ua) idx) else chain_of (cs' x) y)"
    using process_step [OF inv start tid Cons.prems(1) r(2)] unfolding r(1) by blast
  have "\<forall>rec \<in> set recs. \<exists>ua idx a. rec = VectorUpdateRecord ua idx a \<and> owned t0 cs ua idx a" using Cons.prems(2) by simp
  from Cons.IH [OF s(2) this] obtain cs2
    where f: "foldM (on_updates handle) recs cs1 = Inr cs2" "processing effect t0 cs cs2"
    and g: "\<forall>ua idx. (\<exists>a. VectorUpdateRecord ua idx a \<in> set recs) \<or> chain_of (cs1 ua) idx = effect (chain_of (cs ua) idx) \<longrightarrow>
         chain_of (cs2 ua) idx = effect (chain_of (cs ua) idx)"
    by blast
  have "foldM (on_updates handle) (rec # recs) cs' = Inr cs2" by (simp add: s(1) f(1))
  moreover have "chain_of (cs2 x) y = effect (chain_of (cs x) y)"
    if "(\<exists>a. VectorUpdateRecord x y a \<in> set (rec # recs)) \<or> chain_of (cs' x) y = effect (chain_of (cs x) y)" for x y
    by (rule g [rule_format]) (use that r(1) in \<open>auto simp: s(3)\<close>)
  ultimately show ?case using f(2) by blast
qed simp

lemma process_buffer:
  assumes inv: "run_inv t0 cs0 m cs t" and start: "update_start t0 cs0" and tid: "tx_ID t0 = tid"
    and recs: "set recs = set (undoRecords (undoBuffer t))"
  obtains cs' where "foldM (on_updates handle) recs cs = Inr cs'" "\<And>ua. ck_data (cs' ua) = ck_data (cs0 ua)"
    "\<And>ua idx. chain_of (cs' ua) idx =
       (if \<exists>a. owned t0 cs ua idx a then effect (chain_of (cs ua) idx) else chain_of (cs0 ua) idx)"
proof -
  have rs: "set recs = {VectorUpdateRecord ua idx a | ua idx a. owned t0 cs ua idx a}" using run_invD(6) [OF inv] recs by simp
  then have "\<forall>rec \<in> set recs. \<exists>ua idx a. rec = VectorUpdateRecord ua idx a \<and> owned t0 cs ua idx a" by auto
  from process_records [OF inv start tid processing_refl this] obtain cs'
    where f: "foldM (on_updates handle) recs cs = Inr cs'" and pr: "processing effect t0 cs cs'"
      and all: "\<forall>ua idx. (\<exists>a. VectorUpdateRecord ua idx a \<in> set recs) \<or> chain_of (cs ua) idx = effect (chain_of (cs ua) idx) \<longrightarrow>
         chain_of (cs' ua) idx = effect (chain_of (cs ua) idx)"
    by blast
  show ?thesis
  proof (rule that [OF f])
    fix ua idx
    show "ck_data (cs' ua) = ck_data (cs0 ua)" using processingD(1) [OF pr] run_invD(3) [OF inv] by simp
    show "chain_of (cs' ua) idx =
       (if \<exists>a. owned t0 cs ua idx a then effect (chain_of (cs ua) idx) else chain_of (cs0 ua) idx)"
      using all [rule_format, of ua idx] rs processingD(3) [OF pr, of ua idx] not_owned_same [OF inv, of ua idx] by auto
  qed
qed

end

interpretation rollback: version_record "rollbackVectorUpdateInfo t" tl "tx_ID t" for t
proof (unfold_locales, goal_cases)
  case (1 u idx own old)
  then have "vectorsInfo u ! idx = own # old" by (simp add: chain_at_def split: if_splits)
  then show ?case using 1 by (simp add: rollbackVectorUpdateInfo_def getVectorInfo_chain Let_def)
next
  case (2 u idx own old)
  have "vui_addr n \<noteq> vui_addr own" if "find_version t old = Some n" for n
    using find_version_in [OF that] 2(3) by (metis imageI)
  then show ?case using 2(1) by (simp add: rollbackVectorUpdateInfo_def getVectorInfo_chain split: option.split)
qed

interpretation commit: version_record "commitVectorUpdateInfo commitTS" "\<lambda>chain. (hd chain)\<lparr>vui_version := commitTS\<rparr> # tl chain" tid
  for commitTS tid
proof (unfold_locales, goal_cases)
  case (1 u idx own old)
  then have "idx < length (vectorsInfo u)" "vectorsInfo u ! idx = own # old" by (simp_all add: chain_at_def split: if_splits)
  moreover have "map (\<lambda>n. if vui_addr n = vui_addr own then n\<lparr>vui_version := commitTS\<rparr> else n) old = old"
    using 1(4) by (intro map_idI) (metis imageI)
  ultimately show ?case by (simp add: commitVectorUpdateInfo_def)
next
  case (2 u idx own old)
  let ?own = "own\<lparr>vui_version := commitTS\<rparr>"
  have c: "idx < length (vectorsInfo u)" "vectorsInfo u ! idx = ?own # old" using 2(1) by (simp_all add: chain_at_def split: if_splits)
  moreover have "map (\<lambda>n. if vui_addr n = vui_addr own then n\<lparr>vui_version := commitTS\<rparr> else n) old = old"
    using 2(3) by (intro map_idI) (metis imageI)
  ultimately show ?case using list_update_id [of "vectorsInfo u" idx] by (simp add: commitVectorUpdateInfo_def)
qed

subsection \<open>Committed versions\<close>

lemma value_in_version [simp]: "value_in (n\<lparr>vui_version := v\<rparr>) = value_in n"
  by (simp add: value_in_def updatedRows_def fun_eq_iff)

lemma committed_value_old:
  assumes "tx_ID r \<noteq> c" "tx_startTS r < c" "map strip old = map strip chain0"
  shows "chain_value r (own\<lparr>vui_version := c\<rparr> # old) row = chain_value r chain0 row"
  using assms chain_value_cong [OF assms(3), of r row] by (auto simp: chain_value_def)

lemma committed_value_new:
  assumes "c \<le> tx_startTS r" "vui_version own = tx_ID t0"
  shows "chain_value r (own\<lparr>vui_version := c\<rparr> # old) row = chain_value t0 (own # old) row"
  using assms by (simp add: chain_value_def)

lemma settled_value:
  assumes "settled t chain" "tx_startTS t \<le> tx_startTS r"
  shows "chain_value r chain row = chain_value t chain row"
  using assms by (cases chain) (auto simp: chain_value_def settled_def)

text \<open>The chains after a commit, for readers from before and after it.\<close>

lemma committed_chain_old:
  assumes inv: "run_inv t0 cs0 m cs t" and start: "update_start t0 cs0"
    and c: "\<And>ua idx. chain_of (cs' ua) idx = (if \<exists>a. owned t0 cs ua idx a
       then (hd (chain_of (cs ua) idx))\<lparr>vui_version := commitTS\<rparr> # tl (chain_of (cs ua) idx) else chain_of (cs0 ua) idx)"
    and r: "tx_ID r \<noteq> commitTS" "tx_startTS r < commitTS"
  shows "chain_value r (chain_of (cs' ua) idx) row = chain_value r (chain_of (cs0 ua) idx) row"
proof (cases "\<exists>a. owned t0 cs ua idx a")
  case True
  then obtain a where "owned t0 cs ua idx a" by blast
  from owned_chain(2) [OF inv start this] show ?thesis using True by (simp add: c owns_def committed_value_old [OF r])
qed (simp add: c)

lemma committed_chain_new:
  assumes inv: "run_inv t0 cs0 m cs t" and start: "update_start t0 cs0"
    and c: "\<And>ua idx. chain_of (cs' ua) idx = (if \<exists>a. owned t0 cs ua idx a
       then (hd (chain_of (cs ua) idx))\<lparr>vui_version := commitTS\<rparr> # tl (chain_of (cs ua) idx) else chain_of (cs0 ua) idx)"
    and r: "tx_startTS t0 \<le> tx_startTS r" "commitTS \<le> tx_startTS r"
  shows "chain_value r (chain_of (cs' ua) idx) row = chain_value t0 (chain_of (cs ua) idx) row"
proof (cases "\<exists>a. owned t0 cs ua idx a")
  case True
  then obtain a where a: "owned t0 cs ua idx a" by blast
  have "vui_version (hd (chain_of (cs ua) idx)) = tx_ID t0" using owned_chain(2) [OF inv start a] by (simp add: owns_def)
  from committed_value_new [OF r(2) this, of "tl (chain_of (cs ua) idx)" row] owned_chain(1) [OF inv start a] True
  show ?thesis by (simp add: c)
next
  case False
  then show ?thesis
    using settled_value [OF update_startD(5) [OF start] r(1)] not_owned_same [OF inv, of ua idx] by (simp add: c)
qed

subsection \<open>Properties\<close>

text \<open>The examples below start a transaction on chunks with a committed update.\<close>

definition example_writer :: Transaction where
  "example_writer = new_Transaction WRITE (START_TRANSACTION_ID + 1) 5 False"

definition example_writes :: "(nat \<times> nat \<times> int ValueVector \<times> nat) list" where
  "example_writes = [(0, 0, example_vector 8, 0), (1, 0, example_vector 9, 0), (0, 0, example_vector 10, 0)]"

lemma example_writer_start: "update_start example_writer (\<lambda>_. example_chunk)"
proof -
  have "settled example_writer (chain_of example_chunk idx)" for idx
    using write_row_wf(3) [OF node_wf_new(1), of 0 "example_vector 7" 0 0 0 5]
    by (cases idx) (auto simp: settled_def example_chunk_def updates_of_def chain_at_def example_writer_def new_Transaction_def
        new_VectorUpdateInfo_def)
  then show ?thesis
    using example_chunk_wf(1)
    by (simp add: update_start_def chunk_wf_def example_writer_def new_Transaction_def START_TRANSACTION_ID_def
        DUMMY_TRANSACTION_ID_def undoRecords_def)
qed

lemma example_cell: "vector_cell (example_vector x) 0 = Some x"
  by (simp add: example_vector_def vector_cell_def ValueVector_isNull_def NullMask_isNull_def isNull_nbit new_NullMask_def nbit_def
      NO_NULL_ENTRY_def)

lemma example_run: "\<exists>cs t. foldM (run_write 0) example_writes (\<lambda>_. example_chunk, example_writer) = Inr (cs, t)"
  using run_updates [OF example_writer_start] by metis

text \<open>(C7) A transaction that starts when everything is committed can update any rows of any chunks: it sees the last value it
  wrote to each row and otherwise what it saw before, and no transaction that started before its commit sees a difference.\<close>

theorem update_isolation:
  assumes start: "update_start t0 cs0"
  shows "\<exists>cs t. foldM (run_write zero) ws (cs0, t0) = Inr (cs, t) \<and>
    (\<forall>ua off. visible t (cs ua) off = apply_writes ws (\<lambda>ua. visible t0 (cs0 ua)) ua off) \<and>
    (\<forall>r ua off. tx_ID r \<noteq> tx_ID t0 \<and> tx_startTS r < tx_ID t0 \<longrightarrow> visible r (cs ua) off = visible r (cs0 ua) off)"
proof -
  obtain cs t where run: "foldM (run_write zero) ws (cs0, t0) = Inr (cs, t)"
    and inv: "run_inv t0 cs0 (apply_writes ws (\<lambda>ua. visible t0 (cs0 ua))) cs t"
    using run_updates [OF start] by blast
  have "visible t (cs ua) off = visible t0 (cs ua) off" for ua off
    unfolding visible_def chain_value_tx [OF run_invD(1,2) [OF inv]] ..
  then show ?thesis using run run_invD(7) [OF inv] run_inv_other [OF inv] by auto
qed

theorem update_isolation_witness:
  "\<exists>cs t. foldM (run_write 0) example_writes (\<lambda>_. example_chunk, example_writer) = Inr (cs, t) \<and>
     visible t (cs 0) 0 = Some 10 \<and> visible t (cs 1) 0 = Some 9 \<and>
     visible (new_Transaction READ_ONLY (START_TRANSACTION_ID + 2) 5 False) (cs 0) 0 =
       visible (new_Transaction READ_ONLY (START_TRANSACTION_ID + 2) 5 False) example_chunk 0"
proof -
  let ?r = "new_Transaction READ_ONLY (START_TRANSACTION_ID + 2) 5 False"
  have r: "tx_ID ?r \<noteq> tx_ID example_writer" "tx_startTS ?r < tx_ID example_writer"
    by (simp_all add: new_Transaction_def example_writer_def START_TRANSACTION_ID_def)
  from update_isolation [OF example_writer_start, of 0 example_writes] r show ?thesis
    by (auto simp: example_writes_def apply_writes_def example_cell)
qed

text \<open>(C6) Rolling back such a transaction, which started when every version was committed and ran alone on the chunks, does not
  fail and restores what every transaction sees.\<close>

theorem update_rollback:
  assumes start: "update_start t0 cs0" and run: "foldM (run_write zero) ws (cs0, t0) = Inr (cs, t)"
  shows "\<exists>cs'. rollbackUpdates t (undoBuffer t) cs = Inr cs' \<and> (\<forall>r ua off. visible r (cs' ua) off = visible r (cs0 ua) off)"
proof -
  have inv: "run_inv t0 cs0 (apply_writes ws (\<lambda>ua. visible t0 (cs0 ua))) cs t"
    using run_updates [OF start, of zero ws] run by auto
  have tid: "tx_ID t0 = tx_ID t" using run_invD(1) [OF inv] by simp
  obtain cs' where f: "foldM (on_updates (rollbackVectorUpdateInfo t)) (rev (undoRecords (undoBuffer t))) cs = Inr cs'"
    and d: "\<And>ua. ck_data (cs' ua) = ck_data (cs0 ua)"
    and c: "\<And>ua idx. chain_of (cs' ua) idx = (if \<exists>a. owned t0 cs ua idx a then tl (chain_of (cs ua) idx) else chain_of (cs0 ua) idx)"
    by (rule rollback.process_buffer [OF inv start tid, of "rev (undoRecords (undoBuffer t))"]) simp_all
  have "map strip (chain_of (cs' ua) idx) = map strip (chain_of (cs0 ua) idx)" for ua idx
    using owned_chain(2) [OF inv start, of ua idx] by (auto simp: c owns_def)
  note same = chain_value_cong [OF this]
  have "visible r (cs' ua) off = visible r (cs0 ua) off" for r ua off unfolding visible_def d same ..
  then show ?thesis using f by (intro exI [of _ cs']) (simp add: rollbackUpdates_def reverseIterate_undoRecords)
qed

theorem update_rollback_witness:
  "\<exists>cs t cs'. foldM (run_write 0) example_writes (\<lambda>_. example_chunk, example_writer) = Inr (cs, t) \<and>
     rollbackUpdates t (undoBuffer t) cs = Inr cs' \<and> visible t (cs' 0) 0 = visible t example_chunk 0"
  using example_run update_rollback [OF example_writer_start, of 0 example_writes] by blast

text \<open>(C5) Committing a transaction that started when every version in the chunks was committed, at its start timestamp at the
  latest, and that ran alone on the chunks, does not fail: transactions that started before the commit timestamp go on to see
  the old values, and those that start at or after it see the values the transaction wrote to the rows it wrote and the values
  it started from everywhere else. (Over a version that another transaction has not committed this is not so: the version of
  the transaction copies its values.)\<close>

theorem update_commit:
  assumes start: "update_start t0 cs0" and run: "foldM (run_write zero) ws (cs0, t0) = Inr (cs, t)"
  shows "\<exists>cs'. commitUpdates commitTS (undoBuffer t) cs = Inr cs' \<and>
    (\<forall>r ua off. tx_ID r \<noteq> commitTS \<and> tx_startTS r < commitTS \<longrightarrow> visible r (cs' ua) off = visible r (cs0 ua) off) \<and>
    (\<forall>r ua off. tx_startTS t0 \<le> tx_startTS r \<and> commitTS \<le> tx_startTS r \<longrightarrow>
       visible r (cs' ua) off = apply_writes ws (\<lambda>ua. visible t0 (cs0 ua)) ua off)"
proof -
  have inv: "run_inv t0 cs0 (apply_writes ws (\<lambda>ua. visible t0 (cs0 ua))) cs t"
    using run_updates [OF start, of zero ws] run by auto
  obtain cs' where f: "foldM (on_updates (commitVectorUpdateInfo commitTS)) (undoRecords (undoBuffer t)) cs = Inr cs'"
    and d: "\<And>ua. ck_data (cs' ua) = ck_data (cs0 ua)"
    and c: "\<And>ua idx. chain_of (cs' ua) idx = (if \<exists>a. owned t0 cs ua idx a
       then (hd (chain_of (cs ua) idx))\<lparr>vui_version := commitTS\<rparr> # tl (chain_of (cs ua) idx) else chain_of (cs0 ua) idx)"
    by (rule commit.process_buffer [OF inv start refl, of "undoRecords (undoBuffer t)" commitTS]) simp_all
  note old = committed_chain_old [OF inv start c] and new = committed_chain_new [OF inv start c]
  have "visible r (cs' ua) off = visible r (cs0 ua) off" if "tx_ID r \<noteq> commitTS" "tx_startTS r < commitTS" for r ua off
    unfolding visible_def d old [OF that] ..
  moreover have "visible r (cs' ua) off = apply_writes ws (\<lambda>ua. visible t0 (cs0 ua)) ua off"
    if "tx_startTS t0 \<le> tx_startTS r" "commitTS \<le> tx_startTS r" for r ua off
    using run_invD(3,7) [OF inv, of ua] new [OF that] by (simp only: visible_def d)
  ultimately show ?thesis using f by (intro exI [of _ cs']) (simp add: commitUpdates_def iterate_undoRecords)
qed

theorem update_commit_witness:
  "\<exists>cs t cs'. foldM (run_write 0) example_writes (\<lambda>_. example_chunk, example_writer) = Inr (cs, t) \<and>
     commitUpdates 6 (undoBuffer t) cs = Inr cs' \<and>
     visible (new_Transaction READ_ONLY (START_TRANSACTION_ID + 2) 5 False) (cs' 0) 0 =
       visible (new_Transaction READ_ONLY (START_TRANSACTION_ID + 2) 5 False) example_chunk 0 \<and>
     visible (new_Transaction READ_ONLY (START_TRANSACTION_ID + 3) 6 False) (cs' 0) 0 = Some 10"
proof -
  let ?r = "new_Transaction READ_ONLY (START_TRANSACTION_ID + 2) 5 False" and ?s = "new_Transaction READ_ONLY (START_TRANSACTION_ID + 3) 6 False"
  have r: "tx_ID ?r \<noteq> 6" "tx_startTS ?r < 6" "tx_startTS example_writer \<le> tx_startTS ?s" "6 \<le> tx_startTS ?s"
    by (simp_all add: new_Transaction_def example_writer_def START_TRANSACTION_ID_def)
  have "apply_writes example_writes f 0 0 = Some 10" for f by (simp add: example_writes_def apply_writes_def example_cell)
  with example_run update_commit [OF example_writer_start, of 0 example_writes _ _ 6] r show ?thesis by metis
qed

text \<open>(C9) On a chunk whose versions are well formed, an update of a row throws a write-write conflict exactly when the newest
  version of the vector of the row belongs to another transaction, is uncommitted or committed after the start of the updating
  transaction, and has a value for the row, written by its transaction or taken over from the version before it; otherwise the
  update succeeds and the transaction sees the value it wrote. Only the newest version is checked, so that a version of the
  updating transaction in front hides an older one of another transaction.\<close>

theorem update_conflict:
  assumes "tx_ID t \<noteq> DUMMY_TRANSACTION_ID" "ui_wf (updates_of c)"
  shows "(if conflicting t (chain_of c (off div DEFAULT_VECTOR_CAPACITY)) (off mod DEFAULT_VECTOR_CAPACITY)
    then ColumnChunk_update zero addr t off v p c = Inl (RuntimeException ''Write-write conflict of updating the same row.'')
    else \<exists>c' t'. ColumnChunk_update zero addr t off v p c = Inr (c', t') \<and> visible t c' off = vector_cell v p)"
proof -
  let ?idx = "off div DEFAULT_VECTOR_CAPACITY" and ?row = "off mod DEFAULT_VECTOR_CAPACITY"
  have u: "ColumnChunk_update zero addr t off v p c =
      rbind (UpdateInfo_update zero t ?idx ?row v p (updates_of c)) (\<lambda>(u, a).
        Inr (c\<lparr>ck_updateInfo := Some u\<rparr>, pushVectorUpdateInfo addr ?idx a t))"
    using assms(1) by (simp add: ColumnChunk_update_def updates_of_def Let_def)
  show ?thesis
  proof (cases "conflicting t (chain_of c ?idx) ?row")
    case True
    then obtain cur older where "chain_of c ?idx = cur # older"
      by (cases "chain_of c ?idx") (simp_all add: conflicting_def)
    with True show ?thesis
      using update_conflict_head [of "updates_of c" ?idx cur older t ?row zero v p] u by (simp add: conflicting_Cons)
  next
    case False
    from update_accepted [OF assms(2) False, of zero v p] DEFAULT_VECTOR_CAPACITY_pos obtain u' a
      where "UpdateInfo_update zero t ?idx ?row v p (updates_of c) = Inr (u', a)"
        "chain_value t (chain_at u' ?idx) ?row = Some (vector_cell v p)"
      by auto
    then show ?thesis using False u by (simp add: visible_def updates_of_def)
  qed
qed

theorem update_conflict_witness:
  "ColumnChunk_update 0 0 (new_Transaction WRITE (START_TRANSACTION_ID + 1) 4 False) 0 (example_vector 1) 0 example_chunk =
     Inl (RuntimeException ''Write-write conflict of updating the same row.'') \<and>
   (\<exists>c t. ColumnChunk_update 0 0 example_writer 0 (example_vector 1) 0 example_chunk = Inr (c, t) \<and> visible example_writer c 0 = Some 1)"
proof -
  let ?t = "new_Transaction WRITE (START_TRANSACTION_ID + 1) 4 False"
  let ?n = "write_row 0 (example_vector 7) 0 (new_VectorUpdateInfo 0 0 5)"
  note w = write_row_wf [OF node_wf_new(1), of 0 "example_vector 7" 0 0 0 5]
  have "vui_version (new_VectorUpdateInfo (0 :: int) 0 5) = 5" by (simp add: new_VectorUpdateInfo_def)
  then have n: "vui_version ?n = 5" "value_in ?n 0 \<noteq> None" using w(2) [of 0] w(3) by simp_all
  have ch: "chain_of example_chunk (0 div DEFAULT_VECTOR_CAPACITY) = [?n]"
    by (simp add: example_chunk_def updates_of_def chain_at_def)
  have wf: "ui_wf (updates_of example_chunk)" by (rule update_startD(4) [OF example_writer_start])
  have t: "tx_ID ?t \<noteq> DUMMY_TRANSACTION_ID" "conflicting ?t [?n] 0"
    using n by (simp_all add: conflicting_def new_Transaction_def START_TRANSACTION_ID_def DUMMY_TRANSACTION_ID_def)
  have f: "\<not> conflicting example_writer [?n] 0"
    using n by (simp add: conflicting_def example_writer_def new_Transaction_def)
  show ?thesis
    using update_conflict [OF t(1) wf, of 0 0 0 "example_vector 1" 0] t(2) f
      update_conflict [OF update_startD(2) [OF example_writer_start] wf, of 0 0 0 "example_vector 1" 0]
    unfolding ch by (simp add: example_cell)
qed

end
