(* ===== verification/Update_Scan.thy ===== *)
theory Update_Scan
  imports Update_Info
begin

text \<open>
  \<^verbatim>\<open>ColumnChunk::scan\<close> walks the vectors of a range of rows and writes the updates of each over the stored values. It reads the
  values that \<^verbatim>\<open>ColumnChunk::lookup\<close> reads one by one.
\<close>

definition fits :: "nat \<Rightarrow> 'v ValueVector \<Rightarrow> bool" where
  "fits n v \<longleftrightarrow> n \<le> 64 * length (nm_data (vv_nullMask v)) \<and> n \<le> length (vv_data v)"

lemma fits_lookup: "fits n (ColumnChunkData_lookup i p c v) = fits n v"
  by (simp add: fits_def lookup_frame)

text \<open>The updates of one vector.\<close>

lemma scan_vector_cells:
  assumes n: "node_wf n" and v: "fits (p + k) v"
  shows "fits m (scan_vector n s k p v) = fits m v \<and>
    vector_cell (scan_vector n s k p v) q =
      (if p \<le> q \<and> q < p + k then (case value_in n (q - p + s) of Some x \<Rightarrow> x | None \<Rightarrow> vector_cell v q) else vector_cell v q)"
  using v
proof (induction k arbitrary: m q)
  case 0
  then show ?case by (auto simp: scan_vector_def)
next
  case (Suc k)
  let ?v = "scan_vector n s k p v"
  have IH: "fits m ?v = fits m v" "vector_cell ?v q = (if p \<le> q \<and> q < p + k
      then (case value_in n (q - p + s) of Some x \<Rightarrow> x | None \<Rightarrow> vector_cell v q) else vector_cell v q)" for m q
    using Suc.IH Suc.prems by (simp_all add: fits_def)
  have step: "scan_vector n s (Suc k) p v = (case index_of (k + s) (updatedRows n) of
      None \<Rightarrow> ?v | Some j \<Rightarrow> ColumnChunkData_lookup j (p + k) (vui_data n) ?v)"
    unfolding scan_vector_def by simp
  have fit: "p + k < 64 * length (nm_data (vv_nullMask ?v))" "p + k < length (vv_data ?v)"
    using IH(1) [of "Suc (p + k)"] Suc.prems by (simp_all add: fits_def)
  show ?case
  proof (cases "index_of (k + s) (updatedRows n)")
    case None
    then have "value_in n (k + s) = None" by (simp add: value_in_def)
    then show ?thesis using IH None by (cases "q = p + k") (auto simp: step)
  next
    case (Some j)
    then have j: "j < cc_numValues (vui_data n)" "value_in n (k + s) = Some (cell (vui_data n) j)"
      using index_of_Some [OF Some] length_updatedRows [OF n] n by (simp_all add: value_in_def node_wf_def)
    have "vector_cell (ColumnChunkData_lookup j (p + k) (vui_data n) ?v) q =
        (if q = p + k then cell (vui_data n) j else vector_cell ?v q)"
      using ColumnChunkData_lookup_value [OF j(1) fit] lookup_frame(3) [OF _ fit(1)] by simp
    then show ?thesis using IH Some j(2) by (cases "q = p + k") (auto simp: step fits_lookup)
  qed
qed

text \<open>One vector of the scan, with the updates a transaction sees of it.\<close>

definition overlay :: "Transaction \<Rightarrow> 'v UpdateInfo \<Rightarrow> nat \<Rightarrow> nat \<Rightarrow> nat \<Rightarrow> nat \<Rightarrow> 'v ValueVector \<Rightarrow> 'v ValueVector" where
  "overlay r u idx s k p v =
     (case UpdateInfo_getVectorInfo r idx u of
        Some n \<Rightarrow> if numRowsUpdated n > 0 then scan_vector n s k p v else v
      | None \<Rightarrow> v)"

lemma overlay_cells:
  assumes u: "ui_wf u" and v: "fits (p + k) v"
  shows "fits m (overlay r u idx s k p v) = fits m v"
    "vector_cell (overlay r u idx s k p v) q =
      (if p \<le> q \<and> q < p + k
       then (case chain_value r (chain_at u idx) (q - p + s) of Some x \<Rightarrow> x | None \<Rightarrow> vector_cell v q) else vector_cell v q)"
proof -
  have "node_wf n" if "UpdateInfo_getVectorInfo r idx u = Some n" for n
    using u find_version_in [of r "chain_at u idx" n] that by (auto simp: getVectorInfo_chain ui_wf_def)
  moreover have "value_in n row = None" if "numRowsUpdated n = 0" for n :: "'a VectorUpdateInfo" and row
    using that by (simp add: value_in_def updatedRows_def)
  ultimately show "fits m (overlay r u idx s k p v) = fits m v"
    "vector_cell (overlay r u idx s k p v) q =
      (if p \<le> q \<and> q < p + k
       then (case chain_value r (chain_at u idx) (q - p + s) of Some x \<Rightarrow> x | None \<Rightarrow> vector_cell v q) else vector_cell v q)"
    using scan_vector_cells [OF _ v]
    by (auto simp: overlay_def chain_value_def getVectorInfo_chain split: option.split)
qed

abbreviation "CAP \<equiv> DEFAULT_VECTOR_CAPACITY"

text \<open>The row after the last one that the first \<open>d\<close> vectors of a range cover.\<close>

definition covered :: "nat \<Rightarrow> nat \<Rightarrow> nat \<Rightarrow> nat" where
  "covered off len d = (if d = 0 then off else min ((off div CAP + d) * CAP) (off + len))"

lemma covered_ge: "off \<le> covered off len d"
proof (cases d)
  case (Suc e)
  have "off < Suc (off div CAP) * CAP" by (simp add: dividend_less_div_times)
  also have "\<dots> \<le> (off div CAP + d) * CAP" by (rule mult_le_mono1) (simp add: Suc)
  finally show ?thesis by (simp add: covered_def)
qed (simp add: covered_def)

text \<open>The rows of a vector that are in the range.\<close>

definition first_row :: "nat \<Rightarrow> nat \<Rightarrow> nat" where
  "first_row off idx = (if idx = off div CAP then off mod CAP else 0)"

definition end_row :: "nat \<Rightarrow> nat \<Rightarrow> nat \<Rightarrow> nat" where
  "end_row off len idx = (if idx = (off + len) div CAP then (off + len) mod CAP else CAP)"

lemma covered_step:
  fixes off len d
  defines "idx \<equiv> off div CAP + d"
  assumes le: "idx \<le> (off + len) div CAP"
  shows "covered off len d = idx * CAP + first_row off idx" "covered off len (Suc d) = idx * CAP + end_row off len idx"
    "first_row off idx \<le> end_row off len idx" "end_row off len idx \<le> CAP"
proof -
  let ?E = "(off + len) div CAP"
  have split: "off div CAP * CAP + off mod CAP = off" "?E * CAP + (off + len) mod CAP = off + len" by simp_all
  have "idx * CAP \<le> off + len" using le split(2) mult_le_mono1 [of idx ?E CAP] by linarith
  then show c: "covered off len d = idx * CAP + first_row off idx"
    using split(1) by (auto simp: covered_def idx_def first_row_def min_def)
  show "end_row off len idx \<le> CAP" using mod_less_divisor [of CAP "off + len"] by (simp add: end_row_def)
  have next_le: "Suc idx * CAP \<le> off + len" if "idx \<noteq> ?E"
    using le that split(2) mult_le_mono1 [of "Suc idx" ?E CAP] by linarith
  have last: "off + len < Suc ?E * CAP" by (simp add: dividend_less_div_times)
  have suc: "(off div CAP + Suc d) * CAP = Suc idx * CAP" by (simp add: idx_def)
  show c': "covered off len (Suc d) = idx * CAP + end_row off len idx"
  proof (cases "idx = ?E")
    case True
    then show ?thesis using last split(2) suc by (simp add: covered_def end_row_def min_def)
  next
    case False
    then show ?thesis using next_le [OF False] suc by (simp add: covered_def end_row_def min_def)
  qed
  have "covered off len d \<le> covered off len (Suc d)"
    using covered_ge [of off len "Suc d"] by (auto simp: covered_def min_def)
  then show "first_row off idx \<le> end_row off len idx" using c c' by simp
qed

text \<open>The loop over the vectors.\<close>

lemma scan_vectors:
  assumes u: "ui_wf u" and v: "fits len v" and d: "off div CAP + d \<le> Suc ((off + len) div CAP)"
  shows "\<exists>v'. foldl (\<lambda>(v, p) idx.
        (overlay r u idx (first_row off idx) (end_row off len idx - first_row off idx) p v,
         p + (end_row off len idx - first_row off idx)))
      (v, 0) [off div CAP..<off div CAP + d] = (v', covered off len d - off) \<and> (\<forall>m. fits m v' = fits m v) \<and>
    (\<forall>q. vector_cell v' q = (if off + q < covered off len d
       then (case chain_value r (chain_at u ((off + q) div CAP)) ((off + q) mod CAP) of Some x \<Rightarrow> x | None \<Rightarrow> vector_cell v q)
       else vector_cell v q))"
  using d
proof (induction d)
  case 0
  then show ?case by (simp add: covered_def)
next
  case (Suc d)
  let ?idx = "off div CAP + d"
  let ?s = "first_row off ?idx" and ?e = "end_row off len ?idx"
  let ?p = "covered off len d - off"
  have "?idx \<le> (off + len) div CAP" using Suc.prems by simp
  note cs = covered_step [OF this]
  note le = covered_ge [of off len d]
  have len: "covered off len (Suc d) \<le> off + len" by (simp add: covered_def)
  have p: "?p + (?e - ?s) = covered off len (Suc d) - off" using cs le by simp
  obtain w where w: "foldl (\<lambda>(v, p) idx.
        (overlay r u idx (first_row off idx) (end_row off len idx - first_row off idx) p v,
         p + (end_row off len idx - first_row off idx)))
      (v, 0) [off div CAP..<?idx] = (w, ?p)" "\<And>m. fits m w = fits m v"
    "\<And>q. vector_cell w q = (if off + q < covered off len d
       then (case chain_value r (chain_at u ((off + q) div CAP)) ((off + q) mod CAP) of Some x \<Rightarrow> x | None \<Rightarrow> vector_cell v q)
       else vector_cell v q)"
    using Suc by auto
  have "fits (?p + (?e - ?s)) w" using v len unfolding p w(2) by (auto simp: fits_def)
  note ov = overlay_cells [OF u this, where r = r and idx = ?idx and s = ?s]
  have row: "(off + q) div CAP = ?idx" "(off + q) mod CAP = q - ?p + ?s"
    if q: "?p \<le> q" "q < ?p + (?e - ?s)" for q
  proof -
    have "off + q = ?idx * CAP + (q - ?p + ?s)" "q - ?p + ?s < CAP" using q cs le by linarith+
    then show "(off + q) div CAP = ?idx" "(off + q) mod CAP = q - ?p + ?s" by simp_all
  qed
  have "vector_cell (overlay r u ?idx ?s (?e - ?s) ?p w) q = (if off + q < covered off len (Suc d)
       then (case chain_value r (chain_at u ((off + q) div CAP)) ((off + q) mod CAP) of Some x \<Rightarrow> x | None \<Rightarrow> vector_cell v q)
       else vector_cell v q)" for q
  proof (cases "?p \<le> q \<and> q < ?p + (?e - ?s)")
    case True
    have "\<not> off + q < covered off len d" "off + q < covered off len (Suc d)" using True p le by linarith+
    then show ?thesis using True row [of q] unfolding ov(2) w(3) by simp
  next
    case False
    have "off + q < covered off len d \<longleftrightarrow> off + q < covered off len (Suc d)" using False p le by linarith
    then show ?thesis using False unfolding ov(2) w(3) by auto
  qed
  then show ?case
    using w(1) p by (intro exI [of _ "overlay r u ?idx ?s (?e - ?s) ?p w"]) (simp only: ov(1) w(2), simp)
qed

lemma scan_frame:
  assumes "ColumnChunkData_scan offset k p c v = Inr v'" "nm_wf (vv_nullMask v)" "p + k \<le> 64 * length (nm_data (vv_nullMask v))"
  shows "fits n v' = fits n v"
proof (cases "nullData c")
  case None
  then show ?thesis using assms(1) by (auto simp: ColumnChunkData_scan_def fits_def)
next
  case (Some m)
  from copyFromNullBits_correct [OF assms(2,3), of "nc_data m" offset False] obtain x h
    where x: "copyFromNullBits (nc_data m) offset p k False (vv_nullMask v) = Some (x, h)" "length (nm_data x) = length (nm_data (vv_nullMask v))"
    by (auto simp: bits_copied_def)
  then show ?thesis using assms(1) Some by (auto simp: ColumnChunkData_scan_def fits_def setNullFromBits_def)
qed

text \<open>(C8) A scan of a range of rows succeeds and gives for every row the value that a lookup of the row gives, with the updates
  the transaction sees and across the borders of vectors.\<close>

theorem scan_reads_lookups:
  assumes wf: "chunk_wf c" and rng: "off + len \<le> cc_numValues (ck_data c)" and nulls: "nullData (ck_data c) \<noteq> None"
    and out: "nm_wf (vv_nullMask v)" "len \<le> 64 * length (nm_data (vv_nullMask v))" "len \<le> length (vv_data v)"
  shows "\<exists>v'. ColumnChunk_scan r off len c v = Inr v' \<and>
    (\<forall>i < len. vector_cell v' i = vector_cell (ColumnChunk_lookup r (off + i) i c v) i)"
proof -
  obtain v0 where v0: "ColumnChunkData_scan off len 0 (ck_data c) v = Inr v0" "\<And>i. i < len \<Longrightarrow> vector_cell v0 i = cell (ck_data c) (off + i)"
    using ColumnChunkData_scan_values [of "ck_data c" off len v 0] wf rng nulls out by (auto simp: chunk_wf_def)
  have fit: "fits len v0" using scan_frame [OF v0(1)] out by (simp add: fits_def)
  have look: "vector_cell (ColumnChunk_lookup r (off + i) i c v) i = visible r c (off + i)" if "i < len" for i
    using ColumnChunk_lookup_visible [OF wf] that rng out by simp
  show ?thesis
  proof (cases "ck_updateInfo c")
    case None
    then show ?thesis using v0 look
      by (simp add: ColumnChunk_scan_def visible_def updates_of_def ui_wf_new chain_value_def)
  next
    case (Some u)
    then have u: "updates_of c = u" "ui_wf u" using wf by (simp_all add: updates_of_def chunk_wf_def)
    let ?d = "Suc ((off + len) div CAP) - off div CAP"
    have "off div CAP \<le> (off + len) div CAP" by (simp add: div_le_mono)
    then have d: "off div CAP + ?d = Suc ((off + len) div CAP)" by simp
    have "off + len < Suc ((off + len) div CAP) * CAP" by (simp add: dividend_less_div_times)
    then have cov: "covered off len ?d = off + len" unfolding covered_def d using \<open>off div CAP \<le> (off + len) div CAP\<close> by auto
    from scan_vectors [OF u(2) fit, of off ?d r] obtain v' where "ColumnChunk_scan r off len c v = Inr v'"
      "\<And>q. q < len \<Longrightarrow> vector_cell v' q = (case chain_value r (chain_at u ((off + q) div CAP)) ((off + q) mod CAP) of
         Some x \<Rightarrow> x | None \<Rightarrow> vector_cell v0 q)"
      by (auto simp: ColumnChunk_scan_def v0(1) Some Let_def overlay_def first_row_def end_row_def cov d)
    then show ?thesis using look v0(2) by (auto simp: visible_def u(1) split: option.split)
  qed
qed

theorem scan_reads_lookups_witness:
  "\<exists>v'. ColumnChunk_scan (new_Transaction WRITE (START_TRANSACTION_ID + 1) 5 False) 0 1 example_chunk (example_vector 9) = Inr v' \<and>
     vector_cell v' 0 = vector_cell (ColumnChunk_lookup (new_Transaction WRITE (START_TRANSACTION_ID + 1) 5 False) 0 0
       example_chunk (example_vector 9)) 0"
  using scan_reads_lookups [OF example_chunk_wf(1) _ example_chunk_wf(3), of 0 1 "example_vector 9"
      "new_Transaction WRITE (START_TRANSACTION_ID + 1) 5 False"] example_chunk_wf(2) example_vector_fits [of 9]
  by simp

end
