(* ===== verification/Property_Collection.thy ===== *)
theory Property_Collection
  imports Numeric_Text
begin

text \<open>
  Case-insensitive maps (\<^verbatim>\<open>src/src/common/case_insensitive_map.cpp\<close> and the string functions it calls in
  \<^verbatim>\<open>src/src/common/string_utils.cpp\<close>) and the properties of a table (\<^verbatim>\<open>src/src/catalog/property_definition_collection.cpp\<close>):
  an ordered list of definitions with their column identifiers, and an index from names to positions. The specification is
  an association list from lower-case names to definitions and identifiers.
\<close>

unbundle bit_operations_syntax

subsection \<open>Case-insensitive maps\<close>

definition caseInsensitiveEquals :: "string \<Rightarrow> string \<Rightarrow> bool" where
  "caseInsensitiveEquals left right \<longleftrightarrow> length left = length right \<and>
     list_all (\<lambda>c. toLower [left ! c] = toLower [right ! c]) [0..<length left]"

text \<open>The hash is on 32 bits; a character is a signed byte, which \<^verbatim>\<open>tolower\<close> leaves as it is beyond the ASCII range.\<close>

definition hash_char :: "char \<Rightarrow> 32 word" where
  "hash_char c = (let n = of_char c :: int in of_int (if n \<ge> 128 then n - 256 else if 65 \<le> n \<and> n \<le> 90 then n + 32 else n))"

definition caseInsensitiveHash :: "string \<Rightarrow> 32 word" where
  "caseInsensitiveHash str =
     (let hash = foldl (\<lambda>hash c.
            let hash = hash + hash_char c;
                hash = hash + push_bit 10 hash
            in hash XOR drop_bit 6 hash) 0 str;
          hash = hash + push_bit 3 hash;
          hash = hash XOR drop_bit 11 hash
      in hash + push_bit 15 hash)"

text \<open>A map from names up to case holds the lower-case names. Inserting a name that is there has no effect.\<close>

type_synonym 'a case_insensitive_map = "string \<rightharpoonup> 'a"

definition ci_find :: "string \<Rightarrow> 'a case_insensitive_map \<Rightarrow> 'a option" where
  "ci_find name m = m (toLower name)"

definition ci_insert :: "string \<Rightarrow> 'a \<Rightarrow> 'a case_insensitive_map \<Rightarrow> 'a case_insensitive_map" where
  "ci_insert name v m = (if ci_find name m = None then m(toLower name \<mapsto> v) else m)"

definition ci_erase :: "string \<Rightarrow> 'a case_insensitive_map \<Rightarrow> 'a case_insensitive_map" where
  "ci_erase name m = m(toLower name := None)"

definition ci_at :: "string \<Rightarrow> 'a case_insensitive_map \<Rightarrow> 'a result" where
  "ci_at name m = (case ci_find name m of None \<Rightarrow> Inl OutOfRange | Some v \<Rightarrow> Inr v)"

subsection \<open>The properties of a table\<close>

record 'd PropertyDefinition =
  pd_name :: string
  pd_column :: 'd

record 'd PropertyDefinitionCollection =
  nextColumnID :: nat
  definitions :: "'d PropertyDefinition list"
  columnIDs :: "nat list"
  nameToPropertyIdxMap :: "nat case_insensitive_map"

definition new_PropertyDefinitionCollection :: "nat \<Rightarrow> 'd PropertyDefinitionCollection" where
  "new_PropertyDefinitionCollection nextID =
     \<lparr>nextColumnID = nextID, definitions = [], columnIDs = [], nameToPropertyIdxMap = (\<lambda>_. None)\<rparr>"

definition Properties_contains :: "string \<Rightarrow> 'd PropertyDefinitionCollection \<Rightarrow> bool" where
  "Properties_contains name c \<longleftrightarrow> ci_find name (nameToPropertyIdxMap c) \<noteq> None"

definition Properties_getIdx :: "string \<Rightarrow> 'd PropertyDefinitionCollection \<Rightarrow> nat result" where
  "Properties_getIdx name c = ci_at name (nameToPropertyIdxMap c)"

definition Properties_getDefinition :: "string \<Rightarrow> 'd PropertyDefinitionCollection \<Rightarrow> 'd PropertyDefinition result" where
  "Properties_getDefinition name c = rbind (Properties_getIdx name c) (\<lambda>idx. Inr (definitions c ! idx))"

definition Properties_getColumnID :: "string \<Rightarrow> 'd PropertyDefinitionCollection \<Rightarrow> nat result" where
  "Properties_getColumnID name c = rbind (Properties_getIdx name c) (\<lambda>idx. Inr (columnIDs c ! idx))"

definition Properties_vacuumColumnIDs :: "nat \<Rightarrow> 'd PropertyDefinitionCollection \<Rightarrow> 'd PropertyDefinitionCollection" where
  "Properties_vacuumColumnIDs nextID c =
     foldl (\<lambda>c _. c\<lparr>columnIDs := columnIDs c @ [nextColumnID c], nextColumnID := nextColumnID c + 1\<rparr>)
       (c\<lparr>nextColumnID := nextID, columnIDs := []\<rparr>) (definitions c)"

definition Properties_add :: "'d PropertyDefinition \<Rightarrow> 'd PropertyDefinitionCollection \<Rightarrow> 'd PropertyDefinitionCollection" where
  "Properties_add definition c =
     c\<lparr>nameToPropertyIdxMap := ci_insert (pd_name definition) (length (definitions c)) (nameToPropertyIdxMap c),
       columnIDs := columnIDs c @ [nextColumnID c], nextColumnID := nextColumnID c + 1,
       definitions := definitions c @ [definition]\<rparr>"

definition erase_at :: "nat \<Rightarrow> 'a list \<Rightarrow> 'a list" where
  "erase_at i xs = take i xs @ drop (Suc i) xs"

text \<open>The index of a list of definitions, as the loops of \<^verbatim>\<open>drop\<close> and \<^verbatim>\<open>deserialize\<close> build it.\<close>

definition build_index :: "'d PropertyDefinition list \<Rightarrow> nat case_insensitive_map" where
  "build_index defs = foldl (\<lambda>m i. ci_insert (pd_name (defs ! i)) i m) (\<lambda>_. None) [0..<length defs]"

definition Properties_drop :: "string \<Rightarrow> 'd PropertyDefinitionCollection \<Rightarrow> 'd PropertyDefinitionCollection result" where
  "Properties_drop name c =
     rbind (ci_at name (nameToPropertyIdxMap c)) (\<lambda>idx.
       let defs = erase_at idx (definitions c)
       in Inr (c\<lparr>definitions := defs, columnIDs := erase_at idx (columnIDs c), nameToPropertyIdxMap := build_index defs\<rparr>))"

definition Properties_rename :: "string \<Rightarrow> string \<Rightarrow> 'd PropertyDefinitionCollection \<Rightarrow> 'd PropertyDefinitionCollection result" where
  "Properties_rename name newName c =
     rbind (ci_at name (nameToPropertyIdxMap c)) (\<lambda>idx.
       Inr (c\<lparr>definitions := (definitions c)[idx := (definitions c ! idx)\<lparr>pd_name := newName\<rparr>],
              nameToPropertyIdxMap := ci_insert newName idx (ci_erase name (nameToPropertyIdxMap c))\<rparr>))"

definition Properties_getMaxColumnID :: "'d PropertyDefinitionCollection \<Rightarrow> nat" where
  "Properties_getMaxColumnID c = foldl (\<lambda>maxID i. if i > maxID then i else maxID) 0 (columnIDs c)"

subsection \<open>Names up to case\<close>

definition lower_char :: "char \<Rightarrow> char" where
  "lower_char c = (if 65 \<le> (of_char c :: nat) \<and> (of_char c :: nat) \<le> 90 then char_of (of_char c + 32 :: nat) else c)"

lemma toLower_map: "toLower s = map lower_char s"
  by (simp add: toLower_def lower_char_def)

lemma caseInsensitiveEquals_toLower: "caseInsensitiveEquals l r \<longleftrightarrow> toLower l = toLower r"
  using list_eq_iff_nth_eq [of "map lower_char l" "map lower_char r"]
  by (auto simp: caseInsensitiveEquals_def toLower_map list_all_iff)

lemma of_char_int: "(of_char c :: int) = int (of_char c)"
  by (simp add: of_char_def)

lemma hash_char_lower: "hash_char (lower_char c) = hash_char c"
proof (cases "65 \<le> (of_char c :: nat) \<and> (of_char c :: nat) \<le> 90")
  case True
  then have "(of_char (char_of (of_char c + 32 :: nat)) :: nat) = of_char c + 32" by simp
  then show ?thesis using True by (simp add: hash_char_def lower_char_def Let_def of_char_int del: of_char_of of_nat_of_char)
qed (auto simp: lower_char_def)

lemma caseInsensitiveHash_toLower: "caseInsensitiveHash (toLower s) = caseInsensitiveHash s"
  by (simp add: caseInsensitiveHash_def toLower_map foldl_map hash_char_lower)

text \<open>The hash of case-insensitive maps agrees with their equality: names that are equal up to case have the same hash.\<close>

lemma case_insensitive_hash:
  assumes "caseInsensitiveEquals l r"
  shows "caseInsensitiveHash l = caseInsensitiveHash r"
  using assms caseInsensitiveHash_toLower by (metis caseInsensitiveEquals_toLower)

lemmas ci_defs = ci_find_def ci_insert_def ci_erase_def ci_at_def

subsection \<open>The index and the specification\<close>

definition index_ok :: "'d PropertyDefinition list \<Rightarrow> nat case_insensitive_map \<Rightarrow> bool" where
  "index_ok defs m \<longleftrightarrow> (\<forall>k i. m k = Some i \<longleftrightarrow> i < length defs \<and> toLower (pd_name (defs ! i)) = k)"

definition keys :: "'d PropertyDefinition list \<Rightarrow> string list" where
  "keys defs = map (\<lambda>d. toLower (pd_name d)) defs"

definition columns :: "'d PropertyDefinitionCollection \<Rightarrow> (string \<times> 'd PropertyDefinition \<times> nat) list" where
  "columns c = zip (keys (definitions c)) (zip (definitions c) (columnIDs c))"

definition pc_wf :: "'d PropertyDefinitionCollection \<Rightarrow> bool" where
  "pc_wf c \<longleftrightarrow> length (columnIDs c) = length (definitions c) \<and> index_ok (definitions c) (nameToPropertyIdxMap c) \<and>
     distinct (columnIDs c) \<and> (\<forall>i \<in> set (columnIDs c). i < nextColumnID c)"

lemma length_keys [simp]: "length (keys defs) = length defs"
  by (simp add: keys_def)

lemma keys_snoc: "keys (defs @ [d]) = keys defs @ [toLower (pd_name d)]"
  by (simp add: keys_def)

lemma keys_nth: "i < length defs \<Longrightarrow> keys defs ! i = toLower (pd_name (defs ! i))"
  by (simp add: keys_def)

lemma index_ok_distinct: "index_ok defs m \<Longrightarrow> distinct (keys defs)"
  unfolding index_ok_def distinct_conv_nth by (metis keys_nth length_keys option.inject)

lemma index_ok_keys: "index_ok defs m \<Longrightarrow> m k = None \<longleftrightarrow> k \<notin> set (keys defs)"
  unfolding index_ok_def in_set_conv_nth length_keys by (metis keys_nth not_None_eq)

lemma index_ok_snoc:
  assumes "index_ok defs m" "toLower (pd_name d) \<notin> set (keys defs)"
  shows "index_ok (defs @ [d]) (ci_insert (pd_name d) (length defs) m)"
proof -
  have "m (toLower (pd_name d)) = None" using index_ok_keys [OF assms(1)] assms(2) by simp
  then show ?thesis
    using assms(1) by (auto simp: index_ok_def ci_defs nth_append less_Suc_eq) (metis option.distinct(1))
qed

lemma build_index_ok:
  assumes "distinct (keys defs)"
  shows "index_ok defs (build_index defs)"
proof -
  have "n \<le> length defs \<Longrightarrow> index_ok (take n defs) (foldl (\<lambda>m i. ci_insert (pd_name (defs ! i)) i m) (\<lambda>_. None) [0..<n])" for n
  proof (induction n)
    case (Suc n)
    have take: "take (Suc n) defs = take n defs @ [defs ! n]" using Suc.prems by (simp add: take_Suc_conv_app_nth)
    have "distinct (take (Suc n) (keys defs))" using assms by simp
    then have "toLower (pd_name (defs ! n)) \<notin> set (keys (take n defs))"
      using Suc.prems by (simp add: keys_def take_Suc_conv_app_nth take_map)
    from index_ok_snoc [OF _ this] Suc show ?case by (simp add: take)
  qed (simp add: index_ok_def)
  from this [of "length defs"] show ?thesis by (simp add: build_index_def)
qed

lemma columns_lookup:
  assumes "pc_wf c"
  shows "map_of (columns c) k = map_option (\<lambda>i. (definitions c ! i, columnIDs c ! i)) (nameToPropertyIdxMap c k)"
proof (cases "nameToPropertyIdxMap c k")
  case None
  then have "k \<notin> set (keys (definitions c))" using index_ok_keys assms by (metis pc_wf_def)
  then have "map_of (columns c) k = None" by (simp add: columns_def map_of_eq_None_iff zip_eq_conv) (metis in_set_zipE imageE prod.collapse)
  then show ?thesis using None by simp
next
  case (Some i)
  have ok: "index_ok (definitions c) (nameToPropertyIdxMap c)" "length (columnIDs c) = length (definitions c)"
    using assms by (simp_all add: pc_wf_def)
  have i: "i < length (definitions c)" "keys (definitions c) ! i = k" using ok(1) Some by (auto simp: index_ok_def keys_nth)
  have "map_of (columns c) (keys (definitions c) ! i) = Some (zip (definitions c) (columnIDs c) ! i)"
    unfolding columns_def using index_ok_distinct [OF ok(1)] i(1) ok(2) by (intro map_of_zip_nth) simp_all
  then show ?thesis using Some i ok(2) by simp
qed

lemma lookup_columns:
  assumes "pc_wf c"
  shows "Properties_contains name c \<longleftrightarrow> toLower name \<in> fst ` set (columns c)"
    "Properties_getDefinition name c = (case map_of (columns c) (toLower name) of None \<Rightarrow> Inl OutOfRange | Some (d, _) \<Rightarrow> Inr d)"
    "Properties_getColumnID name c = (case map_of (columns c) (toLower name) of None \<Rightarrow> Inl OutOfRange | Some (_, i) \<Rightarrow> Inr i)"
proof -
  show "Properties_contains name c \<longleftrightarrow> toLower name \<in> fst ` set (columns c)"
    using columns_lookup [OF assms, of "toLower name"] map_of_eq_None_iff [of "columns c" "toLower name"]
    by (auto simp: Properties_contains_def ci_defs)
  show "Properties_getDefinition name c = (case map_of (columns c) (toLower name) of None \<Rightarrow> Inl OutOfRange | Some (d, _) \<Rightarrow> Inr d)"
    "Properties_getColumnID name c = (case map_of (columns c) (toLower name) of None \<Rightarrow> Inl OutOfRange | Some (_, i) \<Rightarrow> Inr i)"
    by (simp_all add: columns_lookup [OF assms] Properties_getDefinition_def Properties_getColumnID_def Properties_getIdx_def ci_defs
        split: option.split)
qed

subsection \<open>Operations\<close>

lemma erase_at_filter:
  assumes "distinct (map fst xs)" "i < length xs"
  shows "erase_at i xs = filter (\<lambda>p. fst p \<noteq> fst (xs ! i)) xs"
proof -
  have xs: "xs = take i xs @ xs ! i # drop (Suc i) xs" using assms(2) by (rule id_take_nth_drop)
  have "distinct (map fst (take i xs @ xs ! i # drop (Suc i) xs))" using assms(1) xs by simp
  then have "\<forall>p \<in> set (take i xs). fst p \<noteq> fst (xs ! i)" "\<forall>p \<in> set (drop (Suc i) xs). fst p \<noteq> fst (xs ! i)"
    by (auto simp: image_iff)
  then have "filter (\<lambda>p. fst p \<noteq> fst (xs ! i)) (take i xs @ xs ! i # drop (Suc i) xs) = erase_at i xs"
    by (simp add: erase_at_def)
  then show ?thesis using xs by simp
qed

lemma erase_at_zip: "length xs = length ys \<Longrightarrow> erase_at i (zip xs ys) = zip (erase_at i xs) (erase_at i ys)"
  by (simp add: erase_at_def take_zip drop_zip)

lemma erase_at_map: "erase_at i (map f xs) = map f (erase_at i xs)"
  by (simp add: erase_at_def take_map drop_map)

lemma erase_at_subset: "set (erase_at i xs) \<subseteq> set xs"
  using set_take_subset [of i xs] set_drop_subset [of "Suc i" xs] by (auto simp: erase_at_def)

lemma length_erase_at: "i < length xs \<Longrightarrow> length (erase_at i xs) = length xs - 1"
  by (simp add: erase_at_def)

lemma distinct_erase_at: "distinct xs \<Longrightarrow> distinct (erase_at i xs)"
  using set_take_disj_set_drop_if_distinct [of xs i "Suc i"] by (auto simp: erase_at_def)

lemma columns_keys: "pc_wf c \<Longrightarrow> map fst (columns c) = keys (definitions c)"
  by (simp add: columns_def pc_wf_def)

lemma pc_wf_new: "pc_wf (new_PropertyDefinitionCollection n)" "columns (new_PropertyDefinitionCollection n) = []"
  by (simp_all add: pc_wf_def new_PropertyDefinitionCollection_def index_ok_def columns_def keys_def)

lemma Properties_add_columns:
  assumes wf: "pc_wf c" and new: "\<not> Properties_contains (pd_name d) c"
  shows "pc_wf (Properties_add d c)" "columns (Properties_add d c) = columns c @ [(toLower (pd_name d), d, nextColumnID c)]"
proof -
  have "toLower (pd_name d) \<notin> set (keys (definitions c))"
    using new lookup_columns(1) [OF wf] columns_keys [OF wf] by (metis image_set)
  then show "pc_wf (Properties_add d c)"
    using wf index_ok_snoc [of "definitions c" "nameToPropertyIdxMap c" d] by (auto simp: pc_wf_def Properties_add_def)
  show "columns (Properties_add d c) = columns c @ [(toLower (pd_name d), d, nextColumnID c)]"
    using wf by (simp add: columns_def Properties_add_def keys_snoc pc_wf_def)
qed

lemma Properties_find:
  assumes wf: "pc_wf c" and there: "Properties_contains name c"
  obtains i where "ci_at name (nameToPropertyIdxMap c) = Inr i" "i < length (definitions c)"
    "columns c ! i = (toLower name, definitions c ! i, columnIDs c ! i)" "nameToPropertyIdxMap c (toLower name) = Some i"
proof -
  obtain i where i: "nameToPropertyIdxMap c (toLower name) = Some i" using there by (auto simp: Properties_contains_def ci_defs)
  then have "i < length (definitions c)" "toLower (pd_name (definitions c ! i)) = toLower name"
    using wf by (auto simp: pc_wf_def index_ok_def)
  with i show ?thesis using wf by (intro that [of i]) (simp_all add: ci_defs columns_def keys_nth pc_wf_def)
qed

lemma Properties_drop_columns:
  assumes wf: "pc_wf c" and there: "Properties_contains name c"
  shows "\<exists>c'. Properties_drop name c = Inr c' \<and> pc_wf c' \<and> nextColumnID c' = nextColumnID c \<and>
    columns c' = filter (\<lambda>p. fst p \<noteq> toLower name) (columns c)"
proof -
  obtain i where i: "ci_at name (nameToPropertyIdxMap c) = Inr i" "i < length (definitions c)"
    "columns c ! i = (toLower name, definitions c ! i, columnIDs c ! i)"
    using Properties_find [OF wf there] by metis
  let ?defs = "erase_at i (definitions c)"
  let ?c = "c\<lparr>definitions := ?defs, columnIDs := erase_at i (columnIDs c), nameToPropertyIdxMap := build_index ?defs\<rparr>"
  note w = wf [unfolded pc_wf_def]
  have keys: "keys ?defs = erase_at i (keys (definitions c))" by (simp add: keys_def erase_at_map)
  have dist: "distinct (keys (definitions c))" using w index_ok_distinct by blast
  have "pc_wf ?c"
    using w i(2) build_index_ok [of ?defs] distinct_erase_at [OF dist, of i] erase_at_subset [of i "columnIDs c"]
    by (auto simp: pc_wf_def keys length_erase_at distinct_erase_at)
  moreover have "columns ?c = erase_at i (columns c)" using w by (simp add: columns_def keys erase_at_zip)
  then have "columns ?c = filter (\<lambda>p. fst p \<noteq> toLower name) (columns c)"
    using erase_at_filter [of "columns c" i] columns_keys [OF wf] dist i(2,3) w by (simp add: columns_def)
  ultimately show ?thesis using i(1) by (simp add: Properties_drop_def Let_def)
qed

lemma Properties_rename_columns:
  assumes wf: "pc_wf c" and there: "Properties_contains name c"
    and new: "\<not> Properties_contains newName c \<or> toLower newName = toLower name"
  shows "\<exists>c'. Properties_rename name newName c = Inr c' \<and> pc_wf c' \<and> nextColumnID c' = nextColumnID c \<and>
    columns c' = map (\<lambda>(k, d, i). if k = toLower name then (toLower newName, d\<lparr>pd_name := newName\<rparr>, i) else (k, d, i)) (columns c)"
proof -
  obtain i where i: "ci_at name (nameToPropertyIdxMap c) = Inr i" "i < length (definitions c)"
    "columns c ! i = (toLower name, definitions c ! i, columnIDs c ! i)" "nameToPropertyIdxMap c (toLower name) = Some i"
    using Properties_find [OF wf there] by metis
  note w = wf [unfolded pc_wf_def]
  let ?d = "(definitions c ! i)\<lparr>pd_name := newName\<rparr>"
  let ?defs = "(definitions c)[i := ?d]" and ?m = "ci_insert newName i (ci_erase name (nameToPropertyIdxMap c))"
  have ix: "\<And>k j. nameToPropertyIdxMap c k = Some j \<longleftrightarrow> j < length (definitions c) \<and> toLower (pd_name (definitions c ! j)) = k"
    using w by (simp add: index_ok_def)
  have none: "ci_erase name (nameToPropertyIdxMap c) (toLower newName) = None"
    using new by (auto simp: Properties_contains_def ci_defs)
  then have m: "?m = (nameToPropertyIdxMap c)(toLower name := None, toLower newName \<mapsto> i)"
    by (simp add: ci_insert_def ci_find_def) (simp add: ci_erase_def)
  have "index_ok ?defs ?m"
    unfolding index_ok_def
  proof (intro allI)
    fix k j
    show "?m k = Some j \<longleftrightarrow> j < length ?defs \<and> toLower (pd_name (?defs ! j)) = k"
    proof (cases "j = i")
      case True
      then show ?thesis using i(2,4) ix [of k i] ix [of "toLower name" i] by (auto simp: m)
    next
      case False
      then have "nameToPropertyIdxMap c (toLower name) \<noteq> Some j" using i(4) by simp
      moreover have "toLower newName \<noteq> toLower name \<Longrightarrow> nameToPropertyIdxMap c (toLower newName) \<noteq> Some j"
        using new by (auto simp: Properties_contains_def ci_defs)
      ultimately show ?thesis using False ix [of k j] by (auto simp: m)
    qed
  qed
  then have "pc_wf (c\<lparr>definitions := ?defs, nameToPropertyIdxMap := ?m\<rparr>)" using w by (simp add: pc_wf_def)
  moreover have "columns (c\<lparr>definitions := ?defs, nameToPropertyIdxMap := ?m\<rparr>) =
     map (\<lambda>(k, d, i). if k = toLower name then (toLower newName, d\<lparr>pd_name := newName\<rparr>, i) else (k, d, i)) (columns c)"
  proof (rule nth_equalityI)
    fix j
    assume "j < length (columns (c\<lparr>definitions := ?defs, nameToPropertyIdxMap := ?m\<rparr>))"
    then have j: "j < length (definitions c)" using w by (simp add: columns_def)
    have "keys (definitions c) ! j = toLower name \<longleftrightarrow> j = i" using j ix [of "toLower name" j] i(4) by (auto simp: keys_nth)
    then show "columns (c\<lparr>definitions := ?defs, nameToPropertyIdxMap := ?m\<rparr>) ! j =
       map (\<lambda>(k, d, i). if k = toLower name then (toLower newName, d\<lparr>pd_name := newName\<rparr>, i) else (k, d, i)) (columns c) ! j"
      using j w by (auto simp: columns_def keys_nth)
  qed (use w in \<open>simp add: columns_def\<close>)
  ultimately show ?thesis using i(1) by (simp add: Properties_rename_def)
qed

lemma vacuum_loop:
  "foldl (\<lambda>c _. c\<lparr>columnIDs := columnIDs c @ [nextColumnID c], nextColumnID := nextColumnID c + 1\<rparr>) c xs =
     c\<lparr>columnIDs := columnIDs c @ [nextColumnID c..<nextColumnID c + length xs], nextColumnID := nextColumnID c + length xs\<rparr>"
proof (induction xs arbitrary: c)
  case (Cons x xs)
  have "nextColumnID c # [Suc (nextColumnID c)..<Suc (nextColumnID c + length xs)] = [nextColumnID c..<Suc (nextColumnID c + length xs)]"
    by (simp add: upt_rec)
  then show ?case unfolding foldl_Cons Cons by simp
qed simp

lemma Properties_vacuum_columns:
  assumes "pc_wf c"
  shows "pc_wf (Properties_vacuumColumnIDs n c)"
    "columns (Properties_vacuumColumnIDs n c) =
       zip (keys (definitions c)) (zip (definitions c) [n..<n + length (definitions c)])"
  using assms unfolding Properties_vacuumColumnIDs_def vacuum_loop by (simp_all add: pc_wf_def columns_def)

lemma getMaxColumnID_max:
  assumes "columnIDs c \<noteq> []"
  shows "Properties_getMaxColumnID c = Max (set (columnIDs c))"
proof -
  have "foldl (\<lambda>maxID i. if i > maxID then i else maxID) a xs = fold max xs a" for a and xs :: "nat list"
    by (induction xs arbitrary: a) (simp_all add: max_def not_less)
  then show ?thesis
    using Max.set_eq_fold [of 0 "columnIDs c"] assms by (simp add: Properties_getMaxColumnID_def)
qed

text \<open>(C10) The properties of a table refine an ordered association list from lower-case names to definitions and column
  identifiers: lookups agree with it, adding appends with the next identifier, dropping removes one entry and keeps the
  identifiers of the others, renaming changes the name in place, and all of them keep the index right and the identifiers
  distinct.\<close>

theorem properties_refine_columns:
  assumes wf: "pc_wf c"
  shows "Properties_getDefinition name c = (case map_of (columns c) (toLower name) of None \<Rightarrow> Inl OutOfRange | Some (d, _) \<Rightarrow> Inr d) \<and>
    Properties_getColumnID name c = (case map_of (columns c) (toLower name) of None \<Rightarrow> Inl OutOfRange | Some (_, i) \<Rightarrow> Inr i) \<and>
    (toLower (pd_name d) \<notin> fst ` set (columns c) \<longrightarrow> pc_wf (Properties_add d c) \<and>
      columns (Properties_add d c) = columns c @ [(toLower (pd_name d), d, nextColumnID c)]) \<and>
    (toLower name \<in> fst ` set (columns c) \<longrightarrow> (\<exists>c'. Properties_drop name c = Inr c' \<and> pc_wf c' \<and>
      columns c' = filter (\<lambda>p. fst p \<noteq> toLower name) (columns c))) \<and>
    (toLower name \<in> fst ` set (columns c) \<and> toLower newName \<notin> fst ` set (columns c) \<longrightarrow>
      (\<exists>c'. Properties_rename name newName c = Inr c' \<and> pc_wf c' \<and>
        columns c' = map (\<lambda>(k, d, i). if k = toLower name then (toLower newName, d\<lparr>pd_name := newName\<rparr>, i) else (k, d, i)) (columns c)))"
  using lookup_columns [OF wf] Properties_add_columns [OF wf, of d] Properties_drop_columns [OF wf, of name]
    Properties_rename_columns [OF wf, of name newName]
  by auto

theorem properties_refine_columns_witness:
  "\<exists>c'. Properties_drop ''ID'' (Properties_add \<lparr>pd_name = ''id'', pd_column = ()\<rparr> (new_PropertyDefinitionCollection 0)) = Inr c' \<and> columns c' = []"
proof -
  let ?c = "Properties_add \<lparr>pd_name = ''id'', pd_column = ()\<rparr> (new_PropertyDefinitionCollection 0)"
  have lower: "toLower ''id'' = ''id''" "toLower ''ID'' = ''id''" by code_simp+
  have c: "pc_wf ?c" "map fst (columns ?c) = [''id'']"
    using properties_refine_columns [OF pc_wf_new(1) [of 0], where d = "\<lparr>pd_name = ''id'', pd_column = ()\<rparr>"]
    by (simp_all add: pc_wf_new lower)
  then obtain x where x: "columns ?c = [(''id'', x)]" by (cases "columns ?c") auto
  with properties_refine_columns [OF c(1), where name = "''ID''"] show ?thesis by (auto simp: lower)
qed

end
