(* ===== verification/Catalog_Entry.thy ===== *)
theory Catalog_Entry
  imports Property_Collection Transaction
begin

text \<open>
  Catalog entries (\<^verbatim>\<open>src/src/include/catalog/catalog_entry\<close>, \<^verbatim>\<open>src/src/catalog/catalog_entry\<close>), the alterations of table
  entries, and the logging of catalog changes (\<^verbatim>\<open>Transaction::pushCatalogEntry\<close>). The classes of entries are one record: the
  fields of \<^verbatim>\<open>CatalogEntry\<close>, those of \<^verbatim>\<open>TableCatalogEntry\<close>, and the data of the class itself as a type parameter, which no
  operation here looks at. An operation that throws after it has changed its state returns the state with the exception.
\<close>

subsection \<open>Entries\<close>

datatype CatalogEntryType =
    NODE_TABLE_ENTRY | REL_TABLE_ENTRY | REL_GROUP_ENTRY | RDF_GRAPH_ENTRY | FOREIGN_TABLE_ENTRY
  | SCALAR_MACRO_ENTRY
  | AGGREGATE_FUNCTION_ENTRY | SCALAR_FUNCTION_ENTRY | REWRITE_FUNCTION_ENTRY | TABLE_FUNCTION_ENTRY
  | GDS_FUNCTION_ENTRY | COPY_FUNCTION_ENTRY
  | SEQUENCE_ENTRY | TYPE_ENTRY | DUMMY_ENTRY

fun CatalogEntryTypeUtils_toString :: "CatalogEntryType \<Rightarrow> string result" where
  "CatalogEntryTypeUtils_toString NODE_TABLE_ENTRY = Inr ''NODE_TABLE_ENTRY''"
| "CatalogEntryTypeUtils_toString REL_TABLE_ENTRY = Inr ''REL_TABLE_ENTRY''"
| "CatalogEntryTypeUtils_toString REL_GROUP_ENTRY = Inr ''REL_GROUP_ENTRY''"
| "CatalogEntryTypeUtils_toString RDF_GRAPH_ENTRY = Inr ''RDF_GRAPH_ENTRY''"
| "CatalogEntryTypeUtils_toString FOREIGN_TABLE_ENTRY = Inr ''FOREIGN_TABLE_ENTRY''"
| "CatalogEntryTypeUtils_toString SCALAR_MACRO_ENTRY = Inr ''SCALAR_MACRO_ENTRY''"
| "CatalogEntryTypeUtils_toString AGGREGATE_FUNCTION_ENTRY = Inr ''AGGREGATE_FUNCTION_ENTRY''"
| "CatalogEntryTypeUtils_toString SCALAR_FUNCTION_ENTRY = Inr ''SCALAR_FUNCTION_ENTRY''"
| "CatalogEntryTypeUtils_toString REWRITE_FUNCTION_ENTRY = Inr ''REWRITE_FUNCTION_ENTRY''"
| "CatalogEntryTypeUtils_toString TABLE_FUNCTION_ENTRY = Inr ''TABLE_FUNCTION_ENTRY''"
| "CatalogEntryTypeUtils_toString GDS_FUNCTION_ENTRY = Inr ''GDS_FUNCTION_ENTRY''"
| "CatalogEntryTypeUtils_toString COPY_FUNCTION_ENTRY = Inr ''COPY_FUNCTION_ENTRY''"
| "CatalogEntryTypeUtils_toString DUMMY_ENTRY = Inr ''DUMMY_ENTRY''"
| "CatalogEntryTypeUtils_toString SEQUENCE_ENTRY = Inr ''SEQUENCE_ENTRY''"
| "CatalogEntryTypeUtils_toString TYPE_ENTRY = Inl InternalException"

definition isTableEntry :: "CatalogEntryType \<Rightarrow> bool" where
  "isTableEntry type \<longleftrightarrow> type = NODE_TABLE_ENTRY \<or> type = REL_TABLE_ENTRY \<or> type = REL_GROUP_ENTRY \<or> type = RDF_GRAPH_ENTRY"

datatype 'd BoundExtraAlterInfo =
    RENAME_TABLE string
  | RENAME_PROPERTY string string
  | ADD_PROPERTY "'d PropertyDefinition"
  | DROP_PROPERTY string
  | COMMENT string

record 'd BoundAlterInfo =
  ai_tableName :: string
  ai_extraInfo :: "'d BoundExtraAlterInfo"

record ('d, 'x) CatalogEntry =
  ce_addr :: nat
  ce_type :: CatalogEntryType
  ce_name :: string
  ce_oid :: oid_t
  ce_timestamp :: transaction_t
  ce_deleted :: bool
  ce_hasParent :: bool
  ce_comment :: string
  ce_properties :: "'d PropertyDefinitionCollection"
  ce_alterInfo :: "'d BoundAlterInfo option"
  ce_extra :: "'x option"

definition DummyCatalogEntry :: "nat \<Rightarrow> string \<Rightarrow> oid_t \<Rightarrow> ('d, 'x) CatalogEntry" where
  "DummyCatalogEntry addr name oid =
     \<lparr>ce_addr = addr, ce_type = DUMMY_ENTRY, ce_name = name, ce_oid = oid, ce_timestamp = 0, ce_deleted = True,
      ce_hasParent = False, ce_comment = '''', ce_properties = new_PropertyDefinitionCollection 0, ce_alterInfo = None,
      ce_extra = None\<rparr>"

text \<open>The copy of a table entry is a new object without the alteration of the original.\<close>

definition TableCatalogEntry_copy :: "nat \<Rightarrow> ('d, 'x) CatalogEntry \<Rightarrow> ('d, 'x) CatalogEntry" where
  "TableCatalogEntry_copy addr e = e\<lparr>ce_addr := addr, ce_alterInfo := None\<rparr>"

definition TableCatalogEntry_alter ::
  "nat \<Rightarrow> 'd BoundAlterInfo \<Rightarrow> ('d, 'x) CatalogEntry \<Rightarrow> ('d, 'x) CatalogEntry result" where
  "TableCatalogEntry_alter addr alterInfo e =
     (let newEntry = TableCatalogEntry_copy addr e in
      case ai_extraInfo alterInfo of
        RENAME_TABLE newName \<Rightarrow> Inr (newEntry\<lparr>ce_name := newName\<rparr>)
      | RENAME_PROPERTY newName oldName \<Rightarrow>
          rbind (Properties_rename oldName newName (ce_properties newEntry)) (\<lambda>ps. Inr (newEntry\<lparr>ce_properties := ps\<rparr>))
      | ADD_PROPERTY def \<Rightarrow> Inr (newEntry\<lparr>ce_properties := Properties_add def (ce_properties newEntry)\<rparr>)
      | DROP_PROPERTY name \<Rightarrow>
          rbind (Properties_drop name (ce_properties newEntry)) (\<lambda>ps. Inr (newEntry\<lparr>ce_properties := ps\<rparr>))
      | COMMENT comment \<Rightarrow> Inr (newEntry\<lparr>ce_comment := comment\<rparr>))"

subsection \<open>Logging\<close>

text \<open>The records of the write-ahead log that catalog changes write, with what they are made of.\<close>

datatype ('d, 'x) WALRecord =
    CreateTableEntryRecord "('d, 'x) CatalogEntry"
  | CreateCatalogEntryRecord "('d, 'x) CatalogEntry"
  | DropCatalogEntryRecord oid_t CatalogEntryType
  | AlterTableEntryRecord "'d BoundAlterInfo"
  | UpdateSequenceRecord oid_t nat

type_synonym ('d, 'x) log_state = "Transaction \<times> ('d, 'x) WALRecord list"

definition not_supported :: "CatalogEntryType \<Rightarrow> kuzu_error" where
  "not_supported type =
     (case CatalogEntryTypeUtils_toString type of
        Inl e \<Rightarrow> e
      | Inr s \<Rightarrow> RuntimeException (''Not supported catalog entry type '' @ s @ '' yet.''))"

text \<open>The record that a change from an entry to the next one writes: none, one, or an exception.\<close>

definition wal_of_change ::
  "('d, 'x) CatalogEntry \<Rightarrow> ('d, 'x) CatalogEntry \<Rightarrow> ('d, 'x) WALRecord option result" where
  "wal_of_change catalogEntry newCatalogEntry =
     (if isTableEntry (ce_type newCatalogEntry) then
        if ce_type catalogEntry = DUMMY_ENTRY then
          if ce_hasParent newCatalogEntry then Inr None else Inr (Some (CreateTableEntryRecord newCatalogEntry))
        else
          case ce_alterInfo catalogEntry of
            None \<Rightarrow> Inl NullPointer
          | Some alterInfo \<Rightarrow> Inr (Some (AlterTableEntryRecord alterInfo))
      else if ce_type newCatalogEntry = SEQUENCE_ENTRY then
        if ce_hasParent newCatalogEntry then Inr None else Inr (Some (CreateCatalogEntryRecord newCatalogEntry))
      else if ce_type newCatalogEntry = SCALAR_MACRO_ENTRY \<or> ce_type newCatalogEntry = TYPE_ENTRY then
        Inr (Some (CreateCatalogEntryRecord newCatalogEntry))
      else if ce_type newCatalogEntry = DUMMY_ENTRY then
        if ce_hasParent catalogEntry then Inr None
        else if isTableEntry (ce_type catalogEntry) then
          case ce_alterInfo catalogEntry of
            Some alterInfo \<Rightarrow> Inr (Some (AlterTableEntryRecord alterInfo))
          | None \<Rightarrow> Inr (Some (DropCatalogEntryRecord (ce_oid catalogEntry) (ce_type catalogEntry)))
        else if ce_type catalogEntry = SEQUENCE_ENTRY then
          Inr (Some (DropCatalogEntryRecord (ce_oid catalogEntry) (ce_type catalogEntry)))
        else if ce_type catalogEntry = SCALAR_FUNCTION_ENTRY then Inr None
        else Inl (not_supported (ce_type catalogEntry))
      else if ce_type newCatalogEntry = SCALAR_FUNCTION_ENTRY then Inr None
      else Inl (not_supported (ce_type catalogEntry)))"

definition pushCatalogEntry ::
  "nat \<Rightarrow> ('d, 'x) CatalogEntry \<Rightarrow> ('d, 'x) CatalogEntry option \<Rightarrow> bool \<Rightarrow> ('d, 'x) log_state \<Rightarrow> unit result \<times> ('d, 'x) log_state" where
  "pushCatalogEntry catalogSet catalogEntry newCatalogEntry skipLoggingToWAL s =
     (let (t, wal) = s;
          t' = t\<lparr>undoBuffer := createCatalogEntry catalogSet (ce_addr catalogEntry) (undoBuffer t)\<rparr>
      in if \<not> shouldLogToWAL t \<or> skipLoggingToWAL then (Inr (), (t', wal))
         else case newCatalogEntry of
                None \<Rightarrow> (Inl NullPointer, (t', wal))
              | Some new \<Rightarrow>
                  (case wal_of_change catalogEntry new of
                     Inl e \<Rightarrow> (Inl e, (t', wal))
                   | Inr None \<Rightarrow> (Inr (), (t', wal))
                   | Inr (Some r) \<Rightarrow> (Inr (), (t', wal @ [r]))))"

definition pushSequenceChange ::
  "nat \<Rightarrow> oid_t \<Rightarrow> nat \<Rightarrow> SequenceRollbackData \<Rightarrow> ('d, 'x) log_state \<Rightarrow> ('d, 'x) log_state" where
  "pushSequenceChange sequenceEntry oid kCount data s =
     (let (t, wal) = s
      in (t\<lparr>undoBuffer := createSequenceChange sequenceEntry data (undoBuffer t)\<rparr>,
          if shouldLogToWAL t then wal @ [UpdateSequenceRecord oid kCount] else wal))"

text \<open>Logging adds the undo record whether or not it throws.\<close>

lemma pushCatalogEntry_undo:
  assumes "pushCatalogEntry cs e n skip (t, wal) = (r, (t', wal'))"
  shows "undoRecords (undoBuffer t') = undoRecords (undoBuffer t) @ [CatalogEntryRecord cs (ce_addr e)]"
    "tx_ID t' = tx_ID t" "tx_startTS t' = tx_startTS t" "tx_type t' = tx_type t" "isInMemory t' = isInMemory t"
  using assms by (auto simp: pushCatalogEntry_def Let_def split: if_splits sum.splits option.splits)

lemma pushSequenceChange_undo:
  assumes "pushSequenceChange a oid k d (t, wal) = (t', wal')"
  shows "undoRecords (undoBuffer t') = undoRecords (undoBuffer t) @ [SequenceEntryRecord a d]"
    "tx_ID t' = tx_ID t" "tx_startTS t' = tx_startTS t" "tx_type t' = tx_type t" "isInMemory t' = isInMemory t"
  using assms by (auto simp: pushSequenceChange_def Let_def)

end
