(* ===== verification/Sequence.thy ===== *)
theory Sequence
  imports Catalog_Entry Checked_Arithmetic
begin

text \<open>
  Sequences (\<^verbatim>\<open>src/src/catalog/catalog_entry/sequence_catalog_entry.cpp\<close>): drawing values, with and without cycling, and the
  rollback of the draws through the undo buffer. A draw of several values that throws on the way keeps the values drawn
  before and adds no undo record, so that a rollback gives back the draws on a sequence from the first one that did not throw on.
\<close>

subsection \<open>Drawing values\<close>

record BoundCreateSequenceInfo =
  si_sequenceName :: string
  si_startWith :: int
  si_increment :: int
  si_minValue :: int
  si_maxValue :: int
  si_cycle :: bool

record SequenceData =
  usageCount :: nat
  sq_currVal :: int
  increment :: int
  startValue :: int
  minValue :: int
  maxValue :: int
  cycle :: bool

definition new_SequenceData :: "BoundCreateSequenceInfo \<Rightarrow> SequenceData" where
  "new_SequenceData info =
     \<lparr>usageCount = 0, sq_currVal = si_startWith info, increment = si_increment info, startValue = si_startWith info,
      minValue = si_minValue info, maxValue = si_maxValue info, cycle = si_cycle info\<rparr>"

definition currVal :: "string \<Rightarrow> SequenceData \<Rightarrow> int result" where
  "currVal name s =
     (if usageCount s = 0
      then Inl (CatalogException (''currval: sequence '' @ [CHR 0x22] @ name @ [CHR 0x22] @
        '' is not yet defined. To define the sequence, call nextval first.''))
      else Inr (sq_currVal s))"

definition nextValNoLock :: "string \<Rightarrow> SequenceData \<Rightarrow> SequenceData result" where
  "nextValNoLock name s =
     (if usageCount s = 0 then Inr (s\<lparr>usageCount := usageCount s + 1\<rparr>)
      else
        let (overflow, nxt) =
              (case Add_operation INT64 (sq_currVal s) (increment s) of
                 Inl _ \<Rightarrow> (True, sq_currVal s)
               | Inr v \<Rightarrow> (False, v))
        in if cycle s
           then let nxt = (if overflow then (if increment s < 0 then maxValue s else minValue s)
                           else if nxt < minValue s then maxValue s
                           else if nxt > maxValue s then minValue s
                           else nxt)
                in Inr (s\<lparr>sq_currVal := nxt, usageCount := usageCount s + 1\<rparr>)
           else let minError = (if overflow then increment s < 0 else nxt < minValue s);
                    maxError = (if overflow then increment s > 0 else nxt > maxValue s)
                in if minError
                   then Inl (CatalogException (''nextval: reached minimum value of sequence '' @ [CHR 0x22] @ name @ [CHR 0x22] @
                          '' '' @ decimal_int (minValue s)))
                   else if maxError
                   then Inl (CatalogException (''nextval: reached maximum value of sequence '' @ [CHR 0x22] @ name @ [CHR 0x22] @
                          '' '' @ decimal_int (maxValue s)))
                   else Inr (s\<lparr>sq_currVal := nxt, usageCount := usageCount s + 1\<rparr>))"

text \<open>The loop over the draws, with the values it writes to the result vector, and where it stops.\<close>

fun nextVals :: "string \<Rightarrow> nat \<Rightarrow> SequenceData \<Rightarrow> int list \<Rightarrow> kuzu_error option \<times> SequenceData \<times> int list" where
  "nextVals name 0 s vals = (None, s, vals)"
| "nextVals name (Suc count) s vals =
     (case nextValNoLock name s of
        Inl e \<Rightarrow> (Some e, s, vals)
      | Inr s \<Rightarrow> nextVals name count s (vals @ [sq_currVal s]))"

definition nextKVal ::
  "string \<Rightarrow> nat \<Rightarrow> oid_t \<Rightarrow> nat \<Rightarrow> SequenceData \<Rightarrow> ('d, 'x) log_state \<Rightarrow> int list result \<times> SequenceData \<times> ('d, 'x) log_state" where
  "nextKVal name addr oid count s ls =
     (let rollbackData = \<lparr>rd_usageCount = usageCount s, rd_currVal = sq_currVal s\<rparr>
      in case nextVals name count s [] of
           (Some e, s, _) \<Rightarrow> (Inl e, s, ls)
         | (None, s, vals) \<Rightarrow> (Inr vals, s, pushSequenceChange addr oid count rollbackData ls))"

definition rollbackVal :: "nat \<Rightarrow> int \<Rightarrow> SequenceData \<Rightarrow> SequenceData" where
  "rollbackVal usage val s = s\<lparr>usageCount := usage, sq_currVal := val\<rparr>"

definition rollbackSequenceEntry :: "UndoRecord \<Rightarrow> (nat \<Rightarrow> SequenceData) \<Rightarrow> (nat \<Rightarrow> SequenceData) result" where
  "rollbackSequenceEntry rec seqs =
     (case rec of
        SequenceEntryRecord a data \<Rightarrow> Inr (seqs(a := rollbackVal (rd_usageCount data) (rd_currVal data) (seqs a)))
      | _ \<Rightarrow> Inr seqs)"

definition commitSequenceEntry :: "UndoRecord \<Rightarrow> (nat \<Rightarrow> SequenceData) \<Rightarrow> (nat \<Rightarrow> SequenceData) result" where
  "commitSequenceEntry rec seqs = Inr seqs"

subsection \<open>Bounds\<close>

text \<open>The binder only creates sequences with the start between the bounds.\<close>

definition seq_ok :: "SequenceData \<Rightarrow> bool" where
  "seq_ok s \<longleftrightarrow> minValue s \<le> sq_currVal s \<and> sq_currVal s \<le> maxValue s \<and>
     in_range INT64 (minValue s) \<and> in_range INT64 (maxValue s) \<and> in_range INT64 (increment s)"

definition same_sequence :: "SequenceData \<Rightarrow> SequenceData \<Rightarrow> bool" where
  "same_sequence s s' \<longleftrightarrow> s' = s\<lparr>usageCount := usageCount s', sq_currVal := sq_currVal s'\<rparr>"

lemma seq_ok_range: "seq_ok s \<Longrightarrow> in_range INT64 (sq_currVal s)"
  by (auto simp: seq_ok_def in_range_def)

lemma Add_int64:
  assumes "in_range INT64 l" "in_range INT64 r"
  shows "Add_operation INT64 l r = (if in_range INT64 (l + r) then Inr (l + r) else Inl (out_of_range INT64 '' + '' l r))"
  using AddInPlace_exact [OF assms] by (simp add: Add_operation_def)

lemma nextVal_first: "usageCount s = 0 \<Longrightarrow> nextValNoLock name s = Inr (s\<lparr>usageCount := 1\<rparr>)"
  by (simp add: nextValNoLock_def)

lemma nextVal_ok:
  assumes ok: "seq_ok s" and nxt: "nextValNoLock name s = Inr s'"
  shows "seq_ok s'" "same_sequence s s'" "usageCount s' = usageCount s + 1"
proof -
  note a = Add_int64 [OF seq_ok_range [OF ok], of "increment s"]
  have r: "in_range INT64 (increment s)" using ok by (simp add: seq_ok_def)
  show "seq_ok s'" "same_sequence s s'" "usageCount s' = usageCount s + 1"
    using nxt ok r a
    by (auto simp: nextValNoLock_def Let_def seq_ok_def same_sequence_def split: if_splits)
qed

lemma same_sequence_refl: "same_sequence s s"
  by (simp add: same_sequence_def)

lemma same_sequence_trans: "same_sequence s s' \<Longrightarrow> same_sequence s' s'' \<Longrightarrow> same_sequence s s''"
  by (cases s; cases s'; cases s'') (simp add: same_sequence_def)

lemma nextVals_ok:
  assumes "seq_ok s" "nextVals name count s vals = (e, s', vals')"
  shows "seq_ok s' \<and> same_sequence s s'"
  using assms
proof (induction count arbitrary: s vals)
  case (Suc count)
  show ?case
  proof (cases "nextValNoLock name s")
    case (Inl a)
    then show ?thesis using Suc.prems by (simp add: same_sequence_refl)
  next
    case (Inr s1)
    note n = nextVal_ok [OF Suc.prems(1) Inr]
    from Suc.IH [OF n(1)] Suc.prems(2) Inr have "seq_ok s' \<and> same_sequence s1 s'" by simp
    then show ?thesis using same_sequence_trans [OF n(2)] by blast
  qed
qed (simp add: same_sequence_refl)

subsection \<open>The values\<close>

text \<open>The values of a sequence that does not cycle, counted from the next draw.\<close>

definition drawn :: "SequenceData \<Rightarrow> nat \<Rightarrow> int" where
  "drawn s i = sq_currVal s + int (if usageCount s = 0 then i else Suc i) * increment s"

lemma nextVal_drawn:
  assumes ok: "seq_ok s" and c: "\<not> cycle s"
  shows "minValue s \<le> drawn s 0 \<and> drawn s 0 \<le> maxValue s \<Longrightarrow>
      nextValNoLock name s = Inr (s\<lparr>sq_currVal := drawn s 0, usageCount := usageCount s + 1\<rparr>)"
    "\<not> (minValue s \<le> drawn s 0 \<and> drawn s 0 \<le> maxValue s) \<Longrightarrow> \<exists>m. nextValNoLock name s = Inl (CatalogException m)"
proof -
  have r: "in_range INT64 (increment s)" using ok by (simp add: seq_ok_def)
  note a = Add_int64 [OF seq_ok_range [OF ok] r]
  have rng: "in_range INT64 v" if "minValue s \<le> v" "v \<le> maxValue s" for v
    using that ok by (auto simp: seq_ok_def in_range_def)
  have "sq_currVal s + increment s < - (2 ^ 63) \<Longrightarrow> increment s < 0" "2 ^ 63 - 1 < sq_currVal s + increment s \<Longrightarrow> 0 < increment s"
    using seq_ok_range [OF ok] by (auto simp: in_range_def)
  then have sign: "\<not> in_range INT64 (sq_currVal s + increment s) \<Longrightarrow> increment s < 0 \<or> 0 < increment s"
    by (auto simp: in_range_def)
  show "minValue s \<le> drawn s 0 \<and> drawn s 0 \<le> maxValue s \<Longrightarrow>
      nextValNoLock name s = Inr (s\<lparr>sq_currVal := drawn s 0, usageCount := usageCount s + 1\<rparr>)"
    using rng [of "drawn s 0"] c by (auto simp: nextValNoLock_def drawn_def a Let_def split: if_splits)
  show "\<not> (minValue s \<le> drawn s 0 \<and> drawn s 0 \<le> maxValue s) \<Longrightarrow> \<exists>m. nextValNoLock name s = Inl (CatalogException m)"
    using ok sign c by (cases "in_range INT64 (sq_currVal s + increment s)")
      (auto simp: nextValNoLock_def drawn_def a Let_def seq_ok_def split: if_splits)
qed

lemma drawn_step:
  assumes "s' = s\<lparr>sq_currVal := drawn s 0, usageCount := usageCount s + 1\<rparr>"
  shows "drawn s' i = drawn s (Suc i)" "cycle s' = cycle s" "minValue s' = minValue s" "maxValue s' = maxValue s"
  using assms by (auto simp: drawn_def algebra_simps)

lemma drawn_between:
  assumes ok: "seq_ok s" and last: "minValue s \<le> drawn s n" "drawn s n \<le> maxValue s"
  shows "minValue s \<le> drawn s 0 \<and> drawn s 0 \<le> maxValue s"
proof -
  have c: "minValue s \<le> sq_currVal s" "sq_currVal s \<le> maxValue s" using ok by (simp_all add: seq_ok_def)
  show ?thesis
  proof (cases "0 \<le> increment s")
    case True
    then have "sq_currVal s \<le> drawn s 0" "drawn s 0 \<le> drawn s n" by (auto simp: drawn_def algebra_simps)
    then show ?thesis using c last by linarith
  next
    case False
    then have "drawn s 0 \<le> sq_currVal s" "drawn s n \<le> drawn s 0"
      by (auto simp: drawn_def algebra_simps mult_nonneg_nonpos)
    then show ?thesis using c last by linarith
  qed
qed

lemma nextVals_drawn:
  assumes "seq_ok s" "\<not> cycle s" "minValue s \<le> drawn s count" "drawn s count \<le> maxValue s"
  shows "\<exists>s'. nextVals name (Suc count) s vals = (None, s', vals @ map (drawn s) [0..<Suc count])"
  using assms
proof (induction count arbitrary: s vals)
  case 0
  then show ?case using nextVal_drawn(1) [of s name] by simp
next
  case (Suc count)
  let ?s = "s\<lparr>sq_currVal := drawn s 0, usageCount := usageCount s + 1\<rparr>"
  have n: "nextValNoLock name s = Inr ?s" using nextVal_drawn(1) Suc.prems drawn_between by blast
  note d = drawn_step [OF refl, of s]
  have "\<exists>s'. nextVals name (Suc count) ?s (vals @ [drawn s 0]) = (None, s', (vals @ [drawn s 0]) @ map (drawn ?s) [0..<Suc count])"
    by (rule Suc.IH) (use Suc.prems nextVal_ok(1) [OF Suc.prems(1) n] d in simp_all)
  moreover have "[drawn s 0] @ map (drawn ?s) [0..<Suc count] = map (drawn s) [0..<Suc (Suc count)]"
    unfolding d(1) by (simp only: upt_conv_Cons zero_less_Suc list.map map_Suc_upt [symmetric] map_map append_Cons append_Nil) (simp add: o_def)
  ultimately show ?case using n by (simp del: upt_Suc)
qed

lemma nextVals_exhausted:
  assumes "seq_ok s" "\<not> cycle s" "\<not> (minValue s \<le> drawn s count \<and> drawn s count \<le> maxValue s)"
  shows "\<exists>m s' vals'. nextVals name (Suc count) s vals = (Some (CatalogException m), s', vals')"
  using assms
proof (induction count arbitrary: s vals)
  case 0
  then show ?case using nextVal_drawn(2) [of s name] by auto
next
  case (Suc count)
  show ?case
  proof (cases "minValue s \<le> drawn s 0 \<and> drawn s 0 \<le> maxValue s")
    case True
    let ?s = "s\<lparr>sq_currVal := drawn s 0, usageCount := usageCount s + 1\<rparr>"
    have n: "nextValNoLock name s = Inr ?s" using nextVal_drawn(1) Suc.prems True by blast
    note d = drawn_step [OF refl, of s]
    have "\<exists>m s' vals'. nextVals name (Suc count) ?s (vals @ [drawn s 0]) = (Some (CatalogException m), s', vals')"
      by (rule Suc.IH) (use Suc.prems nextVal_ok(1) [OF Suc.prems(1) n] d in simp_all)
    then show ?thesis using n by simp
  next
    case False
    from nextVal_drawn(2) [OF Suc.prems(1,2) False, of name] show ?thesis by auto
  qed
qed

text \<open>(C11) Drawing values from a sequence that does not cycle gives the arithmetic progression from its current value, and the
  start value first; it throws exactly when the last value would leave the bounds.\<close>

theorem sequence_values:
  assumes "seq_ok s" "\<not> cycle s"
  shows "(minValue s \<le> drawn s count \<and> drawn s count \<le> maxValue s \<longrightarrow>
      fst (nextKVal name addr oid (Suc count) s ls) = Inr (map (drawn s) [0..<Suc count])) \<and>
    (\<not> (minValue s \<le> drawn s count \<and> drawn s count \<le> maxValue s) \<longrightarrow>
      (\<exists>m. fst (nextKVal name addr oid (Suc count) s ls) = Inl (CatalogException m)))"
proof (intro conjI impI)
  assume "minValue s \<le> drawn s count \<and> drawn s count \<le> maxValue s"
  then obtain s' where "nextVals name (Suc count) s [] = (None, s', map (drawn s) [0..<Suc count])"
    using nextVals_drawn [OF assms, of count name "[]"] by auto
  then show "fst (nextKVal name addr oid (Suc count) s ls) = Inr (map (drawn s) [0..<Suc count])"
    by (simp add: nextKVal_def del: upt_Suc nextVals.simps)
next
  assume "\<not> (minValue s \<le> drawn s count \<and> drawn s count \<le> maxValue s)"
  then obtain m s' vals' where "nextVals name (Suc count) s [] = (Some (CatalogException m), s', vals')"
    using nextVals_exhausted [OF assms, of count name "[]"] by auto
  then show "\<exists>m. fst (nextKVal name addr oid (Suc count) s ls) = Inl (CatalogException m)"
    by (simp add: nextKVal_def del: nextVals.simps)
qed

definition example_sequence :: SequenceData where
  "example_sequence = new_SequenceData \<lparr>si_sequenceName = ''s'', si_startWith = 1, si_increment = 2, si_minValue = 0,
     si_maxValue = 5, si_cycle = False\<rparr>"

theorem sequence_values_witness:
  "fst (nextKVal ''s'' 0 0 3 example_sequence (DUMMY_TRANSACTION, [] :: (unit, unit) WALRecord list)) = Inr [1, 3, 5] \<and>
   (\<exists>m. fst (nextKVal ''s'' 0 0 4 example_sequence (DUMMY_TRANSACTION, [] :: (unit, unit) WALRecord list)) = Inl (CatalogException m))"
proof -
  have s: "seq_ok example_sequence" "\<not> cycle example_sequence"
    by (simp_all add: example_sequence_def new_SequenceData_def seq_ok_def in_range_def)
  have d: "drawn example_sequence i = 1 + 2 * int i" "minValue example_sequence = 0" "maxValue example_sequence = 5" for i
    by (simp_all add: drawn_def example_sequence_def new_SequenceData_def)
  show ?thesis
    using sequence_values [OF s, of 2 "''s''" 0 0 "(DUMMY_TRANSACTION, [])"]
      sequence_values [OF s, of 3 "''s''" 0 0 "(DUMMY_TRANSACTION, [])"]
    by (simp add: d numeral_eq_Suc)
qed

text \<open>(C12) The current value of a sequence stays between its bounds, whether a draw succeeds, throws on the way, or cycles, and no
  draw changes the definition of the sequence.\<close>

theorem sequence_in_bounds:
  assumes "seq_ok s" "nextKVal name addr oid count s ls = (r, s', ls')"
  shows "seq_ok s' \<and> increment s' = increment s \<and> minValue s' = minValue s \<and> maxValue s' = maxValue s \<and> cycle s' = cycle s"
proof -
  obtain e s1 vals where n: "nextVals name count s [] = (e, s1, vals)" by (metis prod_cases3)
  then have "s' = s1" using assms(2) by (auto simp: nextKVal_def Let_def split: option.splits)
  then have "seq_ok s'" "same_sequence s s'" using nextVals_ok [OF assms(1) n] by simp_all
  then show ?thesis by (cases s; cases s') (simp add: same_sequence_def)
qed

theorem sequence_in_bounds_witness:
  "seq_ok (fst (snd (nextKVal ''s'' 0 0 9 (example_sequence\<lparr>cycle := True\<rparr>) (DUMMY_TRANSACTION, [] :: (unit, unit) WALRecord list))))"
proof -
  have "seq_ok (example_sequence\<lparr>cycle := True\<rparr>)"
    by (simp add: example_sequence_def new_SequenceData_def seq_ok_def in_range_def)
  from sequence_in_bounds [OF this] show ?thesis by (metis prod.collapse)
qed

subsection \<open>Rollback\<close>

text \<open>A run of draws on sequences at given addresses, with the result of each of them. A draw that throws leaves the values it
  drew before in its sequence.\<close>

definition draw ::
  "string \<times> nat \<times> oid_t \<times> nat \<Rightarrow> (nat \<Rightarrow> SequenceData) \<times> ('d, 'x) log_state \<Rightarrow>
   int list result \<times> (nat \<Rightarrow> SequenceData) \<times> ('d, 'x) log_state" where
  "draw d s =
     (case (d, s) of ((name, addr, oid, count), (seqs, ls)) \<Rightarrow>
        (case nextKVal name addr oid count (seqs addr) ls of (r, sq, ls) \<Rightarrow> (r, seqs(addr := sq), ls)))"

fun draws ::
  "(string \<times> nat \<times> oid_t \<times> nat) list \<Rightarrow> (nat \<Rightarrow> SequenceData) \<times> ('d, 'x) log_state \<Rightarrow>
   int list result list \<times> (nat \<Rightarrow> SequenceData) \<times> ('d, 'x) log_state" where
  "draws [] s = ([], s)"
| "draws (d # ds) s = (let (r, s) = draw d s; (rs, s) = draws ds s in (r # rs, s))"

text \<open>The first draw on a sequence did not throw, or there was no draw on it.\<close>

fun first_draw_ok :: "nat \<Rightarrow> (string \<times> nat \<times> oid_t \<times> nat) list \<Rightarrow> int list result list \<Rightarrow> bool" where
  "first_draw_ok a ((name, addr, oid, count) # ds) (r # rs) = (if addr = a then \<not> isl r else first_draw_ok a ds rs)"
| "first_draw_ok a _ _ = True"

lemma all_draws_ok: "\<forall>r \<in> set rs. \<not> isl r \<Longrightarrow> first_draw_ok a ds rs"
  by (induction a ds rs rule: first_draw_ok.induct) auto

lemma draw_cases:
  assumes "draw (name, a, oid, count) (seqs, (t, wal)) = (r, seqs', (t', wal'))" "seq_ok (seqs a)"
  obtains sq where "seqs' = seqs(a := sq)" "seq_ok sq" "same_sequence (seqs a) sq" "isl r" "t' = t"
  | sq where "seqs' = seqs(a := sq)" "seq_ok sq" "same_sequence (seqs a) sq" "\<not> isl r"
      "undoRecords (undoBuffer t') = undoRecords (undoBuffer t) @
         [SequenceEntryRecord a \<lparr>rd_usageCount = usageCount (seqs a), rd_currVal = sq_currVal (seqs a)\<rparr>]"
proof -
  obtain e sq vals where n: "nextVals name count (seqs a) [] = (e, sq, vals)" by (metis prod_cases3)
  note ok = nextVals_ok [OF assms(2) n]
  show thesis
  proof (cases e)
    case None
    then have "seqs' = seqs(a := sq)" "\<not> isl r" and push: "pushSequenceChange a oid count
        \<lparr>rd_usageCount = usageCount (seqs a), rd_currVal = sq_currVal (seqs a)\<rparr> (t, wal) = (t', wal')"
      using assms(1) n by (auto simp: draw_def nextKVal_def Let_def)
    then show thesis using that(2) ok pushSequenceChange_undo(1) [OF push] by blast
  next
    case (Some x)
    then have "seqs' = seqs(a := sq)" "isl r" "t' = t" using assms(1) n by (auto simp: draw_def nextKVal_def Let_def)
    then show thesis using that(1) ok by blast
  qed
qed

lemma rollbackVal_same: "same_sequence s s' \<Longrightarrow> rollbackVal (usageCount s) (sq_currVal s) s' = s"
  by (cases s; cases s') (simp add: same_sequence_def rollbackVal_def)

lemma draws_undone:
  assumes "draws ds (seqs, (t, wal)) = (rs, seqs', (t', wal'))" "\<forall>a. seq_ok (seqs a)"
  shows "\<exists>recs seqs''. undoRecords (undoBuffer t') = undoRecords (undoBuffer t) @ recs \<and>
    foldM rollbackSequenceEntry (rev recs) seqs' = Inr seqs'' \<and>
    (\<forall>a. same_sequence (seqs a) (seqs'' a) \<and> (first_draw_ok a ds rs \<longrightarrow> seqs'' a = seqs a))"
  using assms
proof (induction ds arbitrary: seqs t wal rs)
  case Nil
  then show ?case by (intro exI [of _ "[]"]) (simp add: same_sequence_refl)
next
  case (Cons d ds)
  obtain name a oid count where d: "d = (name, a, oid, count)" by (cases d)
  obtain r seqs1 t1 wal1 where s: "draw d (seqs, (t, wal)) = (r, seqs1, (t1, wal1))" by (metis prod.exhaust)
  then obtain rs' where rest: "draws ds (seqs1, (t1, wal1)) = (rs', seqs', (t', wal'))" and rs: "rs = r # rs'"
    using Cons.prems(1) by (auto simp: Let_def split: prod.splits)
  have ok: "seq_ok (seqs a)" using Cons.prems(2) by blast
  note IH = Cons.IH [OF rest]
  from s [unfolded d] ok show ?case
  proof (cases rule: draw_cases)
    case (1 sq)
    then have "\<forall>a. seq_ok (seqs1 a)" using Cons.prems(2) by simp
    from IH [OF this] obtain recs seqs'' where i: "undoRecords (undoBuffer t') = undoRecords (undoBuffer t1) @ recs"
      "foldM rollbackSequenceEntry (rev recs) seqs' = Inr seqs''"
      "\<And>x. same_sequence (seqs1 x) (seqs'' x)" "\<And>x. first_draw_ok x ds rs' \<Longrightarrow> seqs'' x = seqs1 x"
      by blast
    have "same_sequence (seqs x) (seqs'' x)" for x
      using i(3) [of x] 1(1) same_sequence_trans [OF 1(3)] by (cases "x = a") auto
    moreover have "seqs'' x = seqs x" if "first_draw_ok x (d # ds) rs" for x
      using i(4) [of x] that 1(1,4) by (cases "x = a") (auto simp: d rs)
    ultimately show ?thesis using i(1,2) 1(5) by blast
  next
    case (2 sq)
    let ?data = "\<lparr>rd_usageCount = usageCount (seqs a), rd_currVal = sq_currVal (seqs a)\<rparr>"
    from 2 have "\<forall>a. seq_ok (seqs1 a)" using Cons.prems(2) by simp
    from IH [OF this] obtain recs seqs'' where i: "undoRecords (undoBuffer t') = undoRecords (undoBuffer t1) @ recs"
      "foldM rollbackSequenceEntry (rev recs) seqs' = Inr seqs''"
      "\<And>x. same_sequence (seqs1 x) (seqs'' x)" "\<And>x. first_draw_ok x ds rs' \<Longrightarrow> seqs'' x = seqs1 x"
      by blast
    have "same_sequence (seqs a) (seqs'' a)" using i(3) [of a] 2(1) same_sequence_trans [OF 2(3)] by simp
    then have undo: "rollbackSequenceEntry (SequenceEntryRecord a ?data) seqs'' = Inr (seqs''(a := seqs a))"
      by (simp add: rollbackSequenceEntry_def rollbackVal_same)
    have "same_sequence (seqs x) ((seqs''(a := seqs a)) x)" for x
      using i(3) [of x] 2(1) by (cases "x = a") (auto simp: same_sequence_refl)
    moreover have "(seqs''(a := seqs a)) x = seqs x" if "first_draw_ok x (d # ds) rs" for x
      using i(4) [of x] that 2(1) by (cases "x = a") (auto simp: d rs)
    ultimately show ?thesis using i(1,2) 2(5) undo
      by (intro exI [of _ "SequenceEntryRecord a ?data # recs"] exI [of _ "seqs''(a := seqs a)"]) (simp add: foldM_append del: fun_upd_apply)
  qed
qed

text \<open>(C13) Rolling back a transaction that drew values from sequences, some of the draws possibly throwing, does not fail. It
  restores every sequence whose first draw in the transaction did not throw, and every sequence without a draw; so it restores
  all of them when no draw threw. A sequence whose first draw threw keeps the values drawn before the exception: only its
  definition is known to be unchanged.\<close>

theorem sequence_rollback:
  assumes "undoRecords (undoBuffer t) = []" "\<forall>a. seq_ok (seqs a)" "draws ds (seqs, (t, wal)) = (rs, seqs', (t', wal'))"
  shows "\<exists>seqs''. reverseIterate rollbackSequenceEntry (undoBuffer t') seqs' = Inr seqs'' \<and>
    (\<forall>a. first_draw_ok a ds rs \<longrightarrow> seqs'' a = seqs a) \<and> (\<forall>a. same_sequence (seqs a) (seqs'' a)) \<and>
    ((\<forall>r \<in> set rs. \<not> isl r) \<longrightarrow> seqs'' = seqs)"
proof -
  from draws_undone [OF assms(3,2)] obtain recs seqs''
    where r: "undoRecords (undoBuffer t') = undoRecords (undoBuffer t) @ recs"
    "foldM rollbackSequenceEntry (rev recs) seqs' = Inr seqs''" "\<And>a. same_sequence (seqs a) (seqs'' a)"
    "\<And>a. first_draw_ok a ds rs \<Longrightarrow> seqs'' a = seqs a"
    by blast
  have "seqs'' = seqs" if "\<forall>r \<in> set rs. \<not> isl r" using r(4) all_draws_ok [OF that] by blast
  then show ?thesis using r assms(1) by (auto simp: reverseIterate_undoRecords)
qed

text \<open>Three draws: two values of the sequence at 0, then four of the one at 1, which throws after three, then one more at 0.\<close>

definition example_draws :: "(string \<times> nat \<times> oid_t \<times> nat) list" where
  "example_draws = [(''s'', 0, 0, 2), (''s'', 1, 1, 4), (''s'', 0, 0, 1)]"

theorem sequence_rollback_witness:
  "\<exists>rs seqs t wal seqs''. draws example_draws
       (\<lambda>_. example_sequence, (DUMMY_TRANSACTION, [] :: (unit, unit) WALRecord list)) = (rs, seqs, (t, wal)) \<and>
     map isl rs = [False, True, False] \<and>
     reverseIterate rollbackSequenceEntry (undoBuffer t) seqs = Inr seqs'' \<and> seqs'' 0 = example_sequence \<and> seqs'' 7 = example_sequence"
proof -
  let ?s = "(\<lambda>_. example_sequence, (DUMMY_TRANSACTION, [] :: (unit, unit) WALRecord list))"
  have s: "\<forall>a. seq_ok ((\<lambda>_. example_sequence) a)"
    by (simp add: example_sequence_def new_SequenceData_def seq_ok_def in_range_def)
  have u: "undoRecords (undoBuffer DUMMY_TRANSACTION) = []" by (simp add: DUMMY_TRANSACTION_def new_Transaction_def undoRecords_def)
  obtain rs seqs t wal where f: "draws example_draws ?s = (rs, seqs, (t, wal))" by (metis prod.exhaust)
  have "map isl (fst (draws example_draws ?s)) = [False, True, False]"
    by (simp add: example_draws_def draw_def nextKVal_def numeral_eq_Suc nextValNoLock_def example_sequence_def new_SequenceData_def
        Add_operation_def builtin_overflow_def Let_def split: prod.split)
  then have isl: "map isl rs = [False, True, False]" by (simp add: f)
  then have "first_draw_ok 0 example_draws rs" "first_draw_ok 7 example_draws rs" by (auto simp: example_draws_def)
  with sequence_rollback [OF u s f] obtain seqs''
    where "reverseIterate rollbackSequenceEntry (undoBuffer t) seqs = Inr seqs''" "seqs'' 0 = example_sequence" "seqs'' 7 = example_sequence"
    by blast
  with f isl show ?thesis by (intro exI [of _ rs] exI [of _ seqs] exI [of _ t] exI [of _ wal] exI [of _ seqs'']) simp
qed

text \<open>A draw that throws on the way keeps the values drawn before the exception, and there is no record to undo them.\<close>

lemma failed_draw_keeps_values:
  "\<exists>e s'. nextKVal ''s'' 0 0 4 example_sequence ls = (Inl e, s', ls) \<and> usageCount s' = 3 \<and> sq_currVal s' = 5"
  by (simp add: nextKVal_def numeral_eq_Suc nextValNoLock_def example_sequence_def new_SequenceData_def Add_operation_def
      builtin_overflow_def Let_def)

end
