(* ===== verification/Catalog_Set.thy ===== *)
theory Catalog_Set
  imports Catalog_Entry "HOL-Library.AList"
begin

text \<open>
  Sets of catalog entries (\<^verbatim>\<open>src/src/catalog/catalog_set.cpp\<close>) with the commit and the rollback of their undo records
  (\<^verbatim>\<open>src/src/storage/undo_buffer.cpp\<close>). Every name has a chain of versions, newest first. An entry owns the older one
  (\<^verbatim>\<open>prev\<close>), so a chain is a list; \<^verbatim>\<open>setPrev\<close> and \<^verbatim>\<open>movePrev\<close> keep the pointer to the newer one (\<^verbatim>\<open>next\<close>) in step, so it is the
  neighbour in the list. The map of names is a list of lower-case names with their chains, in the order of the C++
  container, which is not specified. Entries have addresses, which undo records hold.
\<close>

subsection \<open>The set\<close>

record ('d, 'x) CatalogSet =
  nextOID :: oid_t
  entries :: "(string \<times> ('d, 'x) CatalogEntry list) list"
  cs_brk :: nat

definition new_CatalogSet :: "('d, 'x) CatalogSet" where
  "new_CatalogSet = \<lparr>nextOID = 0, entries = [], cs_brk = 0\<rparr>"

definition checkWWConflict :: "Transaction \<Rightarrow> ('d, 'x) CatalogEntry \<Rightarrow> bool" where
  "checkWWConflict transaction entry \<longleftrightarrow>
     ce_timestamp entry \<ge> START_TRANSACTION_ID \<and> ce_timestamp entry \<noteq> tx_ID transaction \<or>
     ce_timestamp entry < START_TRANSACTION_ID \<and> ce_timestamp entry > tx_startTS transaction"

definition entries_at :: "string \<Rightarrow> ('d, 'x) CatalogSet \<Rightarrow> ('d, 'x) CatalogEntry list option" where
  "entries_at name cs = map_of (entries cs) (toLower name)"

definition set_chain :: "string \<Rightarrow> ('d, 'x) CatalogEntry list \<Rightarrow> ('d, 'x) CatalogSet \<Rightarrow> ('d, 'x) CatalogSet" where
  "set_chain k chain cs = cs\<lparr>entries := AList.update k chain (entries cs)\<rparr>"

fun traverseVersionChainsForTransactionNoLock ::
  "Transaction \<Rightarrow> ('d, 'x) CatalogEntry list \<Rightarrow> ('d, 'x) CatalogEntry option" where
  "traverseVersionChainsForTransactionNoLock transaction [] = None"
| "traverseVersionChainsForTransactionNoLock transaction (currentEntry # prev) =
     (if ce_timestamp currentEntry = tx_ID transaction then Some currentEntry
      else if ce_timestamp currentEntry \<le> tx_startTS transaction then Some currentEntry
      else traverseVersionChainsForTransactionNoLock transaction prev)"

fun getCommittedEntryNoLock :: "('d, 'x) CatalogEntry list \<Rightarrow> ('d, 'x) CatalogEntry option" where
  "getCommittedEntryNoLock [] = None"
| "getCommittedEntryNoLock (entry # prev) =
     (if ce_timestamp entry < START_TRANSACTION_ID then Some entry else getCommittedEntryNoLock prev)"

definition containsEntryNoLock :: "Transaction \<Rightarrow> string \<Rightarrow> ('d, 'x) CatalogSet \<Rightarrow> bool result" where
  "containsEntryNoLock transaction name cs =
     (case entries_at name cs of
        None \<Rightarrow> Inr False
      | Some chain \<Rightarrow>
          (case traverseVersionChainsForTransactionNoLock transaction chain of
             None \<Rightarrow> Inl NullPointer
           | Some entry \<Rightarrow> Inr (\<not> ce_deleted entry)))"

definition validateExistNoLock :: "Transaction \<Rightarrow> string \<Rightarrow> ('d, 'x) CatalogSet \<Rightarrow> unit result" where
  "validateExistNoLock transaction name cs =
     rbind (containsEntryNoLock transaction name cs) (\<lambda>b.
       if b then Inr () else Inl (CatalogException (name @ '' does not exist in catalog.'')))"

definition validateNotExistNoLock :: "Transaction \<Rightarrow> string \<Rightarrow> ('d, 'x) CatalogSet \<Rightarrow> unit result" where
  "validateNotExistNoLock transaction name cs =
     rbind (containsEntryNoLock transaction name cs) (\<lambda>b.
       if b then Inl (CatalogException (name @ '' already exists in catalog.'')) else Inr ())"

definition getEntryNoLock :: "Transaction \<Rightarrow> string \<Rightarrow> ('d, 'x) CatalogSet \<Rightarrow> ('d, 'x) CatalogEntry result" where
  "getEntryNoLock transaction name cs =
     rbind (validateExistNoLock transaction name cs) (\<lambda>_.
       case entries_at name cs of
         None \<Rightarrow> Inl OutOfRange
       | Some chain \<Rightarrow>
           (case traverseVersionChainsForTransactionNoLock transaction chain of
              None \<Rightarrow> Inl NullPointer
            | Some entry \<Rightarrow> Inr entry))"

subsection \<open>Changes\<close>

text \<open>The entry that is put in comes with the older versions it owns; it takes over the chain of its name, if there is one.\<close>

definition emplaceNoLock :: "('d, 'x) CatalogEntry \<Rightarrow> ('d, 'x) CatalogEntry list \<Rightarrow> ('d, 'x) CatalogSet \<Rightarrow> ('d, 'x) CatalogSet" where
  "emplaceNoLock entry prev cs =
     set_chain (toLower (ce_name entry))
       (entry # (case entries_at (ce_name entry) cs of None \<Rightarrow> prev | Some chain \<Rightarrow> chain)) cs"

definition eraseNoLock :: "string \<Rightarrow> ('d, 'x) CatalogSet \<Rightarrow> ('d, 'x) CatalogSet" where
  "eraseNoLock name cs = cs\<lparr>entries := AList.delete (toLower name) (entries cs)\<rparr>"

text \<open>\<^verbatim>\<open>createEntryNoLock\<close> and \<^verbatim>\<open>dropEntryNoLock\<close> return the address of the entry behind the new one. A new entry and the dummy
  take the next free addresses.\<close>

definition createEntryNoLock ::
  "Transaction \<Rightarrow> ('d, 'x) CatalogEntry \<Rightarrow> ('d, 'x) CatalogSet \<Rightarrow> (('d, 'x) CatalogSet \<times> nat) result" where
  "createEntryNoLock transaction entry cs =
     rbind (validateNotExistNoLock transaction (ce_name entry) cs) (\<lambda>_.
     rbind (case entries_at (ce_name entry) cs of
              Some (existingEntry # _) \<Rightarrow>
                if checkWWConflict transaction existingEntry
                then Inl (CatalogException (''Write-write conflict on creating catalog entry with name '' @ ce_name entry @ ''.''))
                else if \<not> ce_deleted existingEntry
                then Inl (CatalogException (''Catalog entry with name '' @ ce_name entry @ '' already exists.''))
                else Inr ()
            | _ \<Rightarrow> Inr ()) (\<lambda>_.
       let e = entry\<lparr>ce_addr := cs_brk cs, ce_timestamp := tx_ID transaction\<rparr>;
           dummyEntry = DummyCatalogEntry (Suc (cs_brk cs)) (ce_name entry) (ce_oid entry);
           cs1 = (case entries_at (ce_name entry) cs of
                    None \<Rightarrow> set_chain (toLower (ce_name entry)) [dummyEntry] cs
                  | Some _ \<Rightarrow> cs);
           cs2 = emplaceNoLock e [] (cs1\<lparr>cs_brk := Suc (Suc (cs_brk cs))\<rparr>)
       in case entries_at (ce_name entry) cs1 of
            Some (prev # _) \<Rightarrow> Inr (cs2, ce_addr prev)
          | _ \<Rightarrow> Inl NullPointer))"

definition dropEntryNoLock ::
  "Transaction \<Rightarrow> string \<Rightarrow> oid_t \<Rightarrow> ('d, 'x) CatalogSet \<Rightarrow> (('d, 'x) CatalogSet \<times> nat) result" where
  "dropEntryNoLock transaction name oid cs =
     rbind (validateExistNoLock transaction name cs) (\<lambda>_.
       let tombstone = (DummyCatalogEntry (cs_brk cs) name oid)\<lparr>ce_timestamp := tx_ID transaction\<rparr>
       in case entries_at name cs of
            Some (prev # _) \<Rightarrow> Inr (emplaceNoLock tombstone [] (cs\<lparr>cs_brk := Suc (cs_brk cs)\<rparr>), ce_addr prev)
          | _ \<Rightarrow> Inl NullPointer)"

text \<open>Entries by address, and the newer neighbour of an entry.\<close>

definition locate :: "nat \<Rightarrow> ('d, 'x) CatalogSet \<Rightarrow> (string \<times> ('d, 'x) CatalogEntry list) option" where
  "locate a cs = find (\<lambda>(k, chain). a \<in> ce_addr ` set chain) (entries cs)"

fun getNext :: "nat \<Rightarrow> ('d, 'x) CatalogEntry list \<Rightarrow> ('d, 'x) CatalogEntry option" where
  "getNext a (newer # entry # older) = (if ce_addr entry = a then Some newer else getNext a (entry # older))"
| "getNext a _ = None"

definition logEntryForTrx ::
  "nat \<Rightarrow> nat \<Rightarrow> bool \<Rightarrow> ('d, 'x) CatalogSet \<Rightarrow> ('d, 'x) log_state \<Rightarrow> unit result \<times> ('d, 'x) log_state" where
  "logEntryForTrx addr a skipLoggingToWAL cs ls =
     (if shouldAppendToUndoBuffer (fst ls)
      then case locate a cs of
             None \<Rightarrow> (Inl DanglingPointer, ls)
           | Some (_, chain) \<Rightarrow>
               (case find (\<lambda>e. ce_addr e = a) chain of
                  None \<Rightarrow> (Inl DanglingPointer, ls)
                | Some entry \<Rightarrow> pushCatalogEntry addr entry (getNext a chain) skipLoggingToWAL ls)
      else (Inr (), ls))"

type_synonym ('d, 'x) cat_state = "('d, 'x) CatalogSet \<times> ('d, 'x) log_state"

definition createEntry :: "nat \<Rightarrow> ('d, 'x) CatalogEntry \<Rightarrow> ('d, 'x) cat_state \<Rightarrow> oid_t result \<times> ('d, 'x) cat_state" where
  "createEntry addr entry s =
     (let (cs, ls) = s;
          oid = nextOID cs;
          cs1 = cs\<lparr>nextOID := oid + 1\<rparr>
      in case createEntryNoLock (fst ls) (entry\<lparr>ce_oid := oid\<rparr>) cs1 of
           Inl e \<Rightarrow> (Inl e, (cs1, ls))
         | Inr (cs2, a) \<Rightarrow>
             (case logEntryForTrx addr a False cs2 ls of
                (Inl e, ls) \<Rightarrow> (Inl e, (cs2, ls))
              | (Inr _, ls) \<Rightarrow> (Inr oid, (cs2, ls))))"

definition dropEntry :: "nat \<Rightarrow> string \<Rightarrow> oid_t \<Rightarrow> ('d, 'x) cat_state \<Rightarrow> unit result \<times> ('d, 'x) cat_state" where
  "dropEntry addr name oid s =
     (let (cs, ls) = s
      in case dropEntryNoLock (fst ls) name oid cs of
           Inl e \<Rightarrow> (Inl e, (cs, ls))
         | Inr (cs1, a) \<Rightarrow> (let (r, ls) = logEntryForTrx addr a False cs1 ls in (r, (cs1, ls))))"

definition setAlterInfo :: "nat \<Rightarrow> 'd BoundAlterInfo \<Rightarrow> ('d, 'x) CatalogSet \<Rightarrow> ('d, 'x) CatalogSet" where
  "setAlterInfo a alterInfo cs =
     cs\<lparr>entries := map (\<lambda>(k, chain). (k, map (\<lambda>e. if ce_addr e = a then e\<lparr>ce_alterInfo := Some alterInfo\<rparr> else e) chain)) (entries cs)\<rparr>"

definition alterEntry :: "nat \<Rightarrow> 'd BoundAlterInfo \<Rightarrow> ('d, 'x) cat_state \<Rightarrow> unit result \<times> ('d, 'x) cat_state" where
  "alterEntry addr alterInfo s =
     (let (cs, ls) = s; transaction = fst ls
      in case rbind (validateExistNoLock transaction (ai_tableName alterInfo) cs) (\<lambda>_.
                rbind (getEntryNoLock transaction (ai_tableName alterInfo) cs) (\<lambda>entry.
                rbind (TableCatalogEntry_alter (cs_brk cs) alterInfo entry) (\<lambda>newEntry. Inr (entry, newEntry)))) of
           Inl e \<Rightarrow> (Inl e, s)
         | Inr (entry, newEntry) \<Rightarrow>
             let newEntry = newEntry\<lparr>ce_timestamp := tx_ID transaction, ce_oid := ce_oid entry\<rparr>;
                 cs = cs\<lparr>cs_brk := Suc (cs_brk cs)\<rparr>
             in (case ai_extraInfo alterInfo of
                   RENAME_TABLE _ \<Rightarrow>
                     (case dropEntryNoLock transaction (ai_tableName alterInfo) (ce_oid entry) cs of
                        Inl e \<Rightarrow> (Inl e, (cs, ls))
                      | Inr (cs1, _) \<Rightarrow>
                          (case createEntryNoLock transaction newEntry cs1 of
                             Inl e \<Rightarrow> (Inl e, (cs1, ls))
                           | Inr (cs2, created) \<Rightarrow>
                               let cs3 = setAlterInfo (ce_addr entry) alterInfo cs2
                               in (case logEntryForTrx addr (ce_addr entry) False cs3 ls of
                                     (Inl e, ls) \<Rightarrow> (Inl e, (cs3, ls))
                                   | (Inr _, ls) \<Rightarrow>
                                       let (r, ls) = logEntryForTrx addr created True cs3 ls in (r, (cs3, ls)))))
                 | _ \<Rightarrow>
                     let cs3 = setAlterInfo (ce_addr entry) alterInfo (emplaceNoLock newEntry [] cs);
                         (r, ls) = logEntryForTrx addr (ce_addr entry) False cs3 ls
                     in (r, (cs3, ls))))"

subsection \<open>Reading all entries\<close>

definition getEntries :: "Transaction \<Rightarrow> ('d, 'x) CatalogSet \<Rightarrow> (string \<times> ('d, 'x) CatalogEntry) list result" where
  "getEntries transaction cs =
     foldM (\<lambda>(name, chain) result.
       case traverseVersionChainsForTransactionNoLock transaction chain of
         None \<Rightarrow> Inl NullPointer
       | Some currentEntry \<Rightarrow> Inr (if ce_deleted currentEntry then result else result @ [(name, currentEntry)]))
       (entries cs) []"

definition iterateEntriesOfType ::
  "Transaction \<Rightarrow> CatalogEntryType \<Rightarrow> (('d, 'x) CatalogEntry \<Rightarrow> 's \<Rightarrow> 's result) \<Rightarrow> ('d, 'x) CatalogSet \<Rightarrow> 's \<Rightarrow> 's result" where
  "iterateEntriesOfType transaction type func cs =
     foldM (\<lambda>(_, chain) s.
       case chain of
         [] \<Rightarrow> Inl NullPointer
       | entry # _ \<Rightarrow>
           if ce_type entry \<noteq> DUMMY_ENTRY \<and> ce_type entry \<noteq> type then Inr s
           else
             (case traverseVersionChainsForTransactionNoLock transaction chain of
                None \<Rightarrow> Inl NullPointer
              | Some currentEntry \<Rightarrow>
                  if ce_type currentEntry \<noteq> type \<or> ce_deleted currentEntry then Inr s else func currentEntry s))
       (entries cs)"

fun find_oid ::
  "Transaction \<Rightarrow> oid_t \<Rightarrow> (string \<times> ('d, 'x) CatalogEntry list) list \<Rightarrow> ('d, 'x) CatalogEntry option result" where
  "find_oid transaction oid [] = Inr None"
| "find_oid transaction oid ((_, chain) # rest) =
     (case chain of
        [] \<Rightarrow> Inl NullPointer
      | entry # _ \<Rightarrow>
          if ce_oid entry \<noteq> oid then find_oid transaction oid rest
          else
            (case traverseVersionChainsForTransactionNoLock transaction chain of
               None \<Rightarrow> Inl NullPointer
             | Some currentEntry \<Rightarrow> if ce_deleted currentEntry then find_oid transaction oid rest else Inr (Some currentEntry)))"

definition getEntryOfOID :: "Transaction \<Rightarrow> oid_t \<Rightarrow> ('d, 'x) CatalogSet \<Rightarrow> ('d, 'x) CatalogEntry option result" where
  "getEntryOfOID transaction oid cs = find_oid transaction oid (entries cs)"

text \<open>The entries that a checkpoint writes, and the set that is made of them when the database is opened again.\<close>

definition isFunctionEntry :: "CatalogEntryType \<Rightarrow> bool" where
  "isFunctionEntry type \<longleftrightarrow> type = SCALAR_FUNCTION_ENTRY \<or> type = REWRITE_FUNCTION_ENTRY \<or> type = AGGREGATE_FUNCTION_ENTRY \<or>
     type = COPY_FUNCTION_ENTRY \<or> type = TABLE_FUNCTION_ENTRY \<or> type = GDS_FUNCTION_ENTRY"

definition entriesToSerialize :: "('d, 'x) CatalogSet \<Rightarrow> ('d, 'x) CatalogEntry list" where
  "entriesToSerialize cs =
     concat (map (\<lambda>(_, chain).
       case chain of
         [] \<Rightarrow> []
       | entry # _ \<Rightarrow>
           if isFunctionEntry (ce_type entry) then []
           else
             (case getCommittedEntryNoLock chain of
                None \<Rightarrow> []
              | Some committedEntry \<Rightarrow> if ce_deleted committedEntry then [] else [committedEntry])) (entries cs))"

definition CatalogEntry_reload :: "nat \<Rightarrow> ('d, 'x) CatalogEntry \<Rightarrow> ('d, 'x) CatalogEntry" where
  "CatalogEntry_reload addr e =
     e\<lparr>ce_addr := addr, ce_timestamp := DUMMY_START_TIMESTAMP, ce_deleted := False, ce_alterInfo := None\<rparr>"

definition CatalogSet_reload :: "oid_t \<Rightarrow> ('d, 'x) CatalogEntry list \<Rightarrow> ('d, 'x) CatalogSet" where
  "CatalogSet_reload oid es =
     foldl (\<lambda>cs e. emplaceNoLock (CatalogEntry_reload (cs_brk cs) e) [] (cs\<lparr>cs_brk := Suc (cs_brk cs)\<rparr>))
       (new_CatalogSet\<lparr>nextOID := oid\<rparr>) es"

subsection \<open>Commit and rollback\<close>

definition commitCatalogEntryRecord :: "transaction_t \<Rightarrow> nat \<Rightarrow> ('d, 'x) CatalogSet \<Rightarrow> ('d, 'x) CatalogSet result" where
  "commitCatalogEntryRecord commitTS a cs =
     (case locate a cs of
        None \<Rightarrow> Inl DanglingPointer
      | Some (k, chain) \<Rightarrow>
          (case getNext a chain of
             None \<Rightarrow> Inl NullPointer
           | Some n \<Rightarrow>
               Inr (set_chain k (map (\<lambda>e. if ce_addr e = ce_addr n then e\<lparr>ce_timestamp := commitTS\<rparr> else e) chain) cs)))"

text \<open>The alteration of the entry that is taken out is reset as well; the entry is destroyed, so that is left out.\<close>

definition rollbackCatalogEntryRecord :: "nat \<Rightarrow> ('d, 'x) CatalogSet \<Rightarrow> ('d, 'x) CatalogSet result" where
  "rollbackCatalogEntryRecord a cs =
     (case locate a cs of
        None \<Rightarrow> Inl DanglingPointer
      | Some (k, chain) \<Rightarrow>
          (case getNext a chain of
             None \<Rightarrow> Inl NullPointer
           | Some entryToRollback \<Rightarrow>
               if ce_addr (hd chain) \<noteq> ce_addr entryToRollback
               then Inr (set_chain k (filter (\<lambda>e. ce_addr e \<noteq> ce_addr entryToRollback) chain) cs)
               else
                 (case tl chain of
                    [] \<Rightarrow> Inl NullPointer
                  | catalogEntry # prev \<Rightarrow>
                      Inr (emplaceNoLock catalogEntry prev (eraseNoLock (ce_name catalogEntry) cs)))))"

end
