(* ===== verification/Catalog_Chains.thy ===== *)
theory Catalog_Chains
  imports Catalog_Set
begin

text \<open>
  Version chains of catalog sets. A set is well formed when every name has one chain of entries of that name that ends in an
  entry every transaction sees; every successful change puts one entry in front of a chain, in which rolling its undo record
  back takes it out again. What a transaction sees of a set is a map from lower-case names to the contents of entries.
\<close>

subsection \<open>Well-formed sets\<close>

abbreviation chains :: "('d, 'x) CatalogSet \<Rightarrow> string \<rightharpoonup> ('d, 'x) CatalogEntry list" where
  "chains cs \<equiv> map_of (entries cs)"

definition chain_wf :: "nat \<Rightarrow> string \<Rightarrow> ('d, 'x) CatalogEntry list \<Rightarrow> bool" where
  "chain_wf brk k ch \<longleftrightarrow> ch \<noteq> [] \<and> (\<forall>e \<in> set ch. toLower (ce_name e) = k \<and> ce_addr e < brk) \<and> distinct (map ce_addr ch) \<and>
     ce_timestamp (last ch) = 0"

definition cs_wf :: "('d, 'x) CatalogSet \<Rightarrow> bool" where
  "cs_wf cs \<longleftrightarrow> distinct (map fst (entries cs)) \<and> (\<forall>k ch. chains cs k = Some ch \<longrightarrow> chain_wf (cs_brk cs) k ch) \<and>
     (\<forall>k ch k' ch' a. chains cs k = Some ch \<and> chains cs k' = Some ch' \<and> a \<in> ce_addr ` set ch \<and> a \<in> ce_addr ` set ch' \<longrightarrow> k = k')"

lemma cs_wfD:
  assumes "cs_wf cs"
  shows "distinct (map fst (entries cs))" "chains cs k = Some ch \<Longrightarrow> chain_wf (cs_brk cs) k ch"
    "chains cs k = Some ch \<Longrightarrow> chains cs k' = Some ch' \<Longrightarrow> a \<in> ce_addr ` set ch \<Longrightarrow> a \<in> ce_addr ` set ch' \<Longrightarrow> k = k'"
  using assms unfolding cs_wf_def by blast+

lemma chain_wf_mono: "chain_wf b k ch \<Longrightarrow> b \<le> b' \<Longrightarrow> chain_wf b' k ch"
  by (fastforce simp: chain_wf_def)

lemma chains_set [simp]: "chains (set_chain k ch cs) = (chains cs)(k \<mapsto> ch)" "cs_brk (set_chain k ch cs) = cs_brk cs"
  by (simp_all add: set_chain_def update_conv')

lemma chains_erase [simp]: "chains (eraseNoLock name cs) = (chains cs)(toLower name := None)" "cs_brk (eraseNoLock name cs) = cs_brk cs"
  by (simp_all add: eraseNoLock_def delete_conv')

lemma cs_wf_set:
  assumes wf: "cs_wf cs" and ch: "chain_wf b k ch" and b: "cs_brk cs \<le> b"
    and new: "\<And>a. a \<in> ce_addr ` set ch \<Longrightarrow> cs_brk cs \<le> a \<or> (\<exists>old. chains cs k = Some old \<and> a \<in> ce_addr ` set old)"
    and cs': "chains cs' = (chains cs)(k \<mapsto> ch)" "distinct (map fst (entries cs'))" "cs_brk cs' = b"
  shows "cs_wf cs'"
proof -
  have other: "a \<notin> ce_addr ` set ch'" if "chains cs k' = Some ch'" "k' \<noteq> k" "a \<in> ce_addr ` set ch" for k' ch' a
    using new [OF that(3)] cs_wfD(2,3) [OF wf] that by (fastforce simp: chain_wf_def)
  show ?thesis
    unfolding cs_wf_def cs'
  proof (intro conjI allI impI)
    fix k' ch' assume "((chains cs)(k \<mapsto> ch)) k' = Some ch'"
    then show "chain_wf b k' ch'"
      using ch chain_wf_mono [OF cs_wfD(2) [OF wf] b] by (cases "k' = k") simp_all
  next
    fix k1 ch1 k2 ch2 a
    assume "((chains cs)(k \<mapsto> ch)) k1 = Some ch1 \<and> ((chains cs)(k \<mapsto> ch)) k2 = Some ch2 \<and>
      a \<in> ce_addr ` set ch1 \<and> a \<in> ce_addr ` set ch2"
    then have h: "((chains cs)(k \<mapsto> ch)) k1 = Some ch1" "((chains cs)(k \<mapsto> ch)) k2 = Some ch2"
      "a \<in> ce_addr ` set ch1" "a \<in> ce_addr ` set ch2" by simp_all
    show "k1 = k2"
    proof (rule ccontr)
      assume "k1 \<noteq> k2"
      then consider "k1 = k" "k2 \<noteq> k" | "k2 = k" "k1 \<noteq> k" | "k1 \<noteq> k" "k2 \<noteq> k" by blast
      then show False
        using h \<open>k1 \<noteq> k2\<close> other [of k1 ch1 a] other [of k2 ch2 a] cs_wfD(3) [OF wf, of k1 ch1 k2 ch2 a] by cases simp_all
    qed
  qed (use cs'(2) in simp)
qed

lemma locate_chain:
  assumes wf: "cs_wf cs" and ch: "chains cs k = Some ch" "a \<in> ce_addr ` set ch"
  shows "locate a cs = Some (k, ch)"
proof -
  have "(k, ch) \<in> set (entries cs)" using ch(1) by (rule map_of_SomeD)
  then have "locate a cs \<noteq> None" using ch(2) by (auto simp: locate_def find_None_iff)
  then obtain k' ch' where l: "locate a cs = Some (k', ch')" by auto
  have "(k', ch') \<in> set (entries cs)" "a \<in> ce_addr ` set ch'"
    using l unfolding locate_def find_Some_iff by (metis nth_mem, metis (mono_tags, lifting) case_prodD)
  moreover from this have "chains cs k' = Some ch'" using cs_wfD(1) [OF wf] by simp
  ultimately have "k' = k" "ch' = ch" using cs_wfD(3) [OF wf _ ch(1)] ch by auto
  then show ?thesis using l by simp
qed

subsection \<open>Growing and shrinking chains\<close>

text \<open>The alterations stored with entries are for the log only; a chain with only a dummy stands for no chain.\<close>

definition strip_entry :: "('d, 'x) CatalogEntry \<Rightarrow> ('d, 'x) CatalogEntry" where
  "strip_entry e = e\<lparr>ce_alterInfo := None\<rparr>"

lemma strip_entry_simps [simp]:
  "ce_addr (strip_entry e) = ce_addr e" "ce_timestamp (strip_entry e) = ce_timestamp e" "ce_deleted (strip_entry e) = ce_deleted e"
  "ce_name (strip_entry e) = ce_name e" "strip_entry (strip_entry e) = strip_entry e" "strip_entry (e\<lparr>ce_alterInfo := x\<rparr>) = strip_entry e"
  by (simp_all add: strip_entry_def)

definition norm :: "('d, 'x) CatalogEntry list \<Rightarrow> ('d, 'x) CatalogEntry list" where
  "norm ch = (case map strip_entry ch of [d] \<Rightarrow> if ce_deleted d \<and> ce_timestamp d = 0 then [] else [d] | ch' \<Rightarrow> ch')"

definition normed :: "('d, 'x) CatalogSet \<Rightarrow> string \<Rightarrow> ('d, 'x) CatalogEntry list" where
  "normed cs k = (case chains cs k of None \<Rightarrow> [] | Some ch \<Rightarrow> norm ch)"

text \<open>A change of the transaction: an entry is put in front of the chain of a name, which gets a dummy if it is new.\<close>

definition grown ::
  "Transaction \<Rightarrow> string \<Rightarrow> ('d, 'x) CatalogEntry \<Rightarrow> nat \<Rightarrow> ('d, 'x) CatalogSet \<Rightarrow> ('d, 'x) CatalogSet \<Rightarrow> bool" where
  "grown t k e a cs cs' \<longleftrightarrow> cs_wf cs' \<and> ce_timestamp e = tx_ID t \<and>
     (\<exists>base rest. (chains cs k = Some (base # rest) \<or>
         chains cs k = None \<and> rest = [] \<and> ce_deleted base \<and> ce_timestamp base = 0 \<and> cs_brk cs \<le> ce_addr base) \<and> a = ce_addr base \<and>
       (\<forall>j. map_option (map strip_entry) (chains cs' j) =
          (if j = k then Some (map strip_entry (e # base # rest)) else map_option (map strip_entry) (chains cs j))))"

lemma grownE:
  assumes "grown t k e a cs cs'"
  obtains base rest where "chains cs k = Some (base # rest) \<or>
      chains cs k = None \<and> rest = [] \<and> ce_deleted base \<and> ce_timestamp base = 0 \<and> cs_brk cs \<le> ce_addr base" "a = ce_addr base"
    "\<And>j. map_option (map strip_entry) (chains cs' j) =
      (if j = k then Some (map strip_entry (e # base # rest)) else map_option (map strip_entry) (chains cs j))"
  using assms unfolding grown_def by blast

lemma norm_long [simp]: "norm (e # f # es) = map strip_entry (e # f # es)"
  by (simp add: norm_def)

lemma norm_strip: "map strip_entry ch = map strip_entry ch' \<Longrightarrow> norm ch = norm ch'"
  by (simp add: norm_def)

lemma normed_long:
  assumes "normed cs k = map strip_entry (e # f # es)"
  obtains e' f' es' where "chains cs k = Some (e' # f' # es')" "strip_entry e' = strip_entry e" "strip_entry f' = strip_entry f" "map strip_entry es' = map strip_entry es"
proof (cases "chains cs k")
  case (Some ch)
  with assms have n: "norm ch = map strip_entry (e # f # es)" by (simp add: normed_def)
  show ?thesis
  proof (cases ch)
    case (Cons e' ch')
    then show ?thesis
    proof (cases ch')
      case Nil
      then show ?thesis using n Cons by (simp add: norm_def split: if_splits)
    next
      case (Cons f' es')
      then show ?thesis using n Some \<open>ch = e' # ch'\<close> that [of e' f' es'] by simp
    qed
  qed (use n in \<open>simp add: norm_def\<close>)
qed (use assms in \<open>simp add: normed_def\<close>)

lemma grown_normed:
  assumes "grown t k e a cs cs'"
  shows "j \<noteq> k \<Longrightarrow> normed cs' j = normed cs j"
    "\<exists>base rest. a = ce_addr base \<and> normed cs' k = map strip_entry (e # base # rest) \<and> norm (base # rest) = normed cs k"
proof -
  obtain base rest where g: "chains cs k = Some (base # rest) \<or>
      chains cs k = None \<and> rest = [] \<and> ce_deleted base \<and> ce_timestamp base = 0 \<and> cs_brk cs \<le> ce_addr base" "a = ce_addr base"
    "\<And>j. map_option (map strip_entry) (chains cs' j) =
      (if j = k then Some (map strip_entry (e # base # rest)) else map_option (map strip_entry) (chains cs j))"
    using grownE [OF assms] by blast
  show "normed cs' j = normed cs j" if jk: "j \<noteq> k"
  proof (cases "chains cs j")
    case None
    then show ?thesis using g(3) [of j] jk by (simp add: normed_def)
  next
    case (Some ch)
    then obtain ch' where c: "chains cs' j = Some ch'" "map strip_entry ch' = map strip_entry ch" using g(3) [of j] jk by auto
    from norm_strip [OF c(2)] show ?thesis by (simp add: normed_def Some c(1))
  qed
  obtain ch where ch: "chains cs' k = Some ch" "map strip_entry ch = map strip_entry (e # base # rest)" using g(3) [of k] by auto
  then have "normed cs' k = map strip_entry (e # base # rest)" using norm_strip [OF ch(2)] by (simp add: normed_def)
  moreover have "norm (base # rest) = normed cs k" using g(1) by (auto simp: normed_def norm_def)
  ultimately show "\<exists>base rest. a = ce_addr base \<and> normed cs' k = map strip_entry (e # base # rest) \<and> norm (base # rest) = normed cs k"
    using g(2) by blast
qed

text \<open>Rolling the record of a change back undoes it, on every set that looks like the one after the change.\<close>

lemma rollback_grown:
  assumes g: "grown t k e a cs cs'" and x: "cs_wf x" "normed x = normed cs'"
  shows "\<exists>y. rollbackCatalogEntryRecord a x = Inr y \<and> cs_wf y \<and> normed y = normed cs"
proof -
  obtain base rest where n: "a = ce_addr base" "normed cs' k = map strip_entry (e # base # rest)" "norm (base # rest) = normed cs k"
    using grown_normed(2) [OF g] by blast
  obtain e' f' es' where ch: "chains x k = Some (e' # f' # es')" "strip_entry e' = strip_entry e" "strip_entry f' = strip_entry base" "map strip_entry es' = map strip_entry rest"
    using normed_long [of x k e base rest] x(2) n(2) by metis
  have a: "ce_addr f' = a" using ch(3) n(1) strip_entry_simps(1) [of f'] strip_entry_simps(1) [of base] by simp
  have w: "chain_wf (cs_brk x) k (e' # f' # es')" using cs_wfD(2) [OF x(1) ch(1)] .
  have nm: "toLower (ce_name f') = k" using w by (simp add: chain_wf_def)
  have loc: "locate a x = Some (k, e' # f' # es')" using locate_chain [OF x(1) ch(1)] a by auto
  let ?y = "emplaceNoLock f' es' (eraseNoLock (ce_name f') x)"
  have r: "rollbackCatalogEntryRecord a x = Inr ?y" using loc a by (simp add: rollbackCatalogEntryRecord_def)
  have c: "chains ?y = (chains x)(k \<mapsto> f' # es')" "cs_brk ?y = cs_brk x"
    by (simp_all add: emplaceNoLock_def entries_at_def nm)
  have "distinct (map fst (entries ?y))"
    using cs_wfD(1) [OF x(1)] by (simp add: emplaceNoLock_def eraseNoLock_def set_chain_def distinct_update distinct_delete)
  then have "cs_wf ?y"
    using w ch(1) by (intro cs_wf_set [OF x(1) _ _ _ c(1) _ c(2)]) (auto simp: chain_wf_def)
  moreover have "normed ?y j = normed cs j" for j
  proof (cases "j = k")
    case True
    have "map strip_entry (f' # es') = map strip_entry (base # rest)" using ch(3,4) by simp
    then show ?thesis using True n(3) norm_strip by (metis c(1) fun_upd_same normed_def option.simps(5))
  next
    case False
    then have "normed ?y j = normed x j" by (simp add: normed_def c(1))
    then show ?thesis using x(2) grown_normed(1) [OF g False] by simp
  qed
  ultimately show ?thesis using r by blast
qed

subsection \<open>What a transaction sees\<close>

text \<open>The contents of an entry, without its address and the bookkeeping of versions.\<close>

definition content :: "('d, 'x) CatalogEntry \<Rightarrow> ('d, 'x) CatalogEntry" where
  "content e = e\<lparr>ce_addr := 0, ce_timestamp := 0, ce_alterInfo := None\<rparr>"

definition see :: "Transaction \<Rightarrow> ('d, 'x) CatalogEntry list \<Rightarrow> ('d, 'x) CatalogEntry option" where
  "see r ch = (case traverseVersionChainsForTransactionNoLock r ch of
     None \<Rightarrow> None | Some e \<Rightarrow> if ce_deleted e then None else Some (content e))"

abbreviation chain :: "('d, 'x) CatalogSet \<Rightarrow> string \<Rightarrow> ('d, 'x) CatalogEntry list" where
  "chain cs k \<equiv> (case chains cs k of None \<Rightarrow> [] | Some ch \<Rightarrow> ch)"

definition view :: "Transaction \<Rightarrow> ('d, 'x) CatalogSet \<Rightarrow> string \<Rightarrow> ('d, 'x) CatalogEntry option" where
  "view r cs k = see r (chain cs k)"

lemma content_strip [simp]: "content (strip_entry e) = content e"
  by (simp add: content_def strip_entry_def)

lemma content_timestamp [simp]: "content (e\<lparr>ce_timestamp := x\<rparr>) = content e" "ce_deleted (content e) = ce_deleted e"
  by (simp_all add: content_def)

lemma see_Nil [simp]: "see r [] = None"
  by (simp add: see_def)

lemma see_Cons:
  "see r (e # es) = (if ce_timestamp e = tx_ID r \<or> ce_timestamp e \<le> tx_startTS r
     then (if ce_deleted e then None else Some (content e)) else see r es)"
  by (simp add: see_def)

lemma see_strip: "see r (map strip_entry ch) = see r ch"
  by (induction ch) (simp_all add: see_Cons)

lemma see_norm: "see r (norm ch) = see r ch"
proof -
  have "see r (norm ch) = see r (map strip_entry ch)"
    by (auto simp: norm_def see_Cons split: list.split)
  then show ?thesis by (simp add: see_strip)
qed

lemma view_normed: "view r cs k = see r (normed cs k)"
  by (simp add: view_def normed_def see_norm split: option.split)

lemma see_tx: "tx_ID r = tx_ID r' \<Longrightarrow> tx_startTS r = tx_startTS r' \<Longrightarrow> see r ch = see r' ch"
  by (induction ch) (simp_all add: see_Cons)

lemma traverse_found:
  assumes "chain_wf b k ch"
  shows "traverseVersionChainsForTransactionNoLock r ch \<noteq> None"
proof -
  have "ch \<noteq> [] \<Longrightarrow> ce_timestamp (last ch) = 0 \<Longrightarrow> traverseVersionChainsForTransactionNoLock r ch \<noteq> None"
    by (induction ch) (auto split: if_splits)
  then show ?thesis using assms by (simp add: chain_wf_def)
qed

lemma contains_view:
  assumes "cs_wf cs"
  shows "containsEntryNoLock t name cs = Inr (view t cs (toLower name) \<noteq> None)"
proof (cases "chains cs (toLower name)")
  case None
  then show ?thesis by (simp add: containsEntryNoLock_def entries_at_def view_def)
next
  case (Some ch)
  obtain e where "traverseVersionChainsForTransactionNoLock t ch = Some e"
    using traverse_found [OF cs_wfD(2) [OF assms Some]] by blast
  then show ?thesis using Some by (simp add: containsEntryNoLock_def entries_at_def view_def see_def)
qed

text \<open>Looking up a name gives the entry the transaction sees, and throws when there is none.\<close>

lemma getEntry_view:
  assumes "cs_wf cs"
  shows "case view t cs (toLower name) of
      None \<Rightarrow> getEntryNoLock t name cs = Inl (CatalogException (name @ '' does not exist in catalog.''))
    | Some c \<Rightarrow> \<exists>e. getEntryNoLock t name cs = Inr e \<and> content e = c"
proof (cases "chains cs (toLower name)")
  case None
  then have "view t cs (toLower name) = None" by (simp add: view_def)
  then show ?thesis by (simp add: getEntryNoLock_def validateExistNoLock_def contains_view [OF assms])
next
  case (Some ch)
  obtain e where "traverseVersionChainsForTransactionNoLock t ch = Some e"
    using traverse_found [OF cs_wfD(2) [OF assms Some]] by blast
  moreover from this have "view t cs (toLower name) = (if ce_deleted e then None else Some (content e))"
    using Some by (simp add: view_def see_def)
  ultimately show ?thesis
    using Some by (simp add: getEntryNoLock_def validateExistNoLock_def contains_view [OF assms] entries_at_def)
qed

subsection \<open>Changes of a transaction\<close>

text \<open>No other transaction has pending changes: the newest version of every name is of the transaction, or was committed before
  it started.\<close>

definition heads_ok :: "Transaction \<Rightarrow> ('d, 'x) CatalogSet \<Rightarrow> bool" where
  "heads_ok t cs \<longleftrightarrow> (\<forall>k e es. chains cs k = Some (e # es) \<longrightarrow> ce_timestamp e = tx_ID t \<or> ce_timestamp e \<le> tx_startTS t)"

definition entry_writer :: "Transaction \<Rightarrow> bool" where
  "entry_writer t \<longleftrightarrow> tx_startTS t < START_TRANSACTION_ID \<and> START_TRANSACTION_ID \<le> tx_ID t \<and> shouldAppendToUndoBuffer t"

lemma heads_view:
  assumes "heads_ok t cs" "chains cs k = Some (e # es)"
  shows "view t cs k = (if ce_deleted e then None else Some (content e))"
    "traverseVersionChainsForTransactionNoLock t (e # es) = Some e"
  using assms by (auto simp: heads_ok_def view_def see_Cons)

lemma heads_no_conflict:
  assumes "heads_ok t cs" "entry_writer t" "chains cs k = Some (e # es)"
  shows "\<not> checkWWConflict t e"
proof -
  have "ce_timestamp e = tx_ID t \<or> ce_timestamp e \<le> tx_startTS t" using assms(1,3) by (auto simp: heads_ok_def)
  moreover have "tx_startTS t < START_TRANSACTION_ID" "START_TRANSACTION_ID \<le> tx_ID t" using assms(2) by (simp_all add: entry_writer_def)
  ultimately show ?thesis by (auto simp: checkWWConflict_def)
qed

lemma chain_nonempty: "cs_wf cs \<Longrightarrow> chains cs k = Some ch \<Longrightarrow> \<exists>e es. ch = e # es"
  using cs_wfD(2) by (cases ch) (fastforce simp: chain_wf_def)+

text \<open>Putting an entry with a fresh address in front of a chain.\<close>

lemma emplace_grown:
  assumes wf: "cs_wf cs" and e: "ce_timestamp e = tx_ID t" "cs_brk cs \<le> ce_addr e" "ce_addr e < cs_brk cs'"
    and ch: "chains cs (toLower (ce_name e)) = Some (base # rest)"
    and cs': "chains cs' = chains cs" "distinct (map fst (entries cs'))" "cs_brk cs \<le> cs_brk cs'"
  shows "grown t (toLower (ce_name e)) e (ce_addr base) cs (emplaceNoLock e [] cs')"
proof -
  let ?k = "toLower (ce_name e)" and ?x = "emplaceNoLock e [] cs'"
  have c: "chains ?x = (chains cs)(?k \<mapsto> e # base # rest)" "cs_brk ?x = cs_brk cs'"
    by (simp_all add: emplaceNoLock_def entries_at_def cs'(1) ch)
  have d: "distinct (map fst (entries ?x))" using cs'(2) by (simp add: emplaceNoLock_def set_chain_def distinct_update)
  have w: "chain_wf (cs_brk cs) ?k (base # rest)" by (rule cs_wfD(2) [OF wf ch])
  have "chain_wf (cs_brk cs') ?k (e # base # rest)"
    using w e(2,3) cs'(3) by (fastforce simp: chain_wf_def)
  then have "cs_wf ?x"
    by (rule cs_wf_set [OF wf _ cs'(3) _ c(1) d c(2)]) (use e(2) ch in auto)
  then show ?thesis using e(1) ch by (simp add: grown_def c(1))
qed

text \<open>The first entry of a name goes in front of a dummy.\<close>

lemma emplace_grown_new:
  assumes wf: "cs_wf cs" and e: "ce_timestamp e = tx_ID t" "cs_brk cs \<le> ce_addr e" "ce_addr e < cs_brk cs'"
    and d: "ce_deleted d" "ce_timestamp d = 0" "cs_brk cs \<le> ce_addr d" "ce_addr d < cs_brk cs'" "ce_addr d \<noteq> ce_addr e"
      "toLower (ce_name d) = toLower (ce_name e)"
    and ch: "chains cs (toLower (ce_name e)) = None"
    and cs': "chains cs' = (chains cs)(toLower (ce_name e) \<mapsto> [d])" "distinct (map fst (entries cs'))" "cs_brk cs \<le> cs_brk cs'"
  shows "grown t (toLower (ce_name e)) e (ce_addr d) cs (emplaceNoLock e [] cs')"
proof -
  let ?k = "toLower (ce_name e)" and ?x = "emplaceNoLock e [] cs'"
  have c: "chains ?x = (chains cs)(?k \<mapsto> [e, d])" "cs_brk ?x = cs_brk cs'"
    by (simp_all add: emplaceNoLock_def entries_at_def cs'(1))
  have di: "distinct (map fst (entries ?x))" using cs'(2) by (simp add: emplaceNoLock_def set_chain_def distinct_update)
  have "chain_wf (cs_brk cs') ?k [e, d]" using e d by (simp add: chain_wf_def)
  then have "cs_wf ?x" by (rule cs_wf_set [OF wf _ cs'(3) _ c(1) di c(2)]) (use e(2) d(3) in auto)
  then show ?thesis using e(1) ch d by (auto simp: grown_def c(1))
qed

lemma create_grown:
  assumes wf: "cs_wf cs" and t: "heads_ok t cs" "entry_writer t"
  shows "view t cs (toLower (ce_name e)) \<noteq> None \<Longrightarrow>
      createEntryNoLock t e cs = Inl (CatalogException (ce_name e @ '' already exists in catalog.''))"
    "view t cs (toLower (ce_name e)) = None \<Longrightarrow> \<exists>cs' a. createEntryNoLock t e cs = Inr (cs', a) \<and>
      grown t (toLower (ce_name e)) (e\<lparr>ce_addr := cs_brk cs, ce_timestamp := tx_ID t\<rparr>) a cs cs'"
proof -
  let ?k = "toLower (ce_name e)" and ?e = "e\<lparr>ce_addr := cs_brk cs, ce_timestamp := tx_ID t\<rparr>"
  show "createEntryNoLock t e cs = Inl (CatalogException (ce_name e @ '' already exists in catalog.''))" if "view t cs ?k \<noteq> None"
    using that by (simp add: createEntryNoLock_def validateNotExistNoLock_def contains_view [OF wf])
  assume none: "view t cs ?k = None"
  then have val: "validateNotExistNoLock t (ce_name e) cs = Inr ()"
    by (simp add: validateNotExistNoLock_def contains_view [OF wf])
  let ?d = "DummyCatalogEntry (Suc (cs_brk cs)) (ce_name e) (ce_oid e) :: ('a, 'b) CatalogEntry"
  have dist: "distinct (map fst (entries cs))" by (rule cs_wfD(1) [OF wf])
  show "\<exists>cs' a. createEntryNoLock t e cs = Inr (cs', a) \<and> grown t ?k ?e a cs cs'"
  proof (cases "chains cs ?k")
    case None
    let ?cs = "set_chain ?k [?d] cs\<lparr>cs_brk := Suc (Suc (cs_brk cs))\<rparr>"
    have "grown t (toLower (ce_name ?e)) ?e (ce_addr ?d) cs (emplaceNoLock ?e [] ?cs)"
      by (rule emplace_grown_new [OF wf]) (use None dist in \<open>simp_all add: DummyCatalogEntry_def set_chain_def update_conv' distinct_update\<close>)
    moreover have "createEntryNoLock t e cs = Inr (emplaceNoLock ?e [] ?cs, ce_addr ?d)"
      using val None by (simp add: createEntryNoLock_def Let_def entries_at_def)
    ultimately show ?thesis by auto
  next
    case (Some ch)
    obtain base rest where ch: "ch = base # rest" using chain_nonempty [OF wf Some] by blast
    note hd = Some [unfolded ch]
    have del: "ce_deleted base" using heads_view(1) [OF t(1) hd] none by (simp split: if_splits)
    let ?cs = "cs\<lparr>cs_brk := Suc (Suc (cs_brk cs))\<rparr>"
    have "grown t (toLower (ce_name ?e)) ?e (ce_addr base) cs (emplaceNoLock ?e [] ?cs)"
      by (rule emplace_grown [OF wf]) (use hd dist in simp_all)
    moreover have "createEntryNoLock t e cs = Inr (emplaceNoLock ?e [] ?cs, ce_addr base)"
      using val hd del heads_no_conflict [OF t hd] by (simp add: createEntryNoLock_def Let_def entries_at_def)
    ultimately show ?thesis by auto
  qed
qed

lemma drop_grown:
  assumes wf: "cs_wf cs" and t: "heads_ok t cs"
  shows "view t cs (toLower name) = None \<Longrightarrow>
      dropEntryNoLock t name oid cs = Inl (CatalogException (name @ '' does not exist in catalog.''))"
    "view t cs (toLower name) \<noteq> None \<Longrightarrow> \<exists>cs' e es. chains cs (toLower name) = Some (e # es) \<and>
      dropEntryNoLock t name oid cs = Inr (cs', ce_addr e) \<and>
      grown t (toLower name) ((DummyCatalogEntry (cs_brk cs) name oid)\<lparr>ce_timestamp := tx_ID t\<rparr>) (ce_addr e) cs cs'"
proof -
  show "dropEntryNoLock t name oid cs = Inl (CatalogException (name @ '' does not exist in catalog.''))" if "view t cs (toLower name) = None"
    using that by (simp add: dropEntryNoLock_def validateExistNoLock_def contains_view [OF wf])
  assume some: "view t cs (toLower name) \<noteq> None"
  then obtain ch where ch: "chains cs (toLower name) = Some ch" by (cases "chains cs (toLower name)") (simp_all add: view_def)
  obtain e es where e: "ch = e # es" using chain_nonempty [OF wf ch] by blast
  let ?d = "(DummyCatalogEntry (cs_brk cs) name oid)\<lparr>ce_timestamp := tx_ID t\<rparr> :: ('a, 'b) CatalogEntry"
  let ?cs = "cs\<lparr>cs_brk := Suc (cs_brk cs)\<rparr>"
  have nm: "toLower (ce_name ?d) = toLower name" by (simp add: DummyCatalogEntry_def)
  have "grown t (toLower (ce_name ?d)) ?d (ce_addr e) cs (emplaceNoLock ?d [] ?cs)"
    by (rule emplace_grown [OF wf]) (use ch e nm cs_wfD(1) [OF wf] in \<open>simp_all add: DummyCatalogEntry_def\<close>)
  then show "\<exists>cs' e es. chains cs (toLower name) = Some (e # es) \<and> dropEntryNoLock t name oid cs = Inr (cs', ce_addr e) \<and>
      grown t (toLower name) ?d (ce_addr e) cs cs'"
    using some ch e unfolding nm
    by (auto simp: dropEntryNoLock_def validateExistNoLock_def contains_view [OF wf] entries_at_def Let_def)
qed

end
