(* ===== verification/Catalog_Runs.thy ===== *)
theory Catalog_Runs
  imports Catalog_Chains
begin

text \<open>
  Runs of creations, drops and alterations of one transaction on a catalog set, with the undo records they log. The invariant
  of a run says what the records undo, which entries they are about, and what the set is without the entries of the
  transaction.
\<close>

subsection \<open>Logged changes\<close>

definition addrs :: "('d, 'x) CatalogSet \<Rightarrow> nat set" where
  "addrs cs = {a. \<exists>k ch. chains cs k = Some ch \<and> a \<in> ce_addr ` set ch}"

definition same_chains :: "('d, 'x) CatalogSet \<Rightarrow> ('d, 'x) CatalogSet \<Rightarrow> bool" where
  "same_chains cs cs' \<longleftrightarrow> cs_wf cs' \<and> (\<forall>j. map_option (map strip_entry) (chains cs' j) = map_option (map strip_entry) (chains cs j))"

lemma addr_strip: "map strip_entry ch = map strip_entry ch' \<Longrightarrow> map ce_addr ch = map ce_addr ch'"
proof -
  assume "map strip_entry ch = map strip_entry ch'"
  then have "map ce_addr (map strip_entry ch) = map ce_addr (map strip_entry ch')" by simp
  then show ?thesis by (simp add: o_def)
qed

lemma timestamp_strip: "map strip_entry ch = map strip_entry ch' \<Longrightarrow> map ce_timestamp ch = map ce_timestamp ch'"
proof -
  assume "map strip_entry ch = map strip_entry ch'"
  then have "map ce_timestamp (map strip_entry ch) = map ce_timestamp (map strip_entry ch')" by simp
  then show ?thesis by (simp add: o_def)
qed

lemma same_chain_addr:
  assumes "map_option (map strip_entry) (chains cs' j) = Some (map strip_entry ch)" "a \<in> ce_addr ` set ch"
  shows "a \<in> addrs cs'"
proof -
  obtain ch' where ch': "chains cs' j = Some ch'" "map strip_entry ch' = map strip_entry ch" using assms(1) by auto
  from addr_strip [OF ch'(2)] have "ce_addr ` set ch' = ce_addr ` set ch" by (metis image_set)
  then show ?thesis using assms(2) ch'(1) unfolding addrs_def by blast
qed

lemma same_chains_addrs: "same_chains cs cs' \<Longrightarrow> addrs cs \<subseteq> addrs cs'"
proof
  fix a assume s: "same_chains cs cs'" and "a \<in> addrs cs"
  then obtain k ch where ch: "chains cs k = Some ch" "a \<in> ce_addr ` set ch" unfolding addrs_def by blast
  then have "map_option (map strip_entry) (chains cs' k) = Some (map strip_entry ch)" using s by (simp add: same_chains_def)
  from same_chain_addr [OF this ch(2)] show "a \<in> addrs cs'" .
qed

lemma grown_addrs:
  assumes "grown t k e a cs cs'"
  shows "a \<in> addrs cs'" "addrs cs \<subseteq> addrs cs'"
proof -
  obtain base rest where g: "chains cs k = Some (base # rest) \<or>
      chains cs k = None \<and> rest = [] \<and> ce_deleted base \<and> ce_timestamp base = 0 \<and> cs_brk cs \<le> ce_addr base" "a = ce_addr base"
    "\<And>j. map_option (map strip_entry) (chains cs' j) =
      (if j = k then Some (map strip_entry (e # base # rest)) else map_option (map strip_entry) (chains cs j))"
    using grownE [OF assms] by blast
  have k: "map_option (map strip_entry) (chains cs' k) = Some (map strip_entry (e # base # rest))" using g(3) [of k] by simp
  show "a \<in> addrs cs'" by (rule same_chain_addr [OF k]) (simp add: g(2))
  show "addrs cs \<subseteq> addrs cs'"
  proof
    fix b assume "b \<in> addrs cs"
    then obtain j ch where ch: "chains cs j = Some ch" "b \<in> ce_addr ` set ch" unfolding addrs_def by blast
    show "b \<in> addrs cs'"
    proof (cases "j = k")
      case True
      then have "ch = base # rest" using g(1) ch(1) by auto
      then show ?thesis using same_chain_addr [OF k, of b] ch(2) by auto
    next
      case False
      then have "map_option (map strip_entry) (chains cs' j) = Some (map strip_entry ch)" using g(3) [of j] ch(1) by simp
      from same_chain_addr [OF this ch(2)] show ?thesis .
    qed
  qed
qed

lemma log_record:
  assumes wf: "cs_wf cs" and a: "a \<in> addrs cs" and t: "shouldAppendToUndoBuffer t"
    and l: "logEntryForTrx addr a skip cs (t, wal) = (r, (t', wal'))"
  shows "undoRecords (undoBuffer t') = undoRecords (undoBuffer t) @ [CatalogEntryRecord addr a]"
    "tx_ID t' = tx_ID t" "tx_startTS t' = tx_startTS t" "tx_type t' = tx_type t"
proof -
  obtain k ch where ch: "chains cs k = Some ch" "a \<in> ce_addr ` set ch" using a unfolding addrs_def by blast
  obtain e where e: "find (\<lambda>e. ce_addr e = a) ch = Some e" "ce_addr e = a"
  proof (cases "find (\<lambda>e. ce_addr e = a) ch")
    case None
    then show ?thesis using ch(2) by (auto simp: find_None_iff)
  next
    case (Some e)
    then have "ce_addr e = a" by (auto simp: find_Some_iff)
    then show ?thesis using that Some by blast
  qed
  have "pushCatalogEntry addr e (getNext a ch) skip (t, wal) = (r, (t', wal'))"
    using l t e locate_chain [OF wf ch] by (simp add: logEntryForTrx_def)
  from pushCatalogEntry_undo [OF this] e(2)
  show "undoRecords (undoBuffer t') = undoRecords (undoBuffer t) @ [CatalogEntryRecord addr a]"
    "tx_ID t' = tx_ID t" "tx_startTS t' = tx_startTS t" "tx_type t' = tx_type t" by simp_all
qed

text \<open>A sequence of changes of one transaction with the addresses that their undo records hold.\<close>

inductive grows :: "Transaction \<Rightarrow> nat list \<Rightarrow> ('d, 'x) CatalogSet \<Rightarrow> ('d, 'x) CatalogSet \<Rightarrow> bool" for t where
  grows_same: "same_chains cs cs' \<Longrightarrow> grows t [] cs cs'"
| grows_step: "grows t as cs cs1 \<Longrightarrow> grown t k e a cs1 cs2 \<Longrightarrow> grows t (as @ [a]) cs cs2"

lemma same_chains_wf: "same_chains cs cs' \<Longrightarrow> cs_wf cs'"
  by (simp add: same_chains_def)

lemma grown_wf: "grown t k e a cs cs' \<Longrightarrow> cs_wf cs'" "grown t k e a cs cs' \<Longrightarrow> ce_timestamp e = tx_ID t"
  unfolding grown_def by blast+

lemma same_chains_fields:
  assumes "cs_wf cs" "cs_brk cs \<le> b"
  shows "same_chains cs (cs\<lparr>nextOID := n\<rparr>)" "same_chains cs (cs\<lparr>cs_brk := b\<rparr>)"
proof -
  show "same_chains cs (cs\<lparr>nextOID := n\<rparr>)" using assms(1) by (simp add: same_chains_def cs_wf_def)
  have "chain_wf b k ch" if "chains cs k = Some ch" for k ch
    using chain_wf_mono [OF cs_wfD(2) [OF assms(1) that] assms(2)] .
  then show "same_chains cs (cs\<lparr>cs_brk := b\<rparr>)" using assms(1) unfolding same_chains_def cs_wf_def by simp
qed

text \<open>Storing an alteration with an entry changes nothing that matters.\<close>

lemma setAlterInfo_same:
  assumes wf: "cs_wf cs"
  shows "same_chains cs (setAlterInfo a ai cs)"
proof -
  let ?f = "map (\<lambda>e. if ce_addr e = a then e\<lparr>ce_alterInfo := Some ai\<rparr> else e)"
  have m: "map_of (map (\<lambda>(k, ch). (k, ?f ch)) xs) k = map_option ?f (map_of xs k)" for xs and k :: string
    by (induction xs) auto
  then have c: "chains (setAlterInfo a ai cs) k = map_option ?f (chains cs k)" for k by (simp add: setAlterInfo_def)
  have s: "map strip_entry (?f ch) = map strip_entry ch" "map ce_addr (?f ch) = map ce_addr ch" for ch :: "('a, 'b) CatalogEntry list"
    by simp_all
  have sa: "ce_addr ` set (?f ch) = ce_addr ` set ch" for ch :: "('a, 'b) CatalogEntry list" using s(2) by (metis image_set)
  have w: "chain_wf b k (?f ch)" if "chain_wf b k ch" for b k and ch :: "('a, 'b) CatalogEntry list"
    using that s(2) [of ch] by (auto simp: chain_wf_def last_map simp del: map_map)
  have f: "map fst (entries (setAlterInfo a ai cs)) = map fst (entries cs)" "cs_brk (setAlterInfo a ai cs) = cs_brk cs"
    by (auto simp: setAlterInfo_def)
  have "cs_wf (setAlterInfo a ai cs)"
    unfolding cs_wf_def f c
  proof (intro conjI allI impI)
    show "distinct (map fst (entries cs))" by (rule cs_wfD(1) [OF wf])
    fix k ch assume "map_option ?f (chains cs k) = Some ch"
    then show "chain_wf (cs_brk cs) k ch" using w cs_wfD(2) [OF wf] by auto
  next
    fix k ch k' ch' b
    assume "map_option ?f (chains cs k) = Some ch \<and> map_option ?f (chains cs k') = Some ch' \<and> b \<in> ce_addr ` set ch \<and> b \<in> ce_addr ` set ch'"
    then obtain c1 c2 where "chains cs k = Some c1" "chains cs k' = Some c2" "b \<in> ce_addr ` set (?f c1)" "b \<in> ce_addr ` set (?f c2)"
      unfolding map_option_eq_Some by blast
    then show "k = k'" using cs_wfD(3) [OF wf] unfolding sa by blast
  qed
  moreover have "map_option (map strip_entry) (map_option ?f m) = map_option (map strip_entry) m" for m :: "('a, 'b) CatalogEntry list option"
    using s(1) by (cases m) simp_all
  ultimately show ?thesis unfolding same_chains_def c by blast
qed

lemma grown_same:
  assumes "grown t k e a cs cs'" "same_chains cs' cs''"
  shows "grown t k e a cs cs''"
  using assms by (simp add: grown_def same_chains_def)

lemma same_chains_refl: "cs_wf cs \<Longrightarrow> same_chains cs cs"
  by (simp add: same_chains_def)

text \<open>The newest versions after a change.\<close>

lemma heads_strip:
  assumes "heads_ok t cs" "map_option (map strip_entry) (chains cs' k) = map_option (map strip_entry) (chains cs k)" "chains cs' k = Some (e # es)"
  shows "ce_timestamp e = tx_ID t \<or> ce_timestamp e \<le> tx_startTS t"
proof -
  obtain ch where ch: "chains cs k = Some ch" "map strip_entry (e # es) = map strip_entry ch"
    using assms(2,3) by (cases "chains cs k") auto
  then obtain e' es' where e': "ch = e' # es'" "strip_entry e = strip_entry e'" by (cases ch) auto
  have "ce_timestamp e = ce_timestamp e'" using e'(2) strip_entry_simps(2) by metis
  then show ?thesis using assms(1) ch(1) e'(1) by (auto simp: heads_ok_def)
qed

lemma heads_same: "heads_ok t cs \<Longrightarrow> same_chains cs cs' \<Longrightarrow> heads_ok t cs'"
  unfolding heads_ok_def [of t cs'] using heads_strip by (metis same_chains_def)

lemma heads_grown:
  assumes h: "heads_ok t cs" and g: "grown t k e a cs cs'"
  shows "heads_ok t cs'"
  unfolding heads_ok_def
proof (intro allI impI)
  fix j f fs assume c: "chains cs' j = Some (f # fs)"
  obtain base rest where s: "\<And>j. map_option (map strip_entry) (chains cs' j) =
      (if j = k then Some (map strip_entry (e # base # rest)) else map_option (map strip_entry) (chains cs j))"
    by (rule grownE [OF g]) (rule that)
  show "ce_timestamp f = tx_ID t \<or> ce_timestamp f \<le> tx_startTS t"
  proof (cases "j = k")
    case True
    then have "map strip_entry (f # fs) = map strip_entry (e # base # rest)" using s [of k] c by simp
    then have "strip_entry f = strip_entry e" unfolding list.map by blast
    then have "ce_timestamp f = ce_timestamp e" using strip_entry_simps(2) by metis
    then show ?thesis using grown_wf(2) [OF g] by simp
  next
    case False
    then show ?thesis using heads_strip [OF h _ c] s [of j] by simp
  qed
qed

lemma grows_good:
  assumes "grows t as cs cs'" "heads_ok t cs"
  shows "cs_wf cs' \<and> heads_ok t cs'"
  using assms by (induction rule: grows.induct) (auto intro: same_chains_wf grown_wf(1) heads_same heads_grown)

subsection \<open>Runs of catalog changes\<close>

text \<open>The steps of a transaction on the set at an address. A change that throws ends the statement and not the run. A rename must
  succeed: when it throws, it has dropped the entry already. Records of other objects may come in between.\<close>

inductive cat_step :: "nat \<Rightarrow> ('d, 'x) cat_state \<Rightarrow> ('d, 'x) cat_state \<Rightarrow> bool" for addr where
  step_create: "createEntry addr e s = (r, s') \<Longrightarrow> cat_step addr s s'"
| step_drop: "dropEntry addr name oid s = (r, s') \<Longrightarrow> cat_step addr s s'"
| step_alter: "alterEntry addr ai s = (r, s') \<Longrightarrow> (\<forall>n. ai_extraInfo ai = RENAME_TABLE n \<longrightarrow> r = Inr ()) \<Longrightarrow> cat_step addr s s'"
| step_other: "undoRecords (undoBuffer t') = undoRecords (undoBuffer t) @ [rec] \<Longrightarrow> (\<forall>a. rec \<noteq> CatalogEntryRecord addr a) \<Longrightarrow>
    tx_ID t' = tx_ID t \<Longrightarrow> tx_startTS t' = tx_startTS t \<Longrightarrow> tx_type t' = tx_type t \<Longrightarrow> cat_step addr (cs, (t, wal)) (cs, (t', wal'))"

inductive cat_steps :: "nat \<Rightarrow> ('d, 'x) cat_state \<Rightarrow> ('d, 'x) cat_state \<Rightarrow> bool" for addr where
  steps_refl: "cat_steps addr s s"
| steps_step: "cat_steps addr s s' \<Longrightarrow> cat_step addr s' s'' \<Longrightarrow> cat_steps addr s s''"

text \<open>The addresses in the undo records of one set.\<close>

fun set_records :: "nat \<Rightarrow> UndoRecord list \<Rightarrow> nat list" where
  "set_records addr [] = []"
| "set_records addr (CatalogEntryRecord b a # recs) = (if b = addr then a # set_records addr recs else set_records addr recs)"
| "set_records addr (_ # recs) = set_records addr recs"

lemma set_records_append: "set_records addr (xs @ ys) = set_records addr xs @ set_records addr ys"
  by (induction addr xs rule: set_records.induct) simp_all

lemma set_records_own [simp]: "set_records addr (map (CatalogEntryRecord addr) as) = as"
  by (induction as) simp_all

lemma set_records_other: "\<forall>a. rec \<noteq> CatalogEntryRecord addr a \<Longrightarrow> set_records addr [rec] = []"
  by (cases rec) auto

text \<open>What one step does: the changes of the set are those that its records undo.\<close>

definition logged ::
  "nat \<Rightarrow> ('d, 'x) CatalogSet \<Rightarrow> Transaction \<Rightarrow> ('d, 'x) CatalogSet \<Rightarrow> Transaction \<Rightarrow> bool" where
  "logged addr cs t cs' t' \<longleftrightarrow> tx_ID t' = tx_ID t \<and> tx_startTS t' = tx_startTS t \<and> tx_type t' = tx_type t \<and>
     (\<exists>as. grows t as cs cs' \<and> set_records addr (undoRecords (undoBuffer t')) = set_records addr (undoRecords (undoBuffer t)) @ as)"

lemma logged_same: "same_chains cs cs' \<Longrightarrow> logged addr cs t cs' t"
  unfolding logged_def using grows_same by fastforce

lemma view_same: "same_chains cs cs' \<Longrightarrow> view t cs' k = view t cs k"
proof -
  assume "same_chains cs cs'"
  then have s: "map_option (map strip_entry) (chains cs' k) = map_option (map strip_entry) (chains cs k)" by (simp add: same_chains_def)
  show ?thesis
  proof (cases "chains cs k")
    case None
    then show ?thesis using s by (simp add: view_def)
  next
    case (Some ch)
    then obtain ch' where "chains cs' k = Some ch'" "map strip_entry ch' = map strip_entry ch" using s by auto
    then show ?thesis using Some see_strip [of t ch] see_strip [of t ch'] by (simp add: view_def)
  qed
qed

lemma logged_grown:
  assumes s: "same_chains cs cs1" and g: "grown t k e a cs1 cs2" and t: "shouldAppendToUndoBuffer t"
    and l: "logEntryForTrx addr a skip cs2 (t, wal) = (r, (t', wal'))"
  shows "logged addr cs t cs2 t'"
proof -
  note r = log_record [OF grown_wf(1) [OF g] grown_addrs(1) [OF g] t l]
  have "grows t ([] @ [a]) cs cs2" by (rule grows_step [OF grows_same [OF s] g])
  then show ?thesis unfolding logged_def using r by (auto simp: set_records_append)
qed

lemma create_logged:
  assumes wf: "cs_wf cs" and t: "heads_ok t cs" "entry_writer t" and c: "createEntry addr e (cs, (t, wal)) = (r, (cs', (t', wal')))"
  shows "logged addr cs t cs' t'"
proof -
  let ?cs = "cs\<lparr>nextOID := nextOID cs + 1\<rparr>" and ?e = "e\<lparr>ce_oid := nextOID cs\<rparr>"
  have s: "same_chains cs ?cs" using same_chains_fields(1) [OF wf order_refl] .
  note h = heads_same [OF t(1) s]
  show ?thesis
  proof (cases "view t ?cs (toLower (ce_name ?e))")
    case (Some x)
    then have "createEntryNoLock t ?e ?cs = Inl (CatalogException (ce_name ?e @ '' already exists in catalog.''))"
      by (intro create_grown(1) [OF same_chains_wf [OF s] h t(2)]) simp
    then have "cs' = ?cs" "t' = t" using c by (auto simp: createEntry_def Let_def)
    then show ?thesis using logged_same [OF s] by simp
  next
    case None
    from create_grown(2) [OF same_chains_wf [OF s] h t(2) None] obtain cs2 a where g: "createEntryNoLock t ?e ?cs = Inr (cs2, a)"
      "grown t (toLower (ce_name ?e)) (?e\<lparr>ce_addr := cs_brk ?cs, ce_timestamp := tx_ID t\<rparr>) a ?cs cs2" by blast
    obtain r2 t2 wal2 where l: "logEntryForTrx addr a False cs2 (t, wal) = (r2, (t2, wal2))" by (metis prod_cases3)
    have "cs' = cs2" "t' = t2" using c g(1) l by (auto simp: createEntry_def Let_def split: sum.splits)
    then show ?thesis using logged_grown [OF s g(2) _ l] t(2) by (simp add: entry_writer_def)
  qed
qed

lemma drop_logged:
  assumes wf: "cs_wf cs" and t: "heads_ok t cs" "entry_writer t" and c: "dropEntry addr name oid (cs, (t, wal)) = (r, (cs', (t', wal')))"
  shows "logged addr cs t cs' t'"
proof (cases "view t cs (toLower name)")
  case None
  then have "cs' = cs" "t' = t" using c drop_grown(1) [OF wf t(1) None] by (auto simp: dropEntry_def)
  then show ?thesis using logged_same [OF same_chains_refl [OF wf]] by simp
next
  case (Some x)
  then have "view t cs (toLower name) \<noteq> None" by simp
  from drop_grown(2) [OF wf t(1) this, of oid] obtain cs2 b where g: "dropEntryNoLock t name oid cs = Inr (cs2, b)"
    "grown t (toLower name) ((DummyCatalogEntry (cs_brk cs) name oid)\<lparr>ce_timestamp := tx_ID t\<rparr>) (b) cs cs2" by blast
  obtain r2 t2 wal2 where l: "logEntryForTrx addr (b) False cs2 (t, wal) = (r2, (t2, wal2))" by (metis prod_cases3)
  have "cs' = cs2" "t' = t2" using c g(1) l by (auto simp: dropEntry_def)
  then show ?thesis using logged_grown [OF same_chains_refl [OF wf] g(2) _ l] t(2) by (simp add: entry_writer_def)
qed

text \<open>Altering an entry other than by renaming it puts the altered copy in front.\<close>

lemma alter_name:
  assumes "TableCatalogEntry_alter a ai e = Inr n" "\<And>x. ai_extraInfo ai \<noteq> RENAME_TABLE x"
  shows "ce_name n = ce_name e"
  using assms by (auto simp: TableCatalogEntry_alter_def TableCatalogEntry_copy_def Let_def split: BoundExtraAlterInfo.splits elim!: rbindE)

lemma alter_addr: "TableCatalogEntry_alter a ai e = Inr n \<Longrightarrow> ce_addr n = a"
  by (auto simp: TableCatalogEntry_alter_def TableCatalogEntry_copy_def Let_def split: BoundExtraAlterInfo.splits elim!: rbindE)

text \<open>The entry to alter is the newest version of its name.\<close>

lemma alter_entry:
  assumes wf: "cs_wf cs" and t: "heads_ok t cs"
    and e: "rbind (validateExistNoLock t name cs) (\<lambda>_. rbind (getEntryNoLock t name cs) (\<lambda>entry.
      rbind (TableCatalogEntry_alter a ai entry) (\<lambda>n. Inr (entry, n)))) = Inr (entry, new)"
  obtains es where "chains cs (toLower name) = Some (entry # es)" "TableCatalogEntry_alter a ai entry = Inr new" "\<not> ce_deleted entry"
    "view t cs (toLower name) \<noteq> None"
proof -
  have v: "validateExistNoLock t name cs = Inr ()" and g: "getEntryNoLock t name cs = Inr entry"
    and n: "TableCatalogEntry_alter a ai entry = Inr new"
    using e by (auto elim!: rbindE)
  have vis: "view t cs (toLower name) \<noteq> None"
    using v by (simp add: validateExistNoLock_def contains_view [OF wf] split: if_splits)
  then obtain ch where ch: "chains cs (toLower name) = Some ch" by (cases "chains cs (toLower name)") (simp_all add: view_def)
  obtain f es where f: "ch = f # es" using chain_nonempty [OF wf ch] by blast
  note hd = heads_view [OF t ch [unfolded f]]
  have "f = entry" using g v ch f hd(2) by (simp add: getEntryNoLock_def entries_at_def del: traverseVersionChainsForTransactionNoLock.simps)
  moreover have "\<not> ce_deleted f" using vis hd(1) by (simp split: if_splits)
  ultimately show ?thesis using that ch f n vis by blast
qed

lemma alter_plain:
  assumes wf: "cs_wf cs" and t: "heads_ok t cs" "entry_writer t"
    and ch: "chains cs (toLower name) = Some (entry # es)"
    and n: "TableCatalogEntry_alter (cs_brk cs) ai entry = Inr new" "\<And>x. ai_extraInfo ai \<noteq> RENAME_TABLE x"
    and new: "n = new\<lparr>ce_timestamp := tx_ID t, ce_oid := ce_oid entry\<rparr>"
  shows "grown t (toLower name) n (ce_addr entry) cs
    (setAlterInfo (ce_addr entry) ai (emplaceNoLock n [] (cs\<lparr>cs_brk := Suc (cs_brk cs)\<rparr>)))"
proof -
  have nm: "toLower (ce_name n) = toLower name"
    using alter_name [OF n] cs_wfD(2) [OF wf ch] by (simp add: new chain_wf_def)
  have "grown t (toLower (ce_name n)) n (ce_addr entry) cs (emplaceNoLock n [] (cs\<lparr>cs_brk := Suc (cs_brk cs)\<rparr>))"
    by (rule emplace_grown [OF wf]) (use ch nm alter_addr [OF n(1)] cs_wfD(1) [OF wf] in \<open>simp_all add: new\<close>)
  then have g: "grown t (toLower name) n (ce_addr entry) cs (emplaceNoLock n [] (cs\<lparr>cs_brk := Suc (cs_brk cs)\<rparr>))"
    unfolding nm .
  from grown_same [OF g setAlterInfo_same [OF grown_wf(1) [OF g]]] show ?thesis .
qed

text \<open>Renaming is a drop and a creation.\<close>

lemma alter_rename_grows:
  assumes wf: "cs_wf cs" and t: "heads_ok t cs" "entry_writer t"
    and d: "dropEntryNoLock t name oid cs = Inr (cs1, b)" and ch: "chains cs (toLower name) = Some (entry # es)"
    and c: "createEntryNoLock t new cs1 = Inr (cs2, a)"
  shows "grows t [ce_addr entry, a] cs (setAlterInfo (ce_addr entry) ai cs2)"
    "ce_addr entry \<in> addrs (setAlterInfo (ce_addr entry) ai cs2)" "a \<in> addrs (setAlterInfo (ce_addr entry) ai cs2)"
    "cs_wf (setAlterInfo (ce_addr entry) ai cs2)"
proof -
  have vis: "view t cs (toLower name) \<noteq> None" using drop_grown(1) [OF wf t(1), of name oid] d by auto
  obtain e where g1: "grown t (toLower name) e (ce_addr entry) cs cs1"
    using drop_grown(2) [OF wf t(1) vis, of oid] d ch by auto
  note wf1 = grown_wf(1) [OF g1] and h1 = heads_grown [OF t(1) g1]
  have none: "view t cs1 (toLower (ce_name new)) = None"
    using create_grown(1) [OF wf1 h1 t(2), of new] c by fastforce
  obtain e2 where g2: "grown t (toLower (ce_name new)) e2 a cs1 cs2"
    using create_grown(2) [OF wf1 h1 t(2) none] c by auto
  note s = setAlterInfo_same [OF grown_wf(1) [OF g2], of "ce_addr entry" ai]
  note g3 = grown_same [OF g2 s]
  have "grows t (([] @ [ce_addr entry]) @ [a]) cs (setAlterInfo (ce_addr entry) ai cs2)"
    by (rule grows_step [OF grows_step [OF grows_same [OF same_chains_refl [OF wf]] g1] g3])
  then show "grows t [ce_addr entry, a] cs (setAlterInfo (ce_addr entry) ai cs2)" by simp
  show "a \<in> addrs (setAlterInfo (ce_addr entry) ai cs2)" by (rule grown_addrs(1) [OF g3])
  show "ce_addr entry \<in> addrs (setAlterInfo (ce_addr entry) ai cs2)"
    using grown_addrs(1) [OF g1] grown_addrs(2) [OF g3] by blast
  show "cs_wf (setAlterInfo (ce_addr entry) ai cs2)" by (rule same_chains_wf [OF s])
qed

lemma grows_same_left: "grows t as cs1 cs2 \<Longrightarrow> same_chains cs cs1 \<Longrightarrow> grows t as cs cs2"
proof (induction rule: grows.induct)
  case (grows_same cs1 cs2)
  then show ?case by (intro grows.grows_same) (simp add: same_chains_def)
next
  case (grows_step as cs1 cs2 k e a cs3)
  then show ?case by (intro grows.grows_step) simp_all
qed

lemma rename_logged:
  assumes wf: "cs_wf cs" and t: "heads_ok t cs" "entry_writer t"
    and ch: "chains cs (toLower name) = Some (entry # es)" and s: "same_chains cs cs0" "chains cs0 = chains cs"
    and d: "dropEntryNoLock t name oid cs0 = Inr (cs1, b)" and c: "createEntryNoLock t new cs1 = Inr (cs2, a)"
    and l1: "logEntryForTrx addr (ce_addr entry) False (setAlterInfo (ce_addr entry) ai cs2) (t, wal) = (r1, (t1, wal1))"
    and l2: "logEntryForTrx addr a True (setAlterInfo (ce_addr entry) ai cs2) (t1, wal1) = (r2, (t2, wal2))"
  shows "logged addr cs t (setAlterInfo (ce_addr entry) ai cs2) t2"
proof -
  have ch0: "chains cs0 (toLower name) = Some (entry # es)" using ch s(2) by simp
  note g = alter_rename_grows [OF same_chains_wf [OF s(1)] heads_same [OF t(1) s(1)] t(2) d ch0 c, where ai = ai]
  have ap: "shouldAppendToUndoBuffer t" using t(2) by (simp add: entry_writer_def)
  note r1 = log_record [OF g(4,2) ap l1]
  have "shouldAppendToUndoBuffer t1" using ap r1 by (simp add: shouldAppendToUndoBuffer_def isReadOnly_def)
  note r2 = log_record [OF g(4,3) this l2]
  have "grows t [ce_addr entry, a] cs (setAlterInfo (ce_addr entry) ai cs2)" by (rule grows_same_left [OF g(1) s(1)])
  then show ?thesis unfolding logged_def using r1 r2 by (auto simp: set_records_append)
qed

lemma alter_logged:
  assumes wf: "cs_wf cs" and t: "heads_ok t cs" "entry_writer t" and c: "alterEntry addr ai (cs, (t, wal)) = (r, (cs', (t', wal')))"
    and ok: "\<forall>n. ai_extraInfo ai = RENAME_TABLE n \<longrightarrow> r = Inr ()"
  shows "logged addr cs t cs' t'"
proof -
  let ?name = "ai_tableName ai" and ?cs = "cs\<lparr>cs_brk := Suc (cs_brk cs)\<rparr>"
  let ?m = "rbind (validateExistNoLock t ?name cs) (\<lambda>_. rbind (getEntryNoLock t ?name cs) (\<lambda>entry.
    rbind (TableCatalogEntry_alter (cs_brk cs) ai entry) (\<lambda>n. Inr (entry, n))))"
  have s: "same_chains cs ?cs" using same_chains_fields(2) [OF wf] by simp
  show ?thesis
  proof (cases ?m)
    case (Inl e)
    then have "cs' = cs" "t' = t" using c by (simp_all add: alterEntry_def Let_def)
    then show ?thesis using logged_same [OF same_chains_refl [OF wf]] by simp
  next
    case (Inr p)
    then obtain entry new where m: "?m = Inr (entry, new)" by (cases p) simp
    obtain es where e: "chains cs (toLower ?name) = Some (entry # es)" "TableCatalogEntry_alter (cs_brk cs) ai entry = Inr new"
      by (rule alter_entry [OF wf t(1) m])
    let ?new = "new\<lparr>ce_timestamp := tx_ID t, ce_oid := ce_oid entry\<rparr>"
    show ?thesis
    proof (cases "\<exists>x. ai_extraInfo ai = RENAME_TABLE x")
      case False
      let ?cs3 = "setAlterInfo (ce_addr entry) ai (emplaceNoLock ?new [] ?cs)"
      have g: "grown t (toLower ?name) ?new (ce_addr entry) cs ?cs3" by (rule alter_plain [OF wf t e _ refl]) (use False in blast)
      obtain r2 t2 wal2 where l: "logEntryForTrx addr (ce_addr entry) False ?cs3 (t, wal) = (r2, (t2, wal2))" by (metis prod_cases3)
      have "cs' = ?cs3" "t' = t2" using c m l False by (auto simp: alterEntry_def Let_def split: BoundExtraAlterInfo.splits)
      then show ?thesis using logged_grown [OF same_chains_refl [OF wf] g _ l] t(2) by (simp add: entry_writer_def)
    next
      case True
      then obtain x where x: "ai_extraInfo ai = RENAME_TABLE x" by blast
      then have r: "r = Inr ()" using ok by blast
      obtain cs1 b where d: "dropEntryNoLock t ?name (ce_oid entry) ?cs = Inr (cs1, b)"
        using c m x r by (cases "dropEntryNoLock t ?name (ce_oid entry) ?cs") (auto simp: alterEntry_def Let_def)
      obtain cs2 a where k: "createEntryNoLock t ?new cs1 = Inr (cs2, a)"
        using c m x r d by (cases "createEntryNoLock t ?new cs1") (auto simp: alterEntry_def Let_def)
      let ?cs3 = "setAlterInfo (ce_addr entry) ai cs2"
      obtain r1 t1 wal1 where l1: "logEntryForTrx addr (ce_addr entry) False ?cs3 (t, wal) = (r1, (t1, wal1))" by (metis prod_cases3)
      have "r1 = Inr ()" using c m x r d k l1 by (cases r1) (auto simp: alterEntry_def Let_def)
      obtain r2 t2 wal2 where l2: "logEntryForTrx addr a True ?cs3 (t1, wal1) = (r2, (t2, wal2))" by (metis prod_cases3)
      have "cs' = ?cs3" "t' = t2" using c m x d k l1 l2 \<open>r1 = Inr ()\<close> by (auto simp: alterEntry_def Let_def)
      then show ?thesis using rename_logged [OF wf t e(1) s _ d k l1 l2] by simp
    qed
  qed
qed

lemma step_logged:
  assumes "cat_step addr s s'" "s = (cs, (t, wal))" "s' = (cs', (t', wal'))" "cs_wf cs" "heads_ok t cs" "entry_writer t"
  shows "logged addr cs t cs' t'"
  using assms
proof (induction rule: cat_step.induct)
  case (step_other ta tb rec csa wala walb)
  then show ?case
    using grows_same [OF same_chains_refl] set_records_other [of rec addr] unfolding logged_def
    by (fastforce simp: set_records_append)
qed (auto intro: create_logged drop_logged alter_logged)

subsection \<open>The invariant\<close>

text \<open>The addresses of the entries behind those of the transaction.\<close>

fun own_prevs :: "transaction_t \<Rightarrow> ('d, 'x) CatalogEntry list \<Rightarrow> nat set" where
  "own_prevs tid (e # f # es) = (if ce_timestamp e = tid then {ce_addr f} else {}) \<union> own_prevs tid (f # es)"
| "own_prevs tid _ = {}"

lemma own_prevs_strip: "own_prevs tid (map strip_entry ch) = own_prevs tid ch"
  by (induction tid ch rule: own_prevs.induct) simp_all

lemma own_prevs_cong: "map strip_entry ch = map strip_entry ch' \<Longrightarrow> own_prevs tid ch = own_prevs tid ch'"
  by (metis own_prevs_strip)

text \<open>The chain without the entries of the transaction in front.\<close>

definition others :: "transaction_t \<Rightarrow> ('d, 'x) CatalogEntry list \<Rightarrow> ('d, 'x) CatalogEntry list" where
  "others tid ch = dropWhile (\<lambda>e. ce_timestamp e = tid) ch"

lemma others_strip: "map strip_entry (others tid ch) = others tid (map strip_entry ch)"
  by (induction ch) (simp_all add: others_def)

lemma others_cong: "map strip_entry ch = map strip_entry ch' \<Longrightarrow> norm (others tid ch) = norm (others tid ch')"
  by (rule norm_strip) (simp add: others_strip)

definition cat_inv :: "nat \<Rightarrow> Transaction \<Rightarrow> ('d, 'x) CatalogSet \<Rightarrow> ('d, 'x) CatalogSet \<Rightarrow> nat list \<Rightarrow> bool" where
  "cat_inv addr t0 cs0 cs as \<longleftrightarrow> cs_wf cs \<and> heads_ok t0 cs \<and>
     (\<forall>x. cs_wf x \<and> normed x = normed cs \<longrightarrow>
        (\<exists>y. foldM rollbackCatalogEntryRecord (rev as) x = Inr y \<and> cs_wf y \<and> normed y = normed cs0)) \<and>
     set as = (\<Union>k. own_prevs (tx_ID t0) (chain cs k)) \<and>
     (\<forall>k. norm (others (tx_ID t0) (chain cs k)) = normed cs0 k)"

lemma cat_invD:
  assumes "cat_inv addr t0 cs0 cs as"
  shows "cs_wf cs" "heads_ok t0 cs"
    "cs_wf x \<Longrightarrow> normed x = normed cs \<Longrightarrow>
       \<exists>y. foldM rollbackCatalogEntryRecord (rev as) x = Inr y \<and> cs_wf y \<and> normed y = normed cs0"
    "set as = (\<Union>k. own_prevs (tx_ID t0) (chain cs k))" "norm (others (tx_ID t0) (chain cs k)) = normed cs0 k"
  using assms unfolding cat_inv_def by blast+

lemma same_chain_cases:
  assumes "map_option (map strip_entry) m' = map_option (map strip_entry) m"
  shows "map strip_entry (case m' of None \<Rightarrow> [] | Some ch \<Rightarrow> ch) = map strip_entry (case m of None \<Rightarrow> [] | Some ch \<Rightarrow> ch)"
  using assms by (cases m; cases m') simp_all

lemma inv_same:
  assumes inv: "cat_inv addr t0 cs0 cs as" and s: "same_chains cs cs'"
  shows "cat_inv addr t0 cs0 cs' as"
proof -
  have c: "map strip_entry (chain cs' k) = map strip_entry (chain cs k)" for k
    using same_chain_cases s by (metis same_chains_def)
  have "normed cs' k = normed cs k" for k
  proof -
    have "normed x k = norm (chain x k)" for x :: "('a, 'b) CatalogSet" by (cases "chains x k") (simp_all add: normed_def norm_def)
    then show ?thesis using norm_strip [OF c] by metis
  qed
  then have n: "normed cs' = normed cs" by blast
  have o: "own_prevs tid (chain cs' k) = own_prevs tid (chain cs k)" "norm (others tid (chain cs' k)) = norm (others tid (chain cs k))" for k tid
    using own_prevs_cong [OF c] others_cong [OF c] by blast+
  show ?thesis
    using inv same_chains_wf [OF s] heads_same [OF _ s] unfolding cat_inv_def n o by blast
qed

lemma grown_chain:
  assumes "grown t k e a cs cs'"
  obtains base rest where "a = ce_addr base" "map strip_entry (chain cs' k) = map strip_entry (e # base # rest)"
    "own_prevs tid (base # rest) = own_prevs tid (chain cs k)"
    "tid \<noteq> 0 \<Longrightarrow> norm (others tid (base # rest)) = norm (others tid (chain cs k))"
    "\<And>j. j \<noteq> k \<Longrightarrow> map strip_entry (chain cs' j) = map strip_entry (chain cs j)"
proof -
  obtain base rest where g: "chains cs k = Some (base # rest) \<or>
      chains cs k = None \<and> rest = [] \<and> ce_deleted base \<and> ce_timestamp base = 0 \<and> cs_brk cs \<le> ce_addr base" "a = ce_addr base"
    "\<And>j. map_option (map strip_entry) (chains cs' j) =
      (if j = k then Some (map strip_entry (e # base # rest)) else map_option (map strip_entry) (chains cs j))"
    using grownE [OF assms] by blast
  have "map_option (map strip_entry) (chains cs' k) = map_option (map strip_entry) (Some (e # base # rest))" using g(3) [of k] by simp
  from same_chain_cases [OF this] have c: "map strip_entry (chain cs' k) = map strip_entry (e # base # rest)" by simp
  show ?thesis
  proof (rule that [OF g(2) c])
    show "own_prevs tid (base # rest) = own_prevs tid (chain cs k)" using g(1) by auto
    show "norm (others tid (base # rest)) = norm (others tid (chain cs k))" if "tid \<noteq> 0"
      using g(1) that by (auto simp: others_def norm_def)
    show "map strip_entry (chain cs' j) = map strip_entry (chain cs j)" if "j \<noteq> k" for j
      by (rule same_chain_cases) (use g(3) [of j] that in simp)
  qed
qed

lemma own_prevs_Cons: "own_prevs tid (e # f # es) = own_prevs tid (f # es) \<union> (if ce_timestamp e = tid then {ce_addr f} else {})"
  by auto

lemma inv_grown:
  assumes inv: "cat_inv addr t0 cs0 cs as" and g: "grown t0 k e a cs cs'" and t: "tx_ID t0 \<noteq> 0"
  shows "cat_inv addr t0 cs0 cs' (as @ [a])"
proof -
  note i = cat_invD [OF inv]
  obtain base rest where c: "a = ce_addr base" "map strip_entry (chain cs' k) = map strip_entry (e # base # rest)"
    "own_prevs (tx_ID t0) (base # rest) = own_prevs (tx_ID t0) (chain cs k)"
    "norm (others (tx_ID t0) (base # rest)) = norm (others (tx_ID t0) (chain cs k))"
    "\<And>j. j \<noteq> k \<Longrightarrow> map strip_entry (chain cs' j) = map strip_entry (chain cs j)"
    using grown_chain [OF g, of "tx_ID t0"] t by metis
  have ts: "ce_timestamp e = tx_ID t0" by (rule grown_wf(2) [OF g])
  have p: "own_prevs (tx_ID t0) (chain cs' j) = own_prevs (tx_ID t0) (chain cs j) \<union> (if j = k then {a} else {})" for j
  proof (cases "j = k")
    case True
    have "own_prevs (tx_ID t0) (chain cs' k) = own_prevs (tx_ID t0) (e # base # rest)" by (rule own_prevs_cong [OF c(2)])
    then show ?thesis using True c(1,3) ts by (simp add: own_prevs_Cons del: own_prevs.simps)
  next
    case False
    then show ?thesis using own_prevs_cong [OF c(5)] by simp
  qed
  have o: "norm (others (tx_ID t0) (chain cs' j)) = normed cs0 j" for j
  proof (cases "j = k")
    case True
    have "norm (others (tx_ID t0) (chain cs' k)) = norm (others (tx_ID t0) (e # base # rest))" by (rule others_cong [OF c(2)])
    also have "\<dots> = norm (others (tx_ID t0) (base # rest))" using ts by (simp add: others_def)
    finally show ?thesis using True c(4) i(5) by simp
  next
    case False
    then show ?thesis using others_cong [OF c(5)] i(5) by metis
  qed
  have r: "\<exists>y. foldM rollbackCatalogEntryRecord (rev (as @ [a])) x = Inr y \<and> cs_wf y \<and> normed y = normed cs0"
    if x: "cs_wf x" "normed x = normed cs'" for x
    using rollback_grown [OF g x] i(3) by auto
  have "set (as @ [a]) = (\<Union>j. own_prevs (tx_ID t0) (chain cs' j))" unfolding p using i(4) by (auto split: if_splits)
  then show ?thesis
    using grown_wf(1) [OF g] heads_grown [OF i(2) g] r o unfolding cat_inv_def by blast
qed

lemma inv_grows:
  assumes "grows t as cs1 cs2" "cat_inv addr t0 cs0 cs1 bs" "t = t0" "tx_ID t0 \<noteq> 0"
  shows "cat_inv addr t0 cs0 cs2 (bs @ as)"
  using assms
proof (induction rule: grows.induct)
  case (grows_same cs cs')
  then show ?case using inv_same by simp
next
  case (grows_step as cs1 cs2 k e a cs3)
  then have "cat_inv addr t0 cs0 cs2 (bs @ as)" by simp
  from inv_grown [OF this] grows_step show ?case by simp
qed

text \<open>The start of a transaction: everything in the set was committed before.\<close>

definition cat_start :: "Transaction \<Rightarrow> ('d, 'x) CatalogSet \<Rightarrow> bool" where
  "cat_start t cs \<longleftrightarrow> entry_writer t \<and> cs_wf cs \<and> undoRecords (undoBuffer t) = [] \<and>
     (\<forall>k ch. chains cs k = Some ch \<longrightarrow> (\<forall>e \<in> set ch. ce_timestamp e \<le> tx_startTS t))"

lemma cat_startD:
  assumes "cat_start t cs"
  shows "entry_writer t" "cs_wf cs" "undoRecords (undoBuffer t) = []" "e \<in> set (chain cs k) \<Longrightarrow> ce_timestamp e \<le> tx_startTS t"
    "e \<in> set (chain cs k) \<Longrightarrow> ce_timestamp e \<noteq> tx_ID t" "tx_ID t \<noteq> 0"
proof -
  show 1: "entry_writer t" "cs_wf cs" "undoRecords (undoBuffer t) = []" using assms by (simp_all add: cat_start_def)
  have lt: "tx_startTS t < tx_ID t" using 1(1) by (auto simp: entry_writer_def)
  show "tx_ID t \<noteq> 0" using lt by auto
  show "ce_timestamp e \<le> tx_startTS t" if "e \<in> set (chain cs k)"
    using assms that by (cases "chains cs k") (auto simp: cat_start_def)
  then show "ce_timestamp e \<noteq> tx_ID t" if "e \<in> set (chain cs k)" using that lt by auto
qed

lemma no_own: "\<forall>e \<in> set ch. ce_timestamp e \<noteq> tid \<Longrightarrow> own_prevs tid ch = {} \<and> others tid ch = ch"
  by (induction tid ch rule: own_prevs.induct) (simp_all add: others_def)

lemma normed_chain: "normed cs k = norm (chain cs k)"
  by (cases "chains cs k") (simp_all add: normed_def norm_def)

lemma inv_start:
  assumes s: "cat_start t cs"
  shows "cat_inv addr t cs cs []"
proof -
  note d = cat_startD [OF s]
  have n: "own_prevs (tx_ID t) (chain cs k) = {}" "others (tx_ID t) (chain cs k) = chain cs k" for k
    using no_own [of "chain cs k" "tx_ID t"] d(5) by blast+
  have "heads_ok t cs"
    unfolding heads_ok_def
  proof (intro allI impI disjI2)
    fix k e es assume "chains cs k = Some (e # es)"
    then show "ce_timestamp e \<le> tx_startTS t" using d(4) [of e k] by simp
  qed
  then show ?thesis unfolding cat_inv_def using d(2) by (simp add: n normed_chain)
qed

definition same_tx :: "Transaction \<Rightarrow> Transaction \<Rightarrow> bool" where
  "same_tx t0 t \<longleftrightarrow> tx_ID t = tx_ID t0 \<and> tx_startTS t = tx_startTS t0 \<and> tx_type t = tx_type t0"

lemma same_tx_writer: "same_tx t0 t \<Longrightarrow> entry_writer t0 \<Longrightarrow> entry_writer t"
  by (simp add: same_tx_def entry_writer_def shouldAppendToUndoBuffer_def isReadOnly_def)

lemma same_tx_heads: "same_tx t0 t \<Longrightarrow> heads_ok t0 cs = heads_ok t cs"
  by (simp add: same_tx_def heads_ok_def)

lemma same_tx_grows:
  assumes "grows t as cs cs'" "same_tx t0 t"
  shows "grows t0 as cs cs'"
  using assms
proof (induction rule: grows.induct)
  case (grows_step as cs1 cs2 k e a cs3)
  have "grown t0 k e a cs2 cs3" using grows_step by (simp add: grown_def same_tx_def)
  then show ?case using grows_step by (intro grows.grows_step) simp_all
qed (simp add: grows_same)

lemma inv_steps:
  assumes "cat_steps addr s s'" "s = (cs0, (t0, wal0))" "s' = (cs, (t, wal))" "cat_start t0 cs0"
  shows "same_tx t0 t \<and> cat_inv addr t0 cs0 cs (set_records addr (undoRecords (undoBuffer t)))"
  using assms
proof (induction arbitrary: cs t wal rule: cat_steps.induct)
  case (steps_refl s)
  then show ?case using inv_start [of t0 cs0 addr] cat_startD(3) [of t0 cs0] by (simp add: same_tx_def)
next
  case (steps_step s s' s'')
  obtain cs1 t1 wal1 where s': "s' = (cs1, (t1, wal1))" by (metis prod_cases3)
  from steps_step.IH [OF steps_step.prems(1) s' steps_step.prems(3)]
  have same: "same_tx t0 t1" and inv: "cat_inv addr t0 cs0 cs1 (set_records addr (undoRecords (undoBuffer t1)))" by simp_all
  have "logged addr cs1 t1 cs t"
    using step_logged [OF steps_step.hyps(2) s' steps_step.prems(2)] cat_invD(1,2) [OF inv] same_tx_heads [OF same]
      same_tx_writer [OF same] cat_startD(1) [OF steps_step.prems(3)] by blast
  then obtain as where l: "same_tx t0 t" "grows t1 as cs1 cs"
    "set_records addr (undoRecords (undoBuffer t)) = set_records addr (undoRecords (undoBuffer t1)) @ as"
    using same by (auto simp: logged_def same_tx_def)
  from inv_grows [OF same_tx_grows [OF l(2) same] inv refl cat_startD(6) [OF steps_step.prems(3)]] l show ?case by simp
qed

end
