(* ===== verification/Catalog_Mvcc.thy ===== *)
theory Catalog_Mvcc
  imports Catalog_Runs
begin

text \<open>
  Commit and rollback of the changes of a transaction on a catalog set, and what other transactions see before and after.
\<close>

subsection \<open>Rollback and commit of a set\<close>

definition on_catalog ::
  "nat \<Rightarrow> (nat \<Rightarrow> ('d, 'x) CatalogSet \<Rightarrow> ('d, 'x) CatalogSet result) \<Rightarrow> UndoRecord \<Rightarrow> ('d, 'x) CatalogSet \<Rightarrow> ('d, 'x) CatalogSet result" where
  "on_catalog addr f rec cs =
     (case rec of CatalogEntryRecord b a \<Rightarrow> if b = addr then f a cs else Inr cs | _ \<Rightarrow> Inr cs)"

definition rollbackCatalog :: "nat \<Rightarrow> UndoBuffer \<Rightarrow> ('d, 'x) CatalogSet \<Rightarrow> ('d, 'x) CatalogSet result" where
  "rollbackCatalog addr = reverseIterate (on_catalog addr rollbackCatalogEntryRecord)"

definition commitCatalog :: "nat \<Rightarrow> transaction_t \<Rightarrow> UndoBuffer \<Rightarrow> ('d, 'x) CatalogSet \<Rightarrow> ('d, 'x) CatalogSet result" where
  "commitCatalog addr commitTS = iterate (on_catalog addr (commitCatalogEntryRecord commitTS))"

lemma foldM_on_catalog: "foldM (on_catalog addr f) recs cs = foldM f (set_records addr recs) cs"
proof (induction addr recs arbitrary: cs rule: set_records.induct)
  case (2 addr b a recs)
  then show ?case by (cases "f a cs") (auto simp: on_catalog_def)
qed (simp_all add: on_catalog_def)

lemma set_records_rev: "set_records addr (rev recs) = rev (set_records addr recs)"
proof (induction addr recs rule: set_records.induct)
  case (2 addr b a recs)
  then show ?case by (simp add: set_records_append)
qed (simp_all add: set_records_append)

text \<open>Committing a record stamps the entry in front of the recorded one.\<close>

fun stamped :: "transaction_t \<Rightarrow> nat set \<Rightarrow> ('d, 'x) CatalogEntry list \<Rightarrow> ('d, 'x) CatalogEntry list" where
  "stamped c R (e # f # es) = (if ce_addr f \<in> R then e\<lparr>ce_timestamp := c\<rparr> else e) # stamped c R (f # es)"
| "stamped c R ch = ch"

lemma stamped_addr [simp]: "map ce_addr (stamped c R ch) = map ce_addr ch"
  by (induction c R ch rule: stamped.induct) simp_all

lemma stamped_addrs [simp]: "ce_addr ` set (stamped c R ch) = ce_addr ` set ch"
  using stamped_addr by (metis image_set)

lemma stamped_empty [simp]: "stamped c {} ch = ch"
  by (induction c "{} :: nat set" ch rule: stamped.induct) simp_all

lemma stamped_notin: "a \<notin> ce_addr ` set (tl ch) \<Longrightarrow> stamped c (insert a R) ch = stamped c R ch"
  by (induction c R ch rule: stamped.induct) auto

lemma stamp_other: "b \<notin> ce_addr ` set ch \<Longrightarrow> map (\<lambda>e. if ce_addr e = b then f e else e) ch = ch"
  by (rule map_idI) (metis imageI)

lemma stamped_insert:
  assumes "distinct (map ce_addr ch)" "a \<in> ce_addr ` set (tl ch)"
  shows "\<exists>n. getNext a (stamped c R ch) = Some n \<and>
    map (\<lambda>e. if ce_addr e = ce_addr n then e\<lparr>ce_timestamp := c\<rparr> else e) (stamped c R ch) = stamped c (insert a R) ch"
  using assms
proof (induction c R ch rule: stamped.induct)
  case (1 c R e f es)
  let ?e = "if ce_addr f \<in> R then e\<lparr>ce_timestamp := c\<rparr> else e"
  obtain f' es' where r: "stamped c R (f # es) = f' # es'" "ce_addr f' = ce_addr f"
    using stamped_addr [of c R "f # es"] by (cases "stamped c R (f # es)") auto
  have ne: "ce_addr e \<notin> ce_addr ` set (f # es)" using "1.prems"(1) by simp
  show ?case
  proof (cases "ce_addr f = a")
    case True
    have "a \<notin> ce_addr ` set (tl (f # es))" using "1.prems"(1) True by auto
    note same = stamped_notin [OF this, of c R]
    have "ce_addr e \<notin> ce_addr ` set (stamped c R (f # es))" using ne unfolding stamped_addrs .
    note o = stamp_other [OF this, of "\<lambda>e. e\<lparr>ce_timestamp := c\<rparr>"]
    show ?thesis using True r same o by (intro exI [of _ ?e]) auto
  next
    case False
    then have "a \<in> ce_addr ` set (tl (f # es))" using "1.prems"(2) by auto
    with "1.IH" "1.prems"(1) obtain n where n: "getNext a (stamped c R (f # es)) = Some n"
      "map (\<lambda>e. if ce_addr e = ce_addr n then e\<lparr>ce_timestamp := c\<rparr> else e) (stamped c R (f # es)) = stamped c (insert a R) (f # es)"
      by auto
    have "getNext a ch = Some n \<Longrightarrow> n \<in> set ch" for ch :: "('a, 'b) CatalogEntry list"
      by (induction a ch rule: getNext.induct) (auto split: if_splits)
    from this [OF n(1)] have "ce_addr n \<in> ce_addr ` set (f # es)" using stamped_addrs by (metis imageI)
    then have "ce_addr n \<noteq> ce_addr e" using ne by metis
    then show ?thesis using n r False by (intro exI [of _ n]) auto
  qed
qed simp_all

lemma stamped_wf:
  assumes "chain_wf b k ch"
  shows "chain_wf b k (stamped c R ch)"
proof -
  have "last (stamped c R ch) = last ch" "stamped c R ch \<noteq> [] \<longleftrightarrow> ch \<noteq> []"
    by (induction c R ch rule: stamped.induct) auto
  moreover have "e \<in> set (stamped c R ch) \<Longrightarrow> \<exists>f \<in> set ch. ce_name e = ce_name f \<and> ce_addr e = ce_addr f" for e
    by (induction c R ch rule: stamped.induct) (auto split: if_splits)
  ultimately show ?thesis using assms by (fastforce simp: chain_wf_def)
qed

definition committing_entries :: "transaction_t \<Rightarrow> nat set \<Rightarrow> ('d, 'x) CatalogSet \<Rightarrow> ('d, 'x) CatalogSet \<Rightarrow> bool" where
  "committing_entries c R cs x \<longleftrightarrow> cs_wf x \<and> (\<forall>k. chains x k = map_option (stamped c R) (chains cs k))"

lemma commit_step:
  assumes wf: "cs_wf cs" and x: "committing_entries c R cs x" and a: "chains cs k = Some ch" "a \<in> ce_addr ` set (tl ch)"
  shows "\<exists>y. commitCatalogEntryRecord c a x = Inr y \<and> committing_entries c (insert a R) cs y"
proof -
  have xw: "cs_wf x" and xc: "\<And>k. chains x k = map_option (stamped c R) (chains cs k)" using x by (simp_all add: committing_entries_def)
  have ch: "chains x k = Some (stamped c R ch)" using xc a(1) by simp
  have w: "chain_wf (cs_brk cs) k ch" by (rule cs_wfD(2) [OF wf a(1)])
  have ain: "a \<in> ce_addr ` set ch" using a(2) by (cases ch) auto
  have "a \<in> ce_addr ` set (stamped c R ch)" using ain by (simp only: stamped_addrs)
  note loc = locate_chain [OF xw ch this]
  obtain n where n: "getNext a (stamped c R ch) = Some n"
    "map (\<lambda>e. if ce_addr e = ce_addr n then e\<lparr>ce_timestamp := c\<rparr> else e) (stamped c R ch) = stamped c (insert a R) ch"
    using stamped_insert [OF _ a(2), of c R] w unfolding chain_wf_def by blast
  let ?y = "set_chain k (stamped c (insert a R) ch) x"
  have r: "commitCatalogEntryRecord c a x = Inr ?y" using loc n by (simp add: commitCatalogEntryRecord_def)
  have "\<forall>b \<in> ce_addr ` set (stamped c R ch). b < cs_brk x" using cs_wfD(2) [OF xw ch] unfolding chain_wf_def by blast
  then have "\<forall>b \<in> ce_addr ` set ch. b < cs_brk x" unfolding stamped_addrs .
  then have "chain_wf (cs_brk x) k ch" using w by (simp add: chain_wf_def)
  note yw = stamped_wf [OF this, of c "insert a R"]
  have "distinct (map fst (entries ?y))" using cs_wfD(1) [OF xw] by (simp add: set_chain_def distinct_update)
  moreover have "\<exists>old. chains x k = Some old \<and> b \<in> ce_addr ` set old" if "b \<in> ce_addr ` set (stamped c (insert a R) ch)" for b
    using that ch stamped_addrs by metis
  ultimately have "cs_wf ?y"
    by (intro cs_wf_set [OF xw yw order_refl _ chains_set(1) _ chains_set(2)]) blast+
  moreover have "chains ?y j = map_option (stamped c (insert a R)) (chains cs j)" for j
  proof (cases "j = k")
    case True
    then show ?thesis using a(1) by simp
  next
    case False
    have "a \<notin> ce_addr ` set (tl c2)" if "chains cs j = Some c2" for c2
      using cs_wfD(3) [OF wf a(1) that ain] False by (cases c2) auto
    then have "stamped c (insert a R) c2 = stamped c R c2" if "chains cs j = Some c2" for c2 using stamped_notin that by blast
    then show ?thesis using False xc by (cases "chains cs j") simp_all
  qed
  ultimately show ?thesis using r by (auto simp: committing_entries_def)
qed

lemma commit_entry_records:
  assumes wf: "cs_wf cs" and as: "\<forall>a \<in> set as. \<exists>k ch. chains cs k = Some ch \<and> a \<in> ce_addr ` set (tl ch)"
  shows "committing_entries c R cs x \<Longrightarrow> \<exists>y. foldM (commitCatalogEntryRecord c) as x = Inr y \<and> committing_entries c (set as \<union> R) cs y"
  using as
proof (induction as arbitrary: R x)
  case (Cons a as)
  obtain y where y: "commitCatalogEntryRecord c a x = Inr y" "committing_entries c (insert a R) cs y"
    using commit_step [OF wf Cons.prems(1)] Cons.prems(2) by (meson list.set_intros(1))
  from Cons.IH [OF y(2)] Cons.prems(2) show ?case by (auto simp: y(1))
qed auto

text \<open>After all records of a transaction exactly its entries are stamped.\<close>

definition stamp :: "transaction_t \<Rightarrow> transaction_t \<Rightarrow> ('d, 'x) CatalogEntry \<Rightarrow> ('d, 'x) CatalogEntry" where
  "stamp tid c e = (if ce_timestamp e = tid then e\<lparr>ce_timestamp := c\<rparr> else e)"

lemma own_prevs_tl: "own_prevs tid ch \<subseteq> ce_addr ` set (tl ch)"
proof (induction tid ch rule: own_prevs.induct)
  case (1 tid e f es)
  then show ?case by (cases es) auto
qed auto

lemma stamped_own:
  assumes "distinct (map ce_addr ch)" "ch \<noteq> [] \<Longrightarrow> ce_timestamp (last ch) \<noteq> tid" "R \<inter> ce_addr ` set (tl ch) = own_prevs tid ch"
  shows "stamped c R ch = map (stamp tid c) ch"
  using assms
proof (induction c R ch rule: stamped.induct)
  case (1 c R e f es)
  have sub: "own_prevs tid (f # es) \<subseteq> ce_addr ` set es" using own_prevs_tl [of tid "f # es"] by simp
  have f: "ce_addr f \<notin> ce_addr ` set es" using "1.prems"(1) by auto
  have R: "R \<inter> insert (ce_addr f) (ce_addr ` set es) = (if ce_timestamp e = tid then {ce_addr f} else {}) \<union> own_prevs tid (f # es)"
    using "1.prems"(3) by simp
  have "ce_addr f \<in> R \<longleftrightarrow> ce_timestamp e = tid"
  proof
    assume "ce_addr f \<in> R"
    then have "ce_addr f \<in> (if ce_timestamp e = tid then {ce_addr f} else {}) \<union> own_prevs tid (f # es)" using R by blast
    then show "ce_timestamp e = tid" using sub f by (auto split: if_splits)
  next
    assume "ce_timestamp e = tid"
    then have "ce_addr f \<in> R \<inter> insert (ce_addr f) (ce_addr ` set es)" unfolding R by simp
    then show "ce_addr f \<in> R" by blast
  qed
  moreover have "R \<inter> ce_addr ` set es = own_prevs tid (f # es)"
  proof -
    have "R \<inter> ce_addr ` set es = (R \<inter> insert (ce_addr f) (ce_addr ` set es)) - {ce_addr f}" using f by blast
    also have "\<dots> = own_prevs tid (f # es)" unfolding R using sub f by auto
    finally show ?thesis .
  qed
  then have "stamped c R (f # es) = map (stamp tid c) (f # es)" using "1.IH" "1.prems"(1,2) by simp
  ultimately show ?case by (simp add: stamp_def)
qed (auto simp: stamp_def)

lemma commit_chains:
  assumes inv: "cat_inv addr t0 cs0 cs as" and t: "tx_ID t0 \<noteq> 0"
  shows "\<exists>y. foldM (commitCatalogEntryRecord c) as cs = Inr y \<and> (\<forall>k. chain y k = map (stamp (tx_ID t0) c) (chain cs k))"
proof -
  note i = cat_invD [OF inv]
  have one: "\<exists>k ch. chains cs k = Some ch \<and> a \<in> ce_addr ` set (tl ch)" if "a \<in> set as" for a
  proof -
    obtain k where k: "a \<in> own_prevs (tx_ID t0) (chain cs k)" using i(4) \<open>a \<in> set as\<close> by blast
    then obtain ch where "chains cs k = Some ch" by (cases "chains cs k") auto
    then show ?thesis using k own_prevs_tl [of "tx_ID t0" ch] by (intro exI [of _ k] exI [of _ ch]) auto
  qed
  have "map_option (stamped c {}) m = m" for m :: "('a, 'b) CatalogEntry list option" by (cases m) simp_all
  then have "committing_entries c {} cs cs" using i(1) by (simp add: committing_entries_def)
  moreover have "\<forall>a \<in> set as. \<exists>k ch. chains cs k = Some ch \<and> a \<in> ce_addr ` set (tl ch)" using one by (rule ballI)
  ultimately obtain y where y: "foldM (commitCatalogEntryRecord c) as cs = Inr y" "committing_entries c (set as \<union> {}) cs y"
    using commit_entry_records [OF i(1)] by blast
  have "chain y k = map (stamp (tx_ID t0) c) (chain cs k)" for k
  proof (cases "chains cs k")
    case None
    then show ?thesis using y(2) by (simp add: committing_entries_def)
  next
    case (Some ch)
    have w: "chain_wf (cs_brk cs) k ch" by (rule cs_wfD(2) [OF i(1) Some])
    have "set as \<inter> ce_addr ` set (tl ch) = own_prevs (tx_ID t0) ch"
    proof
      have "own_prevs (tx_ID t0) (chain cs k) \<subseteq> set as" unfolding i(4) by blast
      then show "own_prevs (tx_ID t0) ch \<subseteq> set as \<inter> ce_addr ` set (tl ch)"
        using own_prevs_tl [of "tx_ID t0" ch] Some by simp
      show "set as \<inter> ce_addr ` set (tl ch) \<subseteq> own_prevs (tx_ID t0) ch"
      proof
        fix a assume a: "a \<in> set as \<inter> ce_addr ` set (tl ch)"
        then obtain j where j: "a \<in> own_prevs (tx_ID t0) (chain cs j)" using i(4) by blast
        then obtain c2 where c2: "chains cs j = Some c2" by (cases "chains cs j") auto
        have "a \<in> ce_addr ` set c2" using j c2 own_prevs_tl [of "tx_ID t0" c2] by (cases c2) auto
        moreover have "a \<in> ce_addr ` set ch" using a by (cases ch) auto
        ultimately have "j = k" using cs_wfD(3) [OF i(1) c2 Some] by blast
        then show "a \<in> own_prevs (tx_ID t0) ch" using j Some by simp
      qed
    qed
    then have "stamped c (set as) ch = map (stamp (tx_ID t0) c) ch"
      using w t by (intro stamped_own) (auto simp: chain_wf_def)
    then show ?thesis using y(2) Some by (simp add: committing_entries_def)
  qed
  then show ?thesis using y(1) by blast
qed

subsection \<open>Snapshots\<close>

lemma see_others:
  assumes "tx_ID r \<noteq> tid" "tx_startTS r < tid"
  shows "see r ch = see r (others tid ch)"
proof (induction ch)
  case (Cons e es)
  have "\<not> tid \<le> tx_startTS r" using assms(2) by simp
  then show ?case using Cons assms(1) by (cases "ce_timestamp e = tid") (simp_all add: see_Cons others_def)
qed (simp add: others_def)

lemma see_stamped_old:
  assumes r: "tx_ID r \<noteq> c" "\<not> c \<le> tx_startTS r"
  shows "\<forall>e \<in> set (others tid ch). ce_timestamp e \<noteq> tid \<Longrightarrow> see r (map (stamp tid c) ch) = see r (others tid ch)"
proof (induction ch)
  case (Cons e es)
  show ?case
  proof (cases "ce_timestamp e = tid")
    case True
    then have o: "others tid (e # es) = others tid es" by (simp add: others_def)
    have "see r (map (stamp tid c) (e # es)) = see r (map (stamp tid c) es)" using True r by (simp add: see_Cons stamp_def)
    then show ?thesis using Cons.IH Cons.prems unfolding o by simp
  next
    case False
    then have o: "others tid (e # es) = e # es" by (simp add: others_def)
    have "map (stamp tid c) (e # es) = e # es" using Cons.prems unfolding o by (intro map_idI) (auto simp: stamp_def)
    then show ?thesis unfolding o by simp
  qed
qed (simp add: others_def)

lemma others_old:
  assumes s: "cat_start t0 cs0" and n: "norm ch = normed cs0 k" and e: "e \<in> set ch"
  shows "ce_timestamp e \<le> tx_startTS t0" "ce_timestamp e \<noteq> tx_ID t0"
proof -
  have "ce_timestamp e = 0 \<or> (\<exists>f \<in> set (chain cs0 k). ce_timestamp e = ce_timestamp f)"
  proof (cases "norm ch = []")
    case True
    then show ?thesis using e by (auto simp: norm_def split: list.splits if_splits)
  next
    case False
    then have "norm ch = map strip_entry ch" "normed cs0 k = map strip_entry (chain cs0 k)"
      using n unfolding normed_chain by (auto simp: norm_def split: list.splits if_splits)
    then have "map ce_timestamp ch = map ce_timestamp (chain cs0 k)" using n timestamp_strip by metis
    then show ?thesis using e by (metis (no_types, lifting) imageE image_eqI image_set)
  qed
  then show "ce_timestamp e \<le> tx_startTS t0" using cat_startD(4) [OF s, of _ k] by (metis word_zero_le)
  moreover have "tx_startTS t0 < tx_ID t0" using cat_startD(1) [OF s] by (auto simp: entry_writer_def)
  ultimately show "ce_timestamp e \<noteq> tx_ID t0" by auto
qed

lemma see_stamped_new:
  assumes r: "tx_startTS t0 \<le> tx_startTS r" "c \<le> tx_startTS r"
    and o: "\<forall>e \<in> set (others (tx_ID t0) ch). ce_timestamp e \<le> tx_startTS t0"
  shows "see r (map (stamp (tx_ID t0) c) ch) = see t0 ch"
proof (cases ch)
  case (Cons e es)
  show ?thesis
  proof (cases "ce_timestamp e = tx_ID t0")
    case True
    then show ?thesis using Cons r by (simp add: see_Cons stamp_def)
  next
    case False
    then have "ce_timestamp e \<le> tx_startTS t0" using o Cons by (simp add: others_def)
    moreover from this have "ce_timestamp e \<le> tx_startTS r" using r(1) by (rule order_trans)
    ultimately show ?thesis using Cons False by (simp add: see_Cons stamp_def)
  qed
qed simp

lemma grown_view:
  assumes g: "grown t k e a cs cs'"
  shows "view t cs' = (view t cs)(k := if ce_deleted e then None else Some (content e))"
proof
  fix j
  obtain base rest where c: "map strip_entry (chain cs' k) = map strip_entry (e # base # rest)"
    "\<And>j. j \<noteq> k \<Longrightarrow> map strip_entry (chain cs' j) = map strip_entry (chain cs j)"
    using grown_chain [OF g, of 1] by metis
  show "view t cs' j = ((view t cs)(k := if ce_deleted e then None else Some (content e))) j"
  proof (cases "j = k")
    case True
    have "view t cs' k = see t (map strip_entry (e # base # rest))" unfolding view_def c(1) [symmetric] see_strip ..
    then show ?thesis using True grown_wf(2) [OF g] by (simp add: see_Cons)
  next
    case False
    have "view t cs' j = view t cs j" unfolding view_def using see_strip c(2) [OF False] by metis
    then show ?thesis using False by simp
  qed
qed

subsection \<open>Properties\<close>

text \<open>An example: a set with one committed table, and a transaction that creates a second one, renames it, and drops the first.\<close>

definition example_entry :: "string \<Rightarrow> (unit, unit) CatalogEntry" where
  "example_entry name = (DummyCatalogEntry 0 name 0)\<lparr>ce_type := NODE_TABLE_ENTRY, ce_deleted := False\<rparr>"

definition example_catalog :: "(unit, unit) CatalogSet" where
  "example_catalog = CatalogSet_reload 1 [example_entry ''person'']"

definition example_ddl :: Transaction where
  "example_ddl = new_Transaction WRITE (START_TRANSACTION_ID + 1) 5 True"

definition example_changes :: "(unit, unit) cat_state" where
  "example_changes =
     snd (dropEntry 0 ''Person'' 0
       (snd (createEntry 0 (example_entry ''city'') (example_catalog, (example_ddl, [])))))"

lemma example_catalog_chains: "entries example_catalog = [(''person'', [example_entry ''person''])]" "cs_brk example_catalog = 1"
proof -
  have l: "toLower ''person'' = ''person''" by code_simp
  show "entries example_catalog = [(''person'', [example_entry ''person''])]" "cs_brk example_catalog = 1"
    by (simp_all add: example_catalog_def CatalogSet_reload_def CatalogEntry_reload_def emplaceNoLock_def set_chain_def entries_at_def
        new_CatalogSet_def example_entry_def DummyCatalogEntry_def DUMMY_START_TIMESTAMP_def l)
qed

lemma example_cat_start: "cat_start example_ddl example_catalog"
proof -
  have "entry_writer example_ddl" "undoRecords (undoBuffer example_ddl) = []" by code_simp+
  moreover have "chain_wf 1 ''person'' [example_entry ''person'']" "ce_timestamp (example_entry ''person'') = 0" by code_simp+
  ultimately show ?thesis by (auto simp: cat_start_def cs_wf_def example_catalog_chains split: if_splits)
qed

lemma example_cat_steps: "cat_steps 0 (example_catalog, (example_ddl, [])) example_changes"
  unfolding example_changes_def
  by (rule steps_step [OF steps_step [OF steps_refl step_create] step_drop]) (rule prod.collapse [symmetric])+

text \<open>Creating and dropping entries act on what the transaction sees as on a map from names up to case, when no other
  transaction has pending changes: a creation adds the entry or throws because the name is there, a drop removes it or throws
  because it is not, and a lookup reads the map.\<close>

lemma catalog_refines_map:
  assumes wf: "cs_wf cs" and t: "heads_ok t cs" "entry_writer t" and e: "\<not> ce_deleted e"
  shows "(view t cs (toLower (ce_name e)) = None \<longrightarrow>
      (\<exists>cs' a. createEntryNoLock t e cs = Inr (cs', a) \<and> cs_wf cs' \<and> view t cs' = (view t cs)(toLower (ce_name e) \<mapsto> content e))) \<and>
    (view t cs (toLower (ce_name e)) \<noteq> None \<longrightarrow>
      createEntryNoLock t e cs = Inl (CatalogException (ce_name e @ '' already exists in catalog.''))) \<and>
    (view t cs (toLower name) \<noteq> None \<longrightarrow>
      (\<exists>cs' a. dropEntryNoLock t name oid cs = Inr (cs', a) \<and> cs_wf cs' \<and> view t cs' = (view t cs)(toLower name := None))) \<and>
    (view t cs (toLower name) = None \<longrightarrow>
      dropEntryNoLock t name oid cs = Inl (CatalogException (name @ '' does not exist in catalog.''))) \<and>
    (case view t cs (toLower name) of
       None \<Rightarrow> getEntryNoLock t name cs = Inl (CatalogException (name @ '' does not exist in catalog.''))
     | Some c \<Rightarrow> \<exists>f. getEntryNoLock t name cs = Inr f \<and> content f = c)"
proof (intro conjI impI)
  assume "view t cs (toLower (ce_name e)) = None"
  from create_grown(2) [OF wf t this] obtain cs' a where c: "createEntryNoLock t e cs = Inr (cs', a)"
    "grown t (toLower (ce_name e)) (e\<lparr>ce_addr := cs_brk cs, ce_timestamp := tx_ID t\<rparr>) a cs cs'" by blast
  moreover have "view t cs' = (view t cs)(toLower (ce_name e) \<mapsto> content e)"
    using grown_view [OF c(2)] e by (simp add: content_def)
  ultimately show "\<exists>cs' a. createEntryNoLock t e cs = Inr (cs', a) \<and> cs_wf cs' \<and>
      view t cs' = (view t cs)(toLower (ce_name e) \<mapsto> content e)"
    using grown_wf(1) by blast
next
  assume "view t cs (toLower name) \<noteq> None"
  from drop_grown(2) [OF wf t(1) this, of oid] obtain cs' b where c: "dropEntryNoLock t name oid cs = Inr (cs', b)"
    "grown t (toLower name) ((DummyCatalogEntry (cs_brk cs) name oid)\<lparr>ce_timestamp := tx_ID t\<rparr>) b cs cs'" by blast
  moreover have "view t cs' = (view t cs)(toLower name := None)"
    using grown_view [OF c(2)] by (simp add: DummyCatalogEntry_def)
  ultimately show "\<exists>cs' a. dropEntryNoLock t name oid cs = Inr (cs', a) \<and> cs_wf cs' \<and> view t cs' = (view t cs)(toLower name := None)"
    using grown_wf(1) by blast
qed (use create_grown(1) [OF wf t] drop_grown(1) [OF wf t(1)] getEntry_view [OF wf] in blast)+

text \<open>Rolling back a transaction that created, dropped, altered and renamed entries does not fail and restores what every
  transaction sees of the set, also when some of the changes threw.\<close>

lemma catalog_rolled_back:
  assumes s: "cat_start t0 cs0" and r: "cat_steps addr (cs0, (t0, wal0)) (cs, (t, wal))"
  shows "\<exists>cs'. rollbackCatalog addr (undoBuffer t) cs = Inr cs' \<and> (\<forall>r k. view r cs' k = view r cs0 k)"
proof -
  have inv: "cat_inv addr t0 cs0 cs (set_records addr (undoRecords (undoBuffer t)))" using inv_steps [OF r refl refl s] by simp
  obtain cs' where "foldM rollbackCatalogEntryRecord (rev (set_records addr (undoRecords (undoBuffer t)))) cs = Inr cs'"
    "normed cs' = normed cs0"
    using cat_invD(3) [OF inv cat_invD(1) [OF inv] refl] by blast
  then show ?thesis
    by (intro exI [of _ cs'])
      (simp add: rollbackCatalog_def reverseIterate_undoRecords foldM_on_catalog set_records_rev view_normed)
qed

text \<open>No other transaction sees the changes of a running one.\<close>

lemma catalog_isolated:
  assumes s: "cat_start t0 cs0" and st: "cat_steps addr (cs0, (t0, wal0)) (cs, (t, wal))"
    and r: "tx_ID r \<noteq> tx_ID t0" "tx_startTS r < tx_ID t0"
  shows "view r cs k = view r cs0 k"
proof -
  have inv: "cat_inv addr t0 cs0 cs (set_records addr (undoRecords (undoBuffer t)))" using inv_steps [OF st refl refl s] by simp
  have "view r cs k = see r (others (tx_ID t0) (chain cs k))" unfolding view_def by (rule see_others [OF r])
  also have "\<dots> = see r (normed cs0 k)" using see_norm cat_invD(5) [OF inv] by metis
  finally show ?thesis by (simp add: view_normed)
qed

text \<open>Committing does not fail; transactions that started before the commit timestamp go on to see the old entries, and those
  that start at or after it see what the transaction saw.\<close>

lemma catalog_committed:
  assumes s: "cat_start t0 cs0" and st: "cat_steps addr (cs0, (t0, wal0)) (cs, (t, wal))"
  shows "\<exists>cs'. commitCatalog addr commitTS (undoBuffer t) cs = Inr cs' \<and>
    (\<forall>r k. tx_ID r \<noteq> commitTS \<and> tx_startTS r < commitTS \<longrightarrow> view r cs' k = view r cs0 k) \<and>
    (\<forall>r k. tx_startTS t0 \<le> tx_startTS r \<and> commitTS \<le> tx_startTS r \<longrightarrow> view r cs' k = view t cs k)"
proof -
  have same: "same_tx t0 t" and inv: "cat_inv addr t0 cs0 cs (set_records addr (undoRecords (undoBuffer t)))"
    using inv_steps [OF st refl refl s] by simp_all
  obtain cs' where f: "foldM (commitCatalogEntryRecord commitTS) (set_records addr (undoRecords (undoBuffer t))) cs = Inr cs'"
    and c: "\<And>k. chain cs' k = map (stamp (tx_ID t0) commitTS) (chain cs k)"
    using commit_chains [OF inv cat_startD(6) [OF s]] by blast
  have o: "\<forall>e \<in> set (others (tx_ID t0) (chain cs k)). ce_timestamp e \<le> tx_startTS t0 \<and> ce_timestamp e \<noteq> tx_ID t0" for k
    using others_old [OF s cat_invD(5) [OF inv]] by blast
  have "view r cs' k = view r cs0 k" if r: "tx_ID r \<noteq> commitTS" "tx_startTS r < commitTS" for r k
  proof -
    have "view r cs' k = see r (others (tx_ID t0) (chain cs k))"
      unfolding view_def c by (rule see_stamped_old) (use r o in \<open>simp_all add: not_le\<close>)
    also have "\<dots> = see r (normed cs0 k)" using see_norm cat_invD(5) [OF inv] by metis
    finally show ?thesis by (simp add: view_normed)
  qed
  moreover have "view r cs' k = view t cs k" if r: "tx_startTS t0 \<le> tx_startTS r" "commitTS \<le> tx_startTS r" for r k
  proof -
    have "view r cs' k = see t0 (chain cs k)" unfolding view_def c by (rule see_stamped_new [OF r]) (use o in blast)
    then show ?thesis using see_tx [of t0 t] same by (simp add: view_def same_tx_def)
  qed
  ultimately show ?thesis
    using f by (intro exI [of _ cs']) (simp add: commitCatalog_def iterate_undoRecords foldM_on_catalog)
qed

lemma example_changes_view:
  "view (fst (snd example_changes)) (fst example_changes) ''person'' = None"
  "view (fst (snd example_changes)) (fst example_changes) ''city'' \<noteq> None"
proof -
  have "Option.is_none (view (fst (snd example_changes)) (fst example_changes) ''person'')"
    "\<not> Option.is_none (view (fst (snd example_changes)) (fst example_changes) ''city'')" by code_simp+
  then show "view (fst (snd example_changes)) (fst example_changes) ''person'' = None"
    "view (fst (snd example_changes)) (fst example_changes) ''city'' \<noteq> None"
    by (simp_all add: Option.is_none_def)
qed

text \<open>A rename to a name that exists throws when it has dropped the entry already, and the drop has no undo record.\<close>

lemma failed_rename_keeps_drop:
  "case alterEntry 0 \<lparr>ai_tableName = ''person'', ai_extraInfo = RENAME_TABLE ''city''\<rparr>
       (CatalogSet_reload 2 [example_entry ''person'', example_entry ''city''], (example_ddl, [])) of
     (r, (cs, (t, wal))) \<Rightarrow> isl r \<and> undoRecords (undoBuffer t) = [] \<and> Option.is_none (view t cs ''person'')"
  by code_simp

text \<open>(C40) A transaction that starts when every entry of a catalog set is committed, at its start timestamp at the latest, and that
  is then the only one to change the set, by creating, dropping, altering and renaming entries, where all changes but the renames
  may throw: while it runs, no other transaction that started before its commit sees a difference; rolling it back does not fail
  and restores what every transaction sees; committing it does not fail, leaves what the transactions that started before the
  commit timestamp see, and shows those that start at or after it exactly what the transaction saw.\<close>

theorem catalog_transaction:
  assumes s: "cat_start t0 cs0" and st: "cat_steps addr (cs0, (t0, wal0)) (cs, (t, wal))"
  shows "(\<forall>r k. tx_ID r \<noteq> tx_ID t0 \<and> tx_startTS r < tx_ID t0 \<longrightarrow> view r cs k = view r cs0 k) \<and>
    (\<exists>cs'. rollbackCatalog addr (undoBuffer t) cs = Inr cs' \<and> (\<forall>r k. view r cs' k = view r cs0 k)) \<and>
    (\<exists>cs'. commitCatalog addr commitTS (undoBuffer t) cs = Inr cs' \<and>
      (\<forall>r k. tx_ID r \<noteq> commitTS \<and> tx_startTS r < commitTS \<longrightarrow> view r cs' k = view r cs0 k) \<and>
      (\<forall>r k. tx_startTS t0 \<le> tx_startTS r \<and> commitTS \<le> tx_startTS r \<longrightarrow> view r cs' k = view t cs k))"
  using catalog_isolated [OF s st] catalog_rolled_back [OF s st] catalog_committed [OF s st] by blast

theorem catalog_transaction_witness:
  "\<exists>cs' cs''. rollbackCatalog 0 (undoBuffer (fst (snd example_changes))) (fst example_changes) = Inr cs' \<and>
     view example_ddl cs' ''person'' = view example_ddl example_catalog ''person'' \<and>
     commitCatalog 0 6 (undoBuffer (fst (snd example_changes))) (fst example_changes) = Inr cs'' \<and>
     view (new_Transaction READ_ONLY (START_TRANSACTION_ID + 2) 5 True) cs'' ''person'' =
       view (new_Transaction READ_ONLY (START_TRANSACTION_ID + 2) 5 True) example_catalog ''person'' \<and>
     view (new_Transaction READ_ONLY (START_TRANSACTION_ID + 2) 6 True) cs'' ''person'' = None \<and>
     view (new_Transaction READ_ONLY (START_TRANSACTION_ID + 2) 6 True) cs'' ''city'' \<noteq> None"
proof -
  let ?r = "\<lambda>ts. new_Transaction READ_ONLY (START_TRANSACTION_ID + 2) ts True"
  obtain cs t wal where e: "example_changes = (cs, (t, wal))" by (metis prod.exhaust)
  have st: "cat_steps 0 (example_catalog, (example_ddl, [])) (cs, (t, wal))" using example_cat_steps by (simp only: e)
  note v = example_changes_view [unfolded e fst_conv snd_conv]
  have old: "tx_ID (?r 5) \<noteq> 6 \<and> tx_startTS (?r 5) < 6" and new: "tx_startTS example_ddl \<le> tx_startTS (?r 6) \<and> 6 \<le> tx_startTS (?r 6)"
    by (simp_all add: new_Transaction_def START_TRANSACTION_ID_def example_ddl_def)
  show ?thesis
    using catalog_transaction [OF example_cat_start st, of 6, THEN conjunct2] old new v
    unfolding e fst_conv snd_conv by metis
qed

end
