(* ===== verification/Spec2Isabelle.thy ===== *)
theory Spec2Isabelle
  imports Mvcc Timestamp Update_Mvcc Update_Scan Sequence Catalog_Mvcc
begin

text \<open>
  A verification development of kuzu, an embedded graph database in C++ (\<^verbatim>\<open>src/src\<close>). It covers the transactional core in
  memory (row versions, updates of columns, the catalog), and the fixed-width data types (integers of up to 128 bits, dates, times,
  timestamps, intervals) with their arithmetic and their text.

  \<^bold>\<open>How the code is represented.\<close> Classes are records, enumerations are datatypes, and every operation is a function that takes the
  state and returns it changed. An exception is \<open>Inl e\<close> of the type \<open>kuzu_error + 'a\<close>; an operation that can throw after it has
  changed its object returns the result and the state. Undefined behaviour of C++ (null and dangling pointers, a division by zero) has
  errors of its own. Transaction identifiers, timestamps, null-mask words and the halves of 128-bit integers are machine words; the
  other fixed-width integers are integers with \<open>wrap\<close> and \<open>in_range\<close> of their type written out. Objects that are shared by pointers
  have addresses: an undo record names the object it undoes by its address, as the code does by a pointer. Locks are
  not modelled: every operation is one atomic step.

  \<^bold>\<open>Shared parts.\<close>
  \<^item> \<open>Kuzu_Prelude\<close>: errors, the result monad with \<open>foldM\<close>, lists.
  \<^item> \<open>Sel_Vector\<close>, \<open>Null_Mask\<close>, \<open>Column_Chunk_Data\<close>: selection vectors, null masks and column chunks in memory
    (\<^verbatim>\<open>common/data_chunk/sel_vector.cpp\<close>, \<^verbatim>\<open>common/null_mask.cpp\<close>, \<^verbatim>\<open>storage/store/column_chunk_data.cpp\<close>).
  \<^item> \<open>Transaction\<close>: transactions and undo buffers (\<^verbatim>\<open>transaction/transaction.cpp\<close>, \<^verbatim>\<open>storage/undo_buffer.cpp\<close>); \<open>iterate\<close> and
    \<open>reverseIterate\<close> run over the memory buffers of an undo buffer and are shown to visit the records in order and in reverse.

  \<^bold>\<open>Row versions\<close> (\<^verbatim>\<open>storage/store/version_info.cpp\<close>, \<^verbatim>\<open>storage/store/chunked_node_group.cpp\<close>).
  \<open>Vector_Version_Info\<close> and \<open>Version_Info\<close> hold the versions of the rows, compressed when all rows of a vector have the same; the
  locale \<open>vector_range_op\<close> of \<open>Version_Info\<close> is the contract of the operations on a range of rows, and append, commit and rollback
  are its interpretations. \<open>Chunked_Node_Group\<close> has the groups of rows. \<open>Mvcc\<close> runs transactions over groups (the relation
  \<open>tx_steps\<close>) and shows that a rollback restores what every reader sees, that a commit changes what later readers see by exactly the
  appends and deletions, that there are no dirty reads, and that a transaction sees its own writes.

  \<^bold>\<open>Updates\<close> (\<^verbatim>\<open>storage/store/update_info.cpp\<close>, \<^verbatim>\<open>storage/store/column_chunk.cpp\<close>).
  \<open>Update_Info\<close> has the chains of versions of a vector, lookups, updates and the undo of an update. \<open>Update_Mvcc\<close> refines runs of
  updates to maps from rows to values: isolation, rollback and commit of a transaction that starts when all versions are committed,
  and exactly when an update conflicts. The locale \<open>version_record\<close> has what commit and rollback share. Where another transaction
  has versions that are not committed, the code departs from this, which the lemmas \<open>update_copies_uncommitted\<close>,
  \<open>update_conflicts_with_copied_row\<close>, \<open>own_version_hides_conflict\<close> and \<open>update_after_rollback_dangles\<close> show. \<open>Update_Scan\<close>: a scan
  reads what lookups read.

  \<^bold>\<open>The catalog\<close> (\<^verbatim>\<open>catalog\<close>). \<open>Property_Collection\<close>: the properties of a table refine an ordered association list.
  \<open>Catalog_Entry\<close>: entries, the alterations of tables, and what a change logs. \<open>Sequence\<close>: the values of sequences, their bounds, and
  what a rollback gives back. \<open>Catalog_Set\<close>: the operations on a set of entries with versions; \<open>Catalog_Chains\<close> and \<open>Catalog_Runs\<close>:
  the invariant of the chains and of a run of changes; \<open>Catalog_Mvcc\<close>: a set refines a map from names to entries for each
  transaction, with isolation, rollback and commit. The data of the classes of entries (functions, indexes and so on) is a type
  parameter.

  \<^bold>\<open>Integers\<close> (\<^verbatim>\<open>common/types/int128_t.cpp\<close>, \<^verbatim>\<open>function/arithmetic\<close>, \<^verbatim>\<open>function/cast\<close>).
  \<open>Numeric_Text\<close>: decimal notation. \<open>Int128\<close> has all operations on 128-bit integers, addition and comparison; \<open>Int128_Mult\<close>
  multiplication, by the native and by the portable product, both interpretations of the locale \<open>magnitude_product\<close>;
  \<open>Int128_Division\<close> division and printing; \<open>Int128_Bits\<close> shifts and casts. \<open>Checked_Arithmetic\<close>: the functions with overflow checks
  on the eight fixed-width types, exact or throwing. \<open>Cast_String\<close>: casts of text, equal to a reference reading of the text; the
  locale \<open>digit_operation\<close> is the contract of the two ways to gather digits.

  \<^bold>\<open>Dates and times\<close> (\<^verbatim>\<open>common/types\<close>). \<open>Interval\<close>: arithmetic and order of intervals. \<open>Date\<close> and \<open>Date_Text\<close>: the Gregorian
  calendar, its day numbers, arithmetic and text. \<open>Time\<close>: times of day. \<open>Timestamp\<close>: timestamps, their parts, arithmetic, truncation
  and text.

  \<^bold>\<open>Loops.\<close> Most loops are functions with a termination proof. The loops of \<open>copyUnaligned\<close> and of the printer of 128-bit integers,
  which end for a reason of arithmetic, are partial functions whose results are proved to exist. The walk over newer versions in
  \<open>conflict_walk\<close> has one step of fuel more than the chain has versions, which is enough for every chain without a cycle; the
  theorems on updates show that it returns.

  \<^bold>\<open>Not modelled.\<close> Everything on disk (buffer manager, pages, write-ahead log, hash indexes, compression, checkpoints), the query
  pipeline (parser, binder, planner, optimizer, processor, expression evaluators), floating-point functions, strings and nested
  values, the transaction manager, which hands out identifiers and timestamps (they are arguments here), concurrency below the
  operations, the language bindings and the third-party libraries. The undo records of rows, updates, sequences and catalog sets
  are each handled in their own theory, on their own part of the state.
\<close>

end
